(* ===== verification/Kernel_Prelude.thy ===== *)
theory Kernel_Prelude
  imports Main "HOL-Library.Word"
begin

unbundle bit_operations_syntax

text \<open>
  Shared vocabulary of the development: how a Rust computation can end (\<open>outcome\<close>), the
  \<open>Result\<close> type, \<open>u64\<close> arithmetic under the two Cargo profiles, MSB-first bit arrays (the
  representation both bitmap allocators use) and the slice primitives of the standard library
  that the sources call.  Generic lemmas live here so that the component theories stay short.
\<close>

named_theorems outcome_simps \<open>computation rules of the outcome monad\<close>

subsection \<open>Outcomes and results\<close>

text \<open>
  \<open>Ret x\<close>: the function returns.  \<open>Panic\<close>: it panics, which in this kernel halts the machine
  (\<open>panic.rs\<close>).  \<open>Spin\<close>: it never returns; it waits on a spin lock that its own caller holds, or
  it runs a loop without end.
\<close>

datatype 'a outcome = Ret 'a | Panic | Spin

datatype ('e, 'a) result = Ok 'a | Err 'e

primrec obind :: "'a outcome \<Rightarrow> ('a \<Rightarrow> 'b outcome) \<Rightarrow> 'b outcome" where
  "obind (Ret x) f = f x"
| "obind Panic f = Panic"
| "obind Spin f = Spin"

definition unwrap :: "'a option \<Rightarrow> 'a outcome" where
  "unwrap x = (case x of None \<Rightarrow> Panic | Some y \<Rightarrow> Ret y)"

definition rust_assert :: "bool \<Rightarrow> unit outcome" where
  "rust_assert b = (if b then Ret () else Panic)"

definition ok_or :: "'e \<Rightarrow> 'a option \<Rightarrow> ('e, 'a) result" where
  "ok_or e x = (case x of None \<Rightarrow> Err e | Some y \<Rightarrow> Ok y)"

text \<open>A loop as a partial function: \<open>None\<close> is a loop that does not end.\<close>

definition loop_result :: "'a outcome option \<Rightarrow> 'a outcome" where
  "loop_result r = (case r of None \<Rightarrow> Spin | Some x \<Rightarrow> x)"

lemma loop_result_Some [simp]: "loop_result (Some x) = x"
  by (simp add: loop_result_def)

lemma unwrap_simps [simp]: "unwrap None = Panic" "unwrap (Some x) = Ret x"
  by (simp_all add: unwrap_def)

lemma rust_assert_simps [simp]: "rust_assert True = Ret ()" "rust_assert False = Panic"
  by (simp_all add: rust_assert_def)

lemma ok_or_simps [simp]: "ok_or e None = Err e" "ok_or e (Some x) = Ok x"
  by (simp_all add: ok_or_def)

lemma obind_assoc [outcome_simps]: "obind (obind m f) g = obind m (\<lambda>x. obind (f x) g)"
  by (cases m) simp_all

lemma obind_Ret_right [simp]: "obind m Ret = m"
  by (cases m) simp_all

lemma obind_eq_Ret [outcome_simps]: "obind m f = Ret y \<longleftrightarrow> (\<exists>x. m = Ret x \<and> f x = Ret y)"
  by (cases m) simp_all

lemma obind_cong [fundef_cong]:
  "m = m' \<Longrightarrow> (\<And>x. m' = Ret x \<Longrightarrow> f x = f' x) \<Longrightarrow> obind m f = obind m' f'"
  by (cases m') simp_all

lemma neq_Ok_unit: "(r :: ('e, unit) result) \<noteq> Ok () \<longleftrightarrow> (\<exists>e. r = Err e)"
  and neq_Err_unit: "(\<forall>e. r \<noteq> Err e) \<longleftrightarrow> r = Ok ()"
  by (cases r; simp)+

lemma case_result_Ret:
  "(case r of Ok x \<Rightarrow> f x | Err e \<Rightarrow> g e) = Ret y \<longleftrightarrow>
     (\<exists>x. r = Ok x \<and> f x = Ret y) \<or> (\<exists>e. r = Err e \<and> g e = Ret y)"
  by (cases r) simp_all

lemma case_option_Ret:
  "(case x of None \<Rightarrow> f | Some z \<Rightarrow> g z) = Ret y \<longleftrightarrow> x = None \<and> f = Ret y \<or> (\<exists>z. x = Some z \<and> g z = Ret y)"
  by (cases x) simp_all

text \<open>A \<open>for\<close> loop (or an iterator's \<open>fold\<close>) whose body may panic.\<close>

fun ofold :: "('s \<Rightarrow> 'a \<Rightarrow> 's outcome) \<Rightarrow> 's \<Rightarrow> 'a list \<Rightarrow> 's outcome" where
  "ofold f s [] = Ret s"
| "ofold f s (x # xs) = obind (f s x) (\<lambda>s'. ofold f s' xs)"

lemma ofold_append [simp]: "ofold f s (xs @ ys) = obind (ofold f s xs) (\<lambda>s'. ofold f s' ys)"
  by (induction xs arbitrary: s) (simp_all add: outcome_simps)

text \<open>The invariant rule of such a loop: a body that returns from every state of the
  invariant, and keeps it, makes the whole loop return in the invariant.\<close>

lemma ofold_total:
  assumes "P 0 s"
    and "\<And>i t. i < length xs \<Longrightarrow> P i t \<Longrightarrow> \<exists>t'. f t (xs ! i) = Ret t' \<and> P (Suc i) t'"
  shows "\<exists>t. ofold f s xs = Ret t \<and> P (length xs) t"
  using assms
proof (induction xs arbitrary: s P)
  case Nil
  then show ?case by simp
next
  case (Cons x xs)
  from Cons.prems(2) [of 0 s] Cons.prems(1) obtain t where
    t: "f s x = Ret t" "P (Suc 0) t" by auto
  have "\<exists>u. ofold f t xs = Ret u \<and> P (Suc (length xs)) u"
  proof (rule Cons.IH [of "\<lambda>i. P (Suc i)"])
    show "P (Suc 0) t" by (fact t(2))
    fix i u assume "i < length xs" "P (Suc i) u"
    then show "\<exists>t'. f u (xs ! i) = Ret t' \<and> P (Suc (Suc i)) t'"
      using Cons.prems(2) [of "Suc i" u] by simp
  qed
  with t show ?case by simp
qed

lemma ofold_invariant:
  assumes "ofold f s xs = Ret t" and "P s"
    and "\<And>x u u'. x \<in> set xs \<Longrightarrow> P u \<Longrightarrow> f u x = Ret u' \<Longrightarrow> P u'"
  shows "P t"
  using assms
  by (induction xs arbitrary: s) (auto simp: outcome_simps)

subsection \<open>Machine arithmetic\<close>

text \<open>
  \<open>u64\<close> values that are only added, subtracted and compared are naturals below \<open>2 ^ 64\<close>.
  An operation that leaves the range panics when overflow checks are on (profile \<open>Dev\<close>) and
  wraps around when they are off (profile \<open>Release\<close>).
\<close>

datatype profile = Dev | Release

abbreviation u64_range :: nat where
  "u64_range \<equiv> 18446744073709551616"

lemma u64_range_pow: "u64_range = 2 ^ 64"
  by simp

definition add64 :: "profile \<Rightarrow> nat \<Rightarrow> nat \<Rightarrow> nat outcome" where
  "add64 pr a b =
     (if a + b < u64_range then Ret (a + b)
      else case pr of Dev \<Rightarrow> Panic | Release \<Rightarrow> Ret ((a + b) mod u64_range))"

definition sub64 :: "profile \<Rightarrow> nat \<Rightarrow> nat \<Rightarrow> nat outcome" where
  "sub64 pr a b =
     (if b \<le> a then Ret (a - b)
      else case pr of Dev \<Rightarrow> Panic | Release \<Rightarrow> Ret (u64_range + a - b))"

definition mul64 :: "profile \<Rightarrow> nat \<Rightarrow> nat \<Rightarrow> nat outcome" where
  "mul64 pr a b =
     (if a * b < u64_range then Ret (a * b)
      else case pr of Dev \<Rightarrow> Panic | Release \<Rightarrow> Ret ((a * b) mod u64_range))"

lemma add64_Ret [simp]: "a + b < u64_range \<Longrightarrow> add64 pr a b = Ret (a + b)"
  by (simp add: add64_def)

lemma sub64_Ret [simp]: "b \<le> a \<Longrightarrow> sub64 pr a b = Ret (a - b)"
  by (simp add: sub64_def)

lemma mul64_Ret [simp]: "a * b < u64_range \<Longrightarrow> mul64 pr a b = Ret (a * b)"
  by (simp add: mul64_def)

definition div_ceil :: "nat \<Rightarrow> nat \<Rightarrow> nat" where
  "div_ceil n d = (if n mod d = 0 then n div d else n div d + 1)"

lemma div_ceil_0 [simp]: "div_ceil 0 d = 0"
  by (simp add: div_ceil_def)

lemma div_ceil_bounds:
  assumes "0 < d"
  shows "n \<le> div_ceil n d * d" and "div_ceil n d * d < n + d"
proof -
  have eq: "n div d * d + n mod d = n" by simp
  have lt: "n mod d < d" using assms by simp
  show "n \<le> div_ceil n d * d" and "div_ceil n d * d < n + d"
    using eq lt assms by (auto simp: div_ceil_def; linarith)+
qed

lemma div_ceil_pos: "0 < n \<Longrightarrow> 0 < d \<Longrightarrow> 0 < div_ceil n d"
  using div_ceil_bounds(1) [of d n] by (cases "div_ceil n d") auto

lemma div_ceil_le_one: "0 < n \<Longrightarrow> n \<le> d \<Longrightarrow> div_ceil n d = 1"
  by (cases "n = d") (auto simp: div_ceil_def)

subsection \<open>Slices\<close>

text \<open>\<open>slice::copy_within(lo..hi, dest)\<close>, with its bounds checks.\<close>

definition copy_within :: "'a list \<Rightarrow> nat \<Rightarrow> nat \<Rightarrow> nat \<Rightarrow> 'a list outcome" where
  "copy_within xs lo hi dest =
     (if lo \<le> hi \<and> hi \<le> length xs \<and> dest \<le> length xs - (hi - lo)
      then Ret (take dest xs @ take (hi - lo) (drop lo xs) @ drop (dest + (hi - lo)) xs)
      else Panic)"

lemma length_copy_within: "copy_within xs lo hi dest = Ret ys \<Longrightarrow> length ys = length xs"
  by (auto simp: copy_within_def split: if_splits)

subsection \<open>Bit arrays, most significant bit first\<close>

text \<open>
  Both allocator bitmaps number the bits of a word from the most significant one, so that
  \<open>leading_ones\<close> of a word is the index of its first clear bit.
\<close>

definition leading_ones :: "'a::len word \<Rightarrow> nat" where
  "leading_ones w =
     length (takeWhile (\<lambda>i. bit w (LENGTH('a) - 1 - i)) [0..<LENGTH('a)])"

definition bm_get :: "'a::len word list \<Rightarrow> nat \<Rightarrow> bool" where
  "bm_get bm f \<longleftrightarrow>
     f < length bm * LENGTH('a) \<and> bit (bm ! (f div LENGTH('a))) (LENGTH('a) - 1 - f mod LENGTH('a))"

lemma leading_ones_le: "leading_ones (w :: 'a::len word) \<le> LENGTH('a)"
  unfolding leading_ones_def by (metis length_takeWhile_le length_upt diff_zero)

lemma leading_ones_set:
  fixes w :: "'a::len word"
  assumes "i < leading_ones w"
  shows "bit w (LENGTH('a) - 1 - i)"
proof -
  let ?P = "\<lambda>i. bit w (LENGTH('a) - 1 - i)"
  from assms have i: "i < length (takeWhile ?P [0..<LENGTH('a)])"
    by (simp add: leading_ones_def)
  then have "?P (takeWhile ?P [0..<LENGTH('a)] ! i)"
    by (metis nth_mem set_takeWhileD)
  moreover have "takeWhile ?P [0..<LENGTH('a)] ! i = i"
    using i leading_ones_le [of w] by (simp add: takeWhile_nth leading_ones_def)
  ultimately show ?thesis by simp
qed

lemma leading_ones_clear:
  fixes w :: "'a::len word"
  assumes "leading_ones w < LENGTH('a)"
  shows "\<not> bit w (LENGTH('a) - 1 - leading_ones w)"
  using nth_length_takeWhile [of "\<lambda>i. bit w (LENGTH('a) - 1 - i)" "[0..<LENGTH('a)]"] assms
  by (simp add: leading_ones_def)

lemma leading_ones_max:
  fixes w :: "'a::len word"
  shows "leading_ones w = LENGTH('a) \<longleftrightarrow> w = - 1"
proof
  assume all: "leading_ones w = LENGTH('a)"
  show "w = - 1"
  proof (rule bit_word_eqI)
    fix n assume n: "n < LENGTH('a)"
    with all leading_ones_set [of "LENGTH('a) - 1 - n" w]
    show "bit w n \<longleftrightarrow> bit (- 1 :: 'a word) n" by simp
  qed
next
  assume "w = - 1"
  then show "leading_ones w = LENGTH('a)"
    by (simp add: leading_ones_def takeWhile_eq_all_conv [THEN iffD2])
qed

lemma bm_div_less: "f < length bm * LENGTH('a::len) \<Longrightarrow> f div LENGTH('a) < length bm"
  by (simp add: less_mult_imp_div_less)

lemma bm_index_eq:
  "f div LENGTH('a::len) = g div LENGTH('a) \<Longrightarrow>
   LENGTH('a) - 1 - f mod LENGTH('a) = LENGTH('a) - 1 - g mod LENGTH('a) \<longleftrightarrow> f = g"
proof -
  assume eq: "f div LENGTH('a) = g div LENGTH('a)"
  have "f mod LENGTH('a) < LENGTH('a)" "g mod LENGTH('a) < LENGTH('a)" by simp_all
  moreover have "f = g \<longleftrightarrow> f mod LENGTH('a) = g mod LENGTH('a)"
    using eq by (metis div_mod_decomp)
  ultimately show ?thesis by linarith
qed

lemma bm_get_set:
  fixes bm :: "'a::len word list"
  assumes "f < length bm * LENGTH('a)"
  shows "bm_get (bm[f div LENGTH('a) :=
           bm ! (f div LENGTH('a)) OR push_bit (LENGTH('a) - 1 - f mod LENGTH('a)) 1]) g
         \<longleftrightarrow> g = f \<or> bm_get bm g"
proof (cases "g div LENGTH('a) = f div LENGTH('a)")
  case True
  with assms bm_div_less [OF assms] bm_index_eq [OF True] show ?thesis
    by (auto simp: bm_get_def bit_or_iff bit_exp_iff)
next
  case False
  then show ?thesis by (auto simp: bm_get_def)
qed

lemma bm_get_clear:
  fixes bm :: "'a::len word list"
  assumes "f < length bm * LENGTH('a)"
  shows "bm_get (bm[f div LENGTH('a) :=
           bm ! (f div LENGTH('a)) AND NOT (push_bit (LENGTH('a) - 1 - f mod LENGTH('a)) 1)]) g
         \<longleftrightarrow> g \<noteq> f \<and> bm_get bm g"
proof (cases "g div LENGTH('a) = f div LENGTH('a)")
  case True
  with assms bm_div_less [OF assms] bm_index_eq [OF True] show ?thesis
    by (auto simp: bm_get_def bit_and_iff bit_not_iff bit_exp_iff)
next
  case False
  then show ?thesis by (auto simp: bm_get_def)
qed

lemma bm_get_leading:
  fixes bm :: "'a::len word list"
  assumes "i < length bm" and "leading_ones (bm ! i) < LENGTH('a)"
  shows "\<not> bm_get bm (i * LENGTH('a) + leading_ones (bm ! i))"
    and "j < leading_ones (bm ! i) \<Longrightarrow> bm_get bm (i * LENGTH('a) + j)"
proof -
  show "\<not> bm_get bm (i * LENGTH('a) + leading_ones (bm ! i))"
    using leading_ones_clear [OF assms(2)] assms(2) by (simp add: bm_get_def)
  assume j: "j < leading_ones (bm ! i)"
  have "i * LENGTH('a) + j < Suc i * LENGTH('a)" using j assms(2) by simp
  also have "\<dots> \<le> length bm * LENGTH('a)" using assms(1) by (intro mult_le_mono1) simp
  finally show "bm_get bm (i * LENGTH('a) + j)"
    using leading_ones_set [OF j] j assms by (simp add: bm_get_def)
qed

lemma bm_ext:
  fixes bm bm' :: "'a::len word list"
  assumes "length bm = length bm'" and "\<And>g. bm_get bm g = bm_get bm' g"
  shows "bm = bm'"
proof (rule nth_equalityI [OF assms(1)])
  fix i assume i: "i < length bm"
  show "bm ! i = bm' ! i"
  proof (rule bit_word_eqI)
    fix n assume n: "n < LENGTH('a)"
    define m where "m = LENGTH('a) - 1 - n"
    have m: "m < LENGTH('a)" "LENGTH('a) - 1 - m = n" using n by (auto simp: m_def)
    have "i * LENGTH('a) + m < Suc i * LENGTH('a)" using m by simp
    also have "\<dots> \<le> length bm * LENGTH('a)" using i by (intro mult_le_mono1) simp
    finally have "i * LENGTH('a) + m < length bm * LENGTH('a)" .
    with assms(2) [of "i * LENGTH('a) + m"] assms(1) m show "bit (bm ! i) n = bit (bm' ! i) n"
      by (simp add: bm_get_def)
  qed
qed

lemma bm_get_replicate_0 [simp]: "\<not> bm_get (replicate n (0 :: 'a::len word)) g"
  by (simp add: bm_get_def less_mult_imp_div_less)

end
