(* ===== verification/Platform.thy ===== *)
theory Platform
  imports Kernel_Prelude
begin

text \<open>
  The kernel is built on third-party crates.  What it uses of \<open>x86_64\<close> (\<open>PhysAddr\<close>, \<open>VirtAddr\<close>,
  \<open>PhysFrame\<close>, \<open>Page\<close>) is a parameter of the model, the record \<open>platform\<close>, together with the
  Cargo profile the kernel is compiled under.  Addresses are naturals; a frame or a page is its
  start address.  \<open>phys_doc\<close> and \<open>virt_doc\<close> state the documented behaviour the theorems rely
  on, and \<open>doc_platform\<close> is one concrete instance of it for the witnesses.
\<close>

record platform =
  prof :: profile
  phys_new :: "nat \<Rightarrow> nat outcome"             \<comment> \<open>\<open>PhysAddr::new\<close>\<close>
  phys_add :: "nat \<Rightarrow> nat \<Rightarrow> nat outcome"       \<comment> \<open>\<open>PhysAddr + u64\<close>\<close>
  frame_containing :: "nat \<Rightarrow> nat"              \<comment> \<open>\<open>PhysFrame::containing_address\<close>\<close>
  frame_from_start :: "nat \<Rightarrow> nat option"       \<comment> \<open>\<open>PhysFrame::from_start_address(..).ok()\<close>\<close>
  virt_new_truncate :: "nat \<Rightarrow> nat"             \<comment> \<open>\<open>VirtAddr::new_truncate\<close>\<close>
  virt_from_ptr :: "nat \<Rightarrow> nat outcome"         \<comment> \<open>\<open>VirtAddr::from_ptr\<close>\<close>
  virt_add :: "nat \<Rightarrow> nat \<Rightarrow> nat outcome"       \<comment> \<open>\<open>VirtAddr + u64\<close>\<close>
  virt_sub :: "nat \<Rightarrow> nat \<Rightarrow> nat outcome"       \<comment> \<open>\<open>VirtAddr - VirtAddr\<close>, a \<open>u64\<close>\<close>
  virt_align_up :: "nat \<Rightarrow> nat \<Rightarrow> nat"          \<comment> \<open>\<open>VirtAddr::align_up\<close>\<close>
  virt_align_down :: "nat \<Rightarrow> nat \<Rightarrow> nat"        \<comment> \<open>\<open>VirtAddr::align_down\<close>\<close>
  page_containing :: "nat \<Rightarrow> nat"               \<comment> \<open>\<open>Page::<Size4KiB>::containing_address\<close>\<close>

definition canonical :: "nat \<Rightarrow> bool" where
  "canonical a \<longleftrightarrow> a < 2 ^ 47 \<or> u64_range - 2 ^ 47 \<le> a \<and> a < u64_range"

definition phys_doc :: "platform \<Rightarrow> bool" where
  "phys_doc P \<longleftrightarrow>
     (\<forall>a. a < 2 ^ 52 \<longrightarrow> phys_new P a = Ret a) \<and>
     (\<forall>a n. a + n < 2 ^ 52 \<longrightarrow> phys_add P a n = Ret (a + n)) \<and>
     (\<forall>a. frame_containing P a = a - a mod 4096) \<and>
     (\<forall>a. frame_from_start P a = (if a mod 4096 = 0 then Some a else None))"

definition virt_doc :: "platform \<Rightarrow> bool" where
  "virt_doc P \<longleftrightarrow>
     (\<forall>a. canonical a \<longrightarrow> virt_new_truncate P a = a) \<and>
     (\<forall>a. canonical a \<longrightarrow> virt_from_ptr P a = Ret a) \<and>
     (\<forall>a n. canonical a \<and> canonical (a + n) \<longrightarrow> virt_add P a n = Ret (a + n)) \<and>
     (\<forall>a b. b \<le> a \<longrightarrow> virt_sub P a b = Ret (a - b)) \<and>
     (\<forall>a. canonical a \<and> canonical (a + 4095) \<longrightarrow>
        virt_align_up P a 4096 = (a + 4095) div 4096 * 4096) \<and>
     (\<forall>a. virt_align_down P a 4096 = a - a mod 4096) \<and>
     (\<forall>a. page_containing P a = a - a mod 4096)"

lemma phys_docD:
  assumes "phys_doc P"
  shows "a < 2 ^ 52 \<Longrightarrow> phys_new P a = Ret a"
    and "a + n < 2 ^ 52 \<Longrightarrow> phys_add P a n = Ret (a + n)"
    and "frame_containing P a = a - a mod 4096"
    and "frame_from_start P a = (if a mod 4096 = 0 then Some a else None)"
  using assms by (simp_all add: phys_doc_def)

lemma virt_docD:
  assumes "virt_doc P"
  shows "canonical a \<Longrightarrow> virt_new_truncate P a = a"
    and "canonical a \<Longrightarrow> canonical (a + n) \<Longrightarrow> virt_add P a n = Ret (a + n)"
    and "b \<le> a \<Longrightarrow> virt_sub P a b = Ret (a - b)"
    and "canonical a \<Longrightarrow> canonical (a + 4095) \<Longrightarrow>
           virt_align_up P a 4096 = (a + 4095) div 4096 * 4096"
    and "virt_align_down P a 4096 = a - a mod 4096"
    and "page_containing P a = a - a mod 4096"
    and "canonical a \<Longrightarrow> virt_from_ptr P a = Ret a"
  using assms by (simp_all add: virt_doc_def)

definition doc_platform :: "profile \<Rightarrow> platform" where
  "doc_platform pr =
     \<lparr>prof = pr,
      phys_new = (\<lambda>a. if a < 2 ^ 52 then Ret a else Panic),
      phys_add = (\<lambda>a n. if a + n < 2 ^ 52 then Ret (a + n) else Panic),
      frame_containing = (\<lambda>a. a - a mod 4096),
      frame_from_start = (\<lambda>a. if a mod 4096 = 0 then Some a else None),
      virt_new_truncate = (\<lambda>a. if a mod 2 ^ 48 < 2 ^ 47 then a mod 2 ^ 48
                               else a mod 2 ^ 48 + (u64_range - 2 ^ 48)),
      virt_from_ptr = (\<lambda>a. if canonical a then Ret a else Panic),
      virt_add = (\<lambda>a n. if canonical (a + n) then Ret (a + n) else Panic),
      virt_sub = (\<lambda>a b. if b \<le> a then Ret (a - b) else Panic),
      virt_align_up = (\<lambda>a n. (a + (n - 1)) div n * n),
      virt_align_down = (\<lambda>a n. a - a mod n),
      page_containing = (\<lambda>a. a - a mod 4096)\<rparr>"

lemma doc_platform_prof [simp]: "prof (doc_platform pr) = pr"
  by (simp add: doc_platform_def)

lemma phys_doc_doc_platform [simp]: "phys_doc (doc_platform pr)"
  by (simp add: phys_doc_def doc_platform_def)

lemma new_truncate_canonical:
  assumes "canonical a"
  shows "virt_new_truncate (doc_platform pr) a = a"
proof (cases "a < 2 ^ 47")
  case True
  then show ?thesis by (simp add: doc_platform_def)
next
  case False
  with assms have hi: "u64_range - 2 ^ 47 \<le> a" "a < u64_range" by (auto simp: canonical_def)
  then obtain r where r: "a = r + 65535 * 2 ^ 48" "r < 2 ^ 48"
    by (intro that [of "a - 65535 * 2 ^ 48"]) simp_all
  then have "a mod 2 ^ 48 = r" by (simp only: mod_mult_self1 mod_less)
  with hi r show ?thesis by (simp add: doc_platform_def)
qed

lemma virt_doc_doc_platform [simp]: "virt_doc (doc_platform pr)"
  unfolding virt_doc_def
  by (intro conjI allI impI; (simp add: new_truncate_canonical)?; simp add: doc_platform_def)

end
