(* ===== verification/Memory_Layout.thy ===== *)
theory Memory_Layout
  imports Platform
begin

text \<open>
  \<open>memory/layout.rs\<close>: the \<open>s_lit!\<close> size literals, the \<open>memory_layout!\<close> macro, which derives a
  \<open>_START\<close> and an \<open>_END\<close> constant from each row, and the six rows of the table.  A row's start
  expression refers to the previous row's end, so the constants form a chain.
\<close>

datatype size_unit = TiB | GiB | MiB | KiB | B

fun s_lit :: "nat \<Rightarrow> size_unit \<Rightarrow> nat" where
  "s_lit i TiB = i * 1024 * 1024 * 1024 * 1024"
| "s_lit i GiB = i * 1024 * 1024 * 1024"
| "s_lit i MiB = i * 1024 * 1024"
| "s_lit i KiB = i * 1024"
| "s_lit i B = i"

definition layout_START :: "platform \<Rightarrow> nat \<Rightarrow> nat" where
  "layout_START P start = virt_new_truncate P start"

definition layout_END :: "platform \<Rightarrow> nat \<Rightarrow> nat \<Rightarrow> nat" where
  "layout_END P start sz = virt_new_truncate P (start + sz - 1)"

definition USERSPACE_START :: "platform \<Rightarrow> nat" where
  "USERSPACE_START P = layout_START P 0"

definition USERSPACE_END :: "platform \<Rightarrow> nat" where
  "USERSPACE_END P = layout_END P 0 (s_lit 128 TiB)"

definition GUARD_HOLE_START :: "platform \<Rightarrow> nat" where
  "GUARD_HOLE_START P = layout_START P 0xffff800000000000"

definition GUARD_HOLE_END :: "platform \<Rightarrow> nat" where
  "GUARD_HOLE_END P = layout_END P 0xffff800000000000 (s_lit 7680 GiB)"

definition PHYSICAL_MEM_START :: "platform \<Rightarrow> nat" where
  "PHYSICAL_MEM_START P = layout_START P (GUARD_HOLE_END P + 1)"

definition PHYSICAL_MEM_END :: "platform \<Rightarrow> nat" where
  "PHYSICAL_MEM_END P = layout_END P (GUARD_HOLE_END P + 1) (s_lit 64 TiB)"

definition UNUSED_HOLE1_START :: "platform \<Rightarrow> nat" where
  "UNUSED_HOLE1_START P = layout_START P (PHYSICAL_MEM_END P + 1)"

definition UNUSED_HOLE1_END :: "platform \<Rightarrow> nat" where
  "UNUSED_HOLE1_END P = layout_END P (PHYSICAL_MEM_END P + 1) (s_lit 512 GiB)"

definition BITMAP_FRAME_ALLOCATOR_START :: "platform \<Rightarrow> nat" where
  "BITMAP_FRAME_ALLOCATOR_START P = layout_START P (UNUSED_HOLE1_END P + 1)"

definition BITMAP_FRAME_ALLOCATOR_END :: "platform \<Rightarrow> nat" where
  "BITMAP_FRAME_ALLOCATOR_END P = layout_END P (UNUSED_HOLE1_END P + 1) (s_lit 1 TiB)"

definition ALLOCATOR_START :: "platform \<Rightarrow> nat" where
  "ALLOCATOR_START P = layout_START P (BITMAP_FRAME_ALLOCATOR_END P + 1)"

definition ALLOCATOR_END :: "platform \<Rightarrow> nat" where
  "ALLOCATOR_END P = layout_END P (BITMAP_FRAME_ALLOCATOR_END P + 1) (s_lit 31 TiB)"

lemmas layout_defs = layout_START_def layout_END_def
  USERSPACE_START_def USERSPACE_END_def GUARD_HOLE_START_def GUARD_HOLE_END_def
  PHYSICAL_MEM_START_def PHYSICAL_MEM_END_def UNUSED_HOLE1_START_def UNUSED_HOLE1_END_def
  BITMAP_FRAME_ALLOCATOR_START_def BITMAP_FRAME_ALLOCATOR_END_def
  ALLOCATOR_START_def ALLOCATOR_END_def

lemma layout_values:
  assumes "virt_doc P"
  shows "USERSPACE_START P = 0" and "USERSPACE_END P = 0x7fffffffffff"
    and "GUARD_HOLE_START P = 0xffff800000000000" and "GUARD_HOLE_END P = 0xffff877fffffffff"
    and "PHYSICAL_MEM_START P = 0xffff878000000000" and "PHYSICAL_MEM_END P = 0xffffc77fffffffff"
    and "UNUSED_HOLE1_START P = 0xffffc78000000000" and "UNUSED_HOLE1_END P = 0xffffc7ffffffffff"
    and "BITMAP_FRAME_ALLOCATOR_START P = 0xffffc80000000000"
    and "BITMAP_FRAME_ALLOCATOR_END P = 0xffffc8ffffffffff"
    and "ALLOCATOR_START P = 0xffffc90000000000" and "ALLOCATOR_END P = 0xffffe7ffffffffff"
  using assms by (simp_all add: layout_defs virt_docD(1) canonical_def)

definition layout_table :: "platform \<Rightarrow> (nat \<times> nat) list" where
  "layout_table P =
     [(USERSPACE_START P, USERSPACE_END P), (GUARD_HOLE_START P, GUARD_HOLE_END P),
      (PHYSICAL_MEM_START P, PHYSICAL_MEM_END P), (UNUSED_HOLE1_START P, UNUSED_HOLE1_END P),
      (BITMAP_FRAME_ALLOCATOR_START P, BITMAP_FRAME_ALLOCATOR_END P),
      (ALLOCATOR_START P, ALLOCATOR_END P)]"

text \<open>
  The virtual memory layout (\<open>memory/layout.rs\<close>): the six areas are
  pairwise disjoint and in ascending order, every one starts on a page boundary, ends just
  before one and is canonical at both ends, and the five kernel areas leave no gap between
  \<open>0xffff_8000_0000_0000\<close> and the end of the allocator area.
\<close>

theorem layout_table_wf:
  assumes "virt_doc P"
  shows "sorted_wrt (\<lambda>r r'. snd r < fst r') (layout_table P) \<and>
    list_all (\<lambda>r. fst r < snd r \<and> fst r mod 4096 = 0 \<and> (snd r + 1) mod 4096 = 0 \<and>
      canonical (fst r) \<and> canonical (snd r)) (layout_table P) \<and>
    list_all (\<lambda>i. fst (layout_table P ! Suc i) = snd (layout_table P ! i) + 1) [1, 2, 3, 4]"
proof -
  note v = layout_values [OF assms]
  have "sorted_wrt (\<lambda>r r'. snd r < fst r') (layout_table P)"
    by (simp add: layout_table_def v)
  moreover have "list_all (\<lambda>r. fst r < snd r \<and> fst r mod 4096 = 0 \<and> (snd r + 1) mod 4096 = 0 \<and>
      canonical (fst r) \<and> canonical (snd r)) (layout_table P)"
    by (simp add: layout_table_def v canonical_def)
  moreover have "list_all (\<lambda>i. fst (layout_table P ! Suc i) = snd (layout_table P ! i) + 1) [1, 2, 3, 4]"
    by (simp add: layout_table_def v)
  ultimately show ?thesis by blast
qed

theorem layout_table_wf_witness:
  "virt_doc (doc_platform Dev) \<and> sorted_wrt (\<lambda>r r'. snd r < fst r') (layout_table (doc_platform Dev))"
  using layout_table_wf [OF virt_doc_doc_platform [of Dev]] by simp

end
