(* ===== verification/Frame_Allocator.thy ===== *)
theory Frame_Allocator
  imports Memory_Layout
begin

text \<open>
  \<open>memory/frame/boot.rs\<close> and \<open>memory/frame/mod.rs\<close>: the boot-time frame allocator, a counter
  over the usable frames, and the bitmap frame allocator that replaces it.  A frame number is
  a natural, a bitmap a list of 64-bit words whose bits are numbered from the most significant
  one.  \<open>MemoryRegion\<close> is the bootloader's descriptor; of its kind the code only asks whether
  it is \<open>Usable\<close>.
\<close>

record MemoryRegion =
  region_start :: nat
  region_end :: nat
  region_usable :: bool

definition usable_regions :: "MemoryRegion list \<Rightarrow> MemoryRegion list" where
  "usable_regions rs = filter region_usable rs"

subsection \<open>The boot frame allocator\<close>

record BootFrameAllocator =
  boot_regions :: "MemoryRegion list"
  boot_next :: nat

definition Boot_new :: "MemoryRegion list \<Rightarrow> BootFrameAllocator" where
  "Boot_new rs = \<lparr>boot_regions = rs, boot_next = 0\<rparr>"

definition Boot_used :: "BootFrameAllocator \<Rightarrow> nat" where
  "Boot_used a = boot_next a"

text \<open>\<open>(s..e).step_by(k)\<close>, and \<open>Iterator::nth\<close> on a mapped iterator: the mapping function runs
  on every element up to the requested one, and may panic.\<close>

definition step_by :: "nat \<Rightarrow> nat \<Rightarrow> nat \<Rightarrow> nat list" where
  "step_by s e k = map (\<lambda>i. s + i * k) [0..<div_ceil (e - s) k]"

fun nth_mapped :: "('a \<Rightarrow> 'b outcome) \<Rightarrow> 'a list \<Rightarrow> nat \<Rightarrow> 'b option outcome" where
  "nth_mapped f [] n = Ret None"
| "nth_mapped f (x # xs) 0 = obind (f x) (\<lambda>y. Ret (Some y))"
| "nth_mapped f (x # xs) (Suc n) = obind (f x) (\<lambda>_. nth_mapped f xs n)"

definition usable_addrs :: "MemoryRegion list \<Rightarrow> nat list" where
  "usable_addrs rs =
     concat (map (\<lambda>r. step_by (region_start r) (region_end r) 4096) (usable_regions rs))"

definition Boot_frame_at :: "platform \<Rightarrow> nat \<Rightarrow> nat outcome" where
  "Boot_frame_at P addr = obind (phys_new P addr) (\<lambda>a. Ret (frame_containing P a))"

definition Boot_allocate_frame ::
  "platform \<Rightarrow> BootFrameAllocator \<Rightarrow> (nat option \<times> BootFrameAllocator) outcome" where
  "Boot_allocate_frame P a =
     obind (nth_mapped (Boot_frame_at P) (usable_addrs (boot_regions a)) (boot_next a))
       (\<lambda>frame. case frame of
          None \<Rightarrow> Ret (None, a)
        | Some f \<Rightarrow> Ret (Some f, a\<lparr>boot_next := boot_next a + 1\<rparr>))"

subsection \<open>The bitmap frame allocator\<close>

record BitmapFrameAllocator =
  regions :: "MemoryRegion list"
  bitmap :: "64 word list"

definition required_bitmap_size :: "platform \<Rightarrow> MemoryRegion list \<Rightarrow> nat outcome" where
  "required_bitmap_size P rs =
     obind (ofold (\<lambda>acc r. obind (add64 (prof P) acc (region_end r))
                                 (\<lambda>t. sub64 (prof P) t (region_start r))) 0 (usable_regions rs))
       (\<lambda>total_bytes. Ret (div_ceil (div_ceil total_bytes 4096) 8))"

definition is_contiguous :: "platform \<Rightarrow> nat \<Rightarrow> nat \<Rightarrow> nat \<Rightarrow> bool outcome" where
  "is_contiguous P start end pages =
     obind (add64 (prof P) end 4096) (\<lambda>end.
     obind (mul64 (prof P) pages 4096) (\<lambda>pages.
     obind (sub64 (prof P) end start) (\<lambda>len. Ret (len = pages))))"

definition mark_frame_used :: "64 word list \<Rightarrow> nat \<Rightarrow> 64 word list outcome" where
  "mark_frame_used bm frame =
     (let wd = frame div 64; bt = 63 - frame mod 64
      in if wd < length bm then Ret (bm[wd := (bm ! wd) OR push_bit bt 1]) else Panic)"

definition mark_frame_free :: "64 word list \<Rightarrow> nat \<Rightarrow> 64 word list outcome" where
  "mark_frame_free bm frame =
     (let wd = frame div 64; bt = 63 - frame mod 64
      in if wd < length bm then Ret (bm[wd := (bm ! wd) AND NOT (push_bit bt 1)]) else Panic)"

text \<open>\<open>map_to\<close> stands for \<open>OffsetPageTable::map_to_with_table_flags\<close> with the flags
  \<open>PRESENT | WRITABLE\<close>.  It receives the frame allocator it may draw page-table frames from.\<close>

type_synonym 'a frame_source = "'a \<Rightarrow> (nat option \<times> 'a) outcome"

type_synonym ('pt, 'a) map_to_fn =
  "'a frame_source \<Rightarrow> nat \<Rightarrow> nat \<Rightarrow> 'pt \<Rightarrow> 'a \<Rightarrow> ((unit, unit) result \<times> 'pt \<times> 'a) outcome"

definition allocate_bitmap ::
  "platform \<Rightarrow> ('pt, BootFrameAllocator) map_to_fn \<Rightarrow> MemoryRegion list \<Rightarrow> 'pt \<Rightarrow>
   BootFrameAllocator \<Rightarrow> (64 word list \<times> 'pt \<times> BootFrameAllocator) outcome" where
  "allocate_bitmap P map_to rs pt alloc =
     obind (required_bitmap_size P rs) (\<lambda>bitmap_size.
     (let bitmap_frames = div_ceil bitmap_size 4096 in
     obind (Boot_allocate_frame P alloc) (\<lambda>(f, alloc).
     obind (unwrap f) (\<lambda>first_frame.
     obind (ofold (\<lambda>(last_frame, alloc) _.
              obind (Boot_allocate_frame P alloc) (\<lambda>(f, alloc).
              obind (unwrap f) (\<lambda>last_frame. Ret (last_frame, alloc))))
            (first_frame, alloc) [1..<bitmap_frames]) (\<lambda>(last_frame, alloc).
     obind (is_contiguous P first_frame last_frame bitmap_frames) (\<lambda>contiguous.
     obind (rust_assert contiguous) (\<lambda>_.
     obind (ofold (\<lambda>(pt, alloc) frame.
              obind (phys_add P first_frame (frame * 4096)) (\<lambda>phys_addr.
              obind (virt_add P (BITMAP_FRAME_ALLOCATOR_START P) (frame * 4096)) (\<lambda>virt_addr.
              obind (map_to (Boot_allocate_frame P) (page_containing P virt_addr)
                       (frame_containing P phys_addr) pt alloc) (\<lambda>(r, pt, alloc).
              case r of Err _ \<Rightarrow> Panic | Ok _ \<Rightarrow> Ret (pt, alloc)))))
            (pt, alloc) [0..<bitmap_frames]) (\<lambda>(pt, alloc).
     obind (ofold mark_frame_used (replicate (bitmap_frames * (4096 div 8)) 0)
              [0..<Boot_used alloc]) (\<lambda>slice.
     Ret (slice, pt, alloc))))))))))"

definition new_with_alloc ::
  "platform \<Rightarrow> ('pt, BootFrameAllocator) map_to_fn \<Rightarrow> MemoryRegion list \<Rightarrow> 'pt \<Rightarrow>
   BootFrameAllocator \<Rightarrow> (BitmapFrameAllocator \<times> 'pt) outcome" where
  "new_with_alloc P map_to rs pt alloc =
     obind (allocate_bitmap P map_to rs pt alloc) (\<lambda>(bm, pt, _).
     Ret (\<lparr>regions = rs, bitmap = bm\<rparr>, pt))"

definition Bitmap_new ::
  "platform \<Rightarrow> ('pt, BootFrameAllocator) map_to_fn \<Rightarrow> MemoryRegion list \<Rightarrow> 'pt \<Rightarrow>
   (BitmapFrameAllocator \<times> 'pt) outcome" where
  "Bitmap_new P map_to rs pt = new_with_alloc P map_to rs pt (Boot_new rs)"

fun first_free_from :: "nat \<Rightarrow> 64 word list \<Rightarrow> nat option" where
  "first_free_from i [] = None"
| "first_free_from i (w # ws) =
     (if w \<noteq> 0 then Some (i * 64 + leading_ones w) else first_free_from (Suc i) ws)"

definition first_free_frame :: "BitmapFrameAllocator \<Rightarrow> nat option" where
  "first_free_frame a = first_free_from 0 (bitmap a)"

fun frame_to_address_in :: "platform \<Rightarrow> MemoryRegion list \<Rightarrow> nat \<Rightarrow> nat option outcome" where
  "frame_to_address_in P [] frame = Ret None"
| "frame_to_address_in P (r # rs) frame =
     obind (sub64 (prof P) (region_end r) (region_start r)) (\<lambda>len.
     (let frames = len div 4096 in
      if frame < frames then
        obind (mul64 (prof P) frame 4096) (\<lambda>off.
        obind (add64 (prof P) (region_start r) off) (\<lambda>addr.
        obind (phys_new P addr) (\<lambda>pa. Ret (Some pa))))
      else
        obind (sub64 (prof P) frame frames) (\<lambda>frame. frame_to_address_in P rs frame)))"

definition frame_to_address :: "platform \<Rightarrow> BitmapFrameAllocator \<Rightarrow> nat \<Rightarrow> nat option outcome" where
  "frame_to_address P a frame = frame_to_address_in P (usable_regions (regions a)) frame"

text \<open>The source subtracts in the order \<open>region.start - region.end\<close>; the model keeps it.\<close>

fun address_to_frame_in :: "platform \<Rightarrow> MemoryRegion list \<Rightarrow> nat \<Rightarrow> nat \<Rightarrow> nat option outcome" where
  "address_to_frame_in P [] frame addr = Ret None"
| "address_to_frame_in P (r # rs) frame addr =
     (if region_start r \<le> addr \<and> addr < region_end r then
        obind (sub64 (prof P) addr (region_start r)) (\<lambda>off.
        obind (add64 (prof P) frame (off div 4096)) (\<lambda>f. Ret (Some f)))
      else
        obind (sub64 (prof P) (region_start r) (region_end r)) (\<lambda>len.
        obind (add64 (prof P) frame (len div 4096)) (\<lambda>frame.
        address_to_frame_in P rs frame addr)))"

definition address_to_frame :: "platform \<Rightarrow> BitmapFrameAllocator \<Rightarrow> nat \<Rightarrow> nat option outcome" where
  "address_to_frame P a addr = address_to_frame_in P (usable_regions (regions a)) 0 addr"

definition Bitmap_allocate_frame ::
  "platform \<Rightarrow> BitmapFrameAllocator \<Rightarrow> (nat option \<times> BitmapFrameAllocator) outcome" where
  "Bitmap_allocate_frame P a =
     (case first_free_frame a of
        None \<Rightarrow> Ret (None, a)
      | Some frame \<Rightarrow>
          obind (mark_frame_used (bitmap a) frame) (\<lambda>bm.
          (let a = a\<lparr>bitmap := bm\<rparr> in
          obind (frame_to_address P a frame) (\<lambda>addr.
          case addr of
            None \<Rightarrow> Ret (None, a)
          | Some addr \<Rightarrow> obind (unwrap (frame_from_start P addr)) (\<lambda>f. Ret (Some f, a))))))"

definition deallocate_frame :: "platform \<Rightarrow> BitmapFrameAllocator \<Rightarrow> nat \<Rightarrow> BitmapFrameAllocator outcome" where
  "deallocate_frame P a frame =
     obind (address_to_frame P a frame) (\<lambda>f.
     obind (unwrap f) (\<lambda>f.
     obind (mark_frame_free (bitmap a) f) (\<lambda>bm. Ret (a\<lparr>bitmap := bm\<rparr>))))"

subsection \<open>Well-formed memory maps\<close>

text \<open>The bootloader reports page-aligned regions within the physical address space.\<close>

definition region_wf :: "MemoryRegion \<Rightarrow> bool" where
  "region_wf r \<longleftrightarrow> region_start r \<le> region_end r \<and> region_end r \<le> 2 ^ 52 \<and>
     region_start r mod 4096 = 0 \<and> region_end r mod 4096 = 0"

definition regions_wf :: "MemoryRegion list \<Rightarrow> bool" where
  "regions_wf rs \<longleftrightarrow> list_all region_wf (usable_regions rs)"

abbreviation region_addrs :: "MemoryRegion \<Rightarrow> nat list" where
  "region_addrs r \<equiv> step_by (region_start r) (region_end r) 4096"

lemma length_step_by [simp]: "length (step_by s e k) = div_ceil (e - s) k"
  by (simp add: step_by_def)

lemma nth_step_by [simp]: "i < div_ceil (e - s) k \<Longrightarrow> step_by s e k ! i = s + i * k"
  by (simp add: step_by_def)

lemma region_frames:
  assumes "region_wf r"
  shows "div_ceil (region_end r - region_start r) 4096 = (region_end r - region_start r) div 4096"
    and "(region_end r - region_start r) div 4096 * 4096 = region_end r - region_start r"
proof -
  have "(region_end r - region_start r) mod 4096 = 0"
    using assms by (simp add: region_wf_def mod_0_imp_dvd)
  then show "div_ceil (region_end r - region_start r) 4096 = (region_end r - region_start r) div 4096"
    and "(region_end r - region_start r) div 4096 * 4096 = region_end r - region_start r"
    by (auto simp: div_ceil_def)
qed

lemma region_addrs_bound:
  assumes "region_wf r" and "a \<in> set (region_addrs r)"
  shows "region_start r \<le> a" and "a + 4096 \<le> region_end r" and "a < 2 ^ 52" and "a mod 4096 = 0"
proof -
  from assms(2) obtain i where i: "i < (region_end r - region_start r) div 4096"
    and a: "a = region_start r + i * 4096"
    by (auto simp: step_by_def region_frames [OF assms(1)])
  from i have "Suc i * 4096 \<le> (region_end r - region_start r) div 4096 * 4096"
    by (intro mult_le_mono1) simp
  with a assms(1) show "a + 4096 \<le> region_end r"
    by (simp add: region_frames [OF assms(1)] region_wf_def)
  with assms(1) show "a < 2 ^ 52" by (simp add: region_wf_def)
  show "region_start r \<le> a" using a by simp
  show "a mod 4096 = 0" using a assms(1) by (simp add: region_wf_def)
qed

lemma usable_addrs_bound:
  assumes "regions_wf rs" and "a \<in> set (usable_addrs rs)"
  shows "a < 2 ^ 52" and "a mod 4096 = 0"
proof -
  from assms obtain r where "region_wf r" "a \<in> set (region_addrs r)"
    by (auto simp: usable_addrs_def regions_wf_def list_all_iff)
  then show "a < 2 ^ 52" and "a mod 4096 = 0" by (auto dest: region_addrs_bound)
qed

subsection \<open>Frame numbers and addresses\<close>

lemma nth_mapped_Ret:
  assumes "\<And>x. x \<in> set xs \<Longrightarrow> f x = Ret (g x)"
  shows "nth_mapped f xs n = Ret (if n < length xs then Some (g (xs ! n)) else None)"
  using assms
proof (induction xs arbitrary: n)
  case Nil
  then show ?case by simp
next
  case (Cons x xs)
  then show ?case by (cases n) auto
qed

lemma Boot_allocate_frame_eq:
  assumes "phys_doc P" and "regions_wf (boot_regions a)"
  shows "Boot_allocate_frame P a =
    (if boot_next a < length (usable_addrs (boot_regions a))
     then Ret (Some (usable_addrs (boot_regions a) ! boot_next a), a\<lparr>boot_next := boot_next a + 1\<rparr>)
     else Ret (None, a))"
proof -
  have "\<And>x. x \<in> set (usable_addrs (boot_regions a)) \<Longrightarrow> Boot_frame_at P x = Ret x"
    using usable_addrs_bound [OF assms(2)] by (simp add: Boot_frame_at_def phys_docD [OF assms(1)])
  then have "nth_mapped (Boot_frame_at P) (usable_addrs (boot_regions a)) (boot_next a) =
      Ret (if boot_next a < length (usable_addrs (boot_regions a))
           then Some (usable_addrs (boot_regions a) ! boot_next a) else None)"
    by (rule nth_mapped_Ret)
  then show ?thesis by (simp add: Boot_allocate_frame_def)
qed

lemma frame_to_address_in_eq:
  assumes "phys_doc P" and "list_all region_wf rs"
  shows "frame_to_address_in P rs f =
    (let xs = concat (map region_addrs rs)
     in Ret (if f < length xs then Some (xs ! f) else None))"
  using assms(2)
proof (induction rs arbitrary: f)
  case Nil
  then show ?case by simp
next
  case (Cons r rs)
  then have r: "region_wf r" and rs: "list_all region_wf rs" by simp_all
  let ?n = "(region_end r - region_start r) div 4096"
  have le: "region_start r \<le> region_end r" using r by (simp add: region_wf_def)
  show ?case
  proof (cases "f < ?n")
    case True
    then have "f < length (region_addrs r)" by (simp add: region_frames [OF r])
    then have "region_addrs r ! f \<in> set (region_addrs r)" by (rule nth_mem)
    moreover have "region_addrs r ! f = region_start r + f * 4096"
      using True by (simp add: region_frames [OF r])
    ultimately have "region_start r + f * 4096 < 2 ^ 52"
      using region_addrs_bound(3) [OF r] by metis
    with True le show ?thesis
      by (simp add: phys_docD [OF assms(1)] nth_append region_frames [OF r])
  next
    case False
    then have shift: "f - ?n < k \<longleftrightarrow> f < ?n + k" for k by linarith
    from False le show ?thesis
      by (simp add: Cons.IH [OF rs] nth_append region_frames(1) [OF r] Let_def shift)
  qed
qed

lemma frame_to_address_eq:
  assumes "phys_doc P" and "regions_wf (regions a)"
  shows "frame_to_address P a f =
    Ret (if f < length (usable_addrs (regions a)) then Some (usable_addrs (regions a) ! f) else None)"
  using frame_to_address_in_eq [OF assms(1)] assms(2)
  by (simp add: frame_to_address_def regions_wf_def usable_addrs_def Let_def)

subsection \<open>Marking frames\<close>

lemma mark_frame_used_spec:
  assumes "f < length bm * 64"
  obtains bm' where "mark_frame_used bm f = Ret bm'" and "length bm' = length bm"
    and "\<And>g. bm_get bm' g \<longleftrightarrow> g = f \<or> bm_get bm g"
    and "\<And>i. i \<noteq> f div 64 \<Longrightarrow> bm' ! i = bm ! i"
proof -
  from assms have "f div 64 < length bm" by (simp add: less_mult_imp_div_less)
  with bm_get_set [of f bm] assms show thesis
    by (intro that [of "bm[f div 64 := bm ! (f div 64) OR push_bit (63 - f mod 64) 1]"])
      (simp_all add: mark_frame_used_def Let_def)
qed

lemma mark_frame_free_spec:
  assumes "f < length bm * 64"
  obtains bm' where "mark_frame_free bm f = Ret bm'" and "length bm' = length bm"
    and "\<And>g. bm_get bm' g \<longleftrightarrow> g \<noteq> f \<and> bm_get bm g"
proof -
  from assms have "f div 64 < length bm" by (simp add: less_mult_imp_div_less)
  with bm_get_clear [of f bm] assms show thesis
    by (intro that [of "bm[f div 64 := bm ! (f div 64) AND NOT (push_bit (63 - f mod 64) 1)]"])
      (simp_all add: mark_frame_free_def Let_def)
qed

lemma mark_frame_free_Panic: "length bm * 64 \<le> f \<Longrightarrow> mark_frame_free bm f = Panic"
proof -
  assume "length bm * 64 \<le> f"
  then have "\<not> f div 64 < length bm" by (metis div_le_mono div_mult_self_is_m not_le zero_less_numeral)
  then show ?thesis by (simp add: mark_frame_free_def)
qed

lemma first_free_from_Some:
  "first_free_from i ws = Some f \<longleftrightarrow>
   (\<exists>j < length ws. (\<forall>k < j. ws ! k = 0) \<and> ws ! j \<noteq> 0 \<and> f = (i + j) * 64 + leading_ones (ws ! j))"
proof (induction ws arbitrary: i)
  case Nil
  then show ?case by simp
next
  case (Cons w ws)
  show ?case
  proof (cases "w = 0")
    case True
    with Cons [of "Suc i"] show ?thesis
      by (simp add: Ex_less_Suc2 All_less_Suc2 algebra_simps)
  next
    case False
    then show ?thesis by (auto simp: Ex_less_Suc2 All_less_Suc2)
  qed
qed

lemma first_free_from_None: "first_free_from i ws = None \<longleftrightarrow> (\<forall>w \<in> set ws. w = 0)"
  by (induction ws arbitrary: i) auto

lemma first_free_frame_hd:
  assumes "bitmap a \<noteq> []" and "bitmap a ! 0 \<noteq> 0"
  shows "first_free_frame a = Some (leading_ones (bitmap a ! 0))"
  using assms by (cases "bitmap a") (simp_all add: first_free_frame_def)

lemma Bitmap_allocate_frame_eq:
  assumes "phys_doc P" and "regions_wf (regions a)"
    and "first_free_frame a = Some f" and "mark_frame_used (bitmap a) f = Ret bm"
  shows "Bitmap_allocate_frame P a =
    Ret (if f < length (usable_addrs (regions a)) then Some (usable_addrs (regions a) ! f) else None,
         a\<lparr>bitmap := bm\<rparr>)"
  using assms usable_addrs_bound(2) [OF assms(2)]
  by (simp add: Bitmap_allocate_frame_def frame_to_address_eq phys_docD)

lemma allocate_first_word:
  assumes "phys_doc P" and "regions_wf (regions a)"
    and "bitmap a \<noteq> []" and "bitmap a ! 0 \<noteq> 0" and "bitmap a ! 0 \<noteq> - 1"
  obtains f bm where "f < 64" and "\<not> bm_get (bitmap a) f" and "\<And>g. g < f \<Longrightarrow> bm_get (bitmap a) g"
    and "length bm = length (bitmap a)" and "\<And>g. bm_get bm g \<longleftrightarrow> g = f \<or> bm_get (bitmap a) g"
    and "Bitmap_allocate_frame P a =
      Ret (if f < length (usable_addrs (regions a)) then Some (usable_addrs (regions a) ! f) else None,
           a\<lparr>bitmap := bm\<rparr>)"
proof -
  let ?f = "leading_ones (bitmap a ! 0)"
  have len: "0 < length (bitmap a)" using assms(3) by simp
  have f: "?f < 64"
    using leading_ones_le [of "bitmap a ! 0"] leading_ones_max [of "bitmap a ! 0"] assms(5)
    by (simp add: le_less)
  with len have "?f < length (bitmap a) * 64" by (cases "length (bitmap a)") simp_all
  then obtain bm where bm: "mark_frame_used (bitmap a) ?f = Ret bm" "length bm = length (bitmap a)"
    "\<And>g. bm_get bm g \<longleftrightarrow> g = ?f \<or> bm_get (bitmap a) g"
    using mark_frame_used_spec by metis
  note alloc = Bitmap_allocate_frame_eq [OF assms(1,2) first_free_frame_hd [OF assms(3,4)] bm(1)]
  from bm_get_leading [OF len] f show thesis
    by (intro that [OF f _ _ bm(2,3) alloc]) simp_all
qed

subsection \<open>Setting up the bitmap\<close>

text \<open>\<open>draws src k a a'\<close>: allocator state \<open>a'\<close> is \<open>a\<close> after \<open>k\<close> calls of \<open>src\<close>.\<close>

inductive draws :: "'a frame_source \<Rightarrow> nat \<Rightarrow> 'a \<Rightarrow> 'a \<Rightarrow> bool" for src where
  draws_0: "draws src 0 a a"
| draws_Suc: "src a = Ret (f, a') \<Longrightarrow> draws src k a' a'' \<Longrightarrow> draws src (Suc k) a a''"

text \<open>
  Documented behaviour of \<open>map_to\<close>: it needs at most three page-table frames, which it takes from
  the allocator it is given, and mapping a page of the (unmapped) bitmap window succeeds as long
  as the allocator can supply them.
\<close>

definition maps_window :: "platform \<Rightarrow> ('pt, BootFrameAllocator) map_to_fn \<Rightarrow> MemoryRegion list \<Rightarrow> bool" where
  "maps_window P map_to rs \<longleftrightarrow>
     (\<forall>pg fr pt a. boot_regions a = rs \<and> boot_next a + 3 \<le> length (usable_addrs rs) \<longrightarrow>
        (\<exists>pt' a' k. k \<le> 3 \<and> draws (Boot_allocate_frame P) k a a' \<and>
           map_to (Boot_allocate_frame P) pg fr pt a = Ret (Ok (), pt', a')))"

lemma draws_Boot:
  assumes "phys_doc P" and "draws (Boot_allocate_frame P) k a a'" and "regions_wf (boot_regions a)"
  shows "boot_regions a' = boot_regions a \<and> boot_next a \<le> boot_next a' \<and> boot_next a' \<le> boot_next a + k"
  using assms(2,3)
proof (induction rule: draws.induct)
  case (draws_0 a)
  then show ?case by simp
next
  case (draws_Suc a f a' k a'')
  have a': "boot_regions a' = boot_regions a \<and> boot_next a \<le> boot_next a' \<and>
      boot_next a' \<le> Suc (boot_next a)"
    using draws_Suc.hyps(1) Boot_allocate_frame_eq [OF assms(1) draws_Suc.prems]
    by (auto split: if_splits)
  with draws_Suc.IH draws_Suc.prems show ?case by simp
qed

definition bitmap_frames_of :: "MemoryRegion list \<Rightarrow> nat" where
  "bitmap_frames_of rs = div_ceil (div_ceil (length (usable_addrs rs)) 8) 4096"

lemma bitmap_frames_cover: "length (usable_addrs rs) \<le> bitmap_frames_of rs * 512 * 64"
  using div_ceil_bounds(1) [of 8 "length (usable_addrs rs)"]
    div_ceil_bounds(1) [of 4096 "div_ceil (length (usable_addrs rs)) 8"]
  by (simp add: bitmap_frames_of_def)

lemma bitmap_frames_small:
  "bitmap_frames_of rs \<le> length (usable_addrs rs)"
  "bitmap_frames_of rs * 32768 < length (usable_addrs rs) + 32776"
  using div_ceil_bounds(2) [of 8 "length (usable_addrs rs)"]
    div_ceil_bounds(2) [of 4096 "div_ceil (length (usable_addrs rs)) 8"]
  by (auto simp: bitmap_frames_of_def)

lemma required_bitmap_size_fold:
  assumes "list_all region_wf rs" and "(acc + length (concat (map region_addrs rs))) * 4096 < 2 ^ 52"
  shows "ofold (\<lambda>acc r. obind (add64 pr acc (region_end r)) (\<lambda>t. sub64 pr t (region_start r)))
           (acc * 4096) rs = Ret ((acc + length (concat (map region_addrs rs))) * 4096)"
  using assms
proof (induction rs arbitrary: acc)
  case Nil
  then show ?case by simp
next
  case (Cons r rs)
  then have r: "region_wf r" by simp
  let ?n = "(region_end r - region_start r) div 4096"
  have "acc * 4096 + region_end r < u64_range" "region_start r \<le> acc * 4096 + region_end r"
    using r Cons.prems(2) by (simp_all add: region_wf_def)
  moreover have "acc * 4096 + region_end r - region_start r = (acc + ?n) * 4096"
    using region_frames(2) [OF r] r by (simp add: region_wf_def)
  ultimately show ?case
    using Cons.IH [of "acc + ?n"] Cons.prems by (simp add: region_frames(1) [OF r] add.assoc)
qed

lemma required_bitmap_size_eq:
  assumes "regions_wf rs" and "length (usable_addrs rs) * 4096 < 2 ^ 52"
  shows "required_bitmap_size P rs = Ret (div_ceil (length (usable_addrs rs)) 8)"
  using required_bitmap_size_fold [of "usable_regions rs" 0 "prof P"] assms
  by (simp add: required_bitmap_size_def regions_wf_def usable_addrs_def div_ceil_def)

lemma mark_all_used:
  assumes "k \<le> n * 64"
  obtains bm where "ofold mark_frame_used (replicate n 0) [0..<k] = Ret bm"
    and "length bm = n" and "\<And>f. bm_get bm f \<longleftrightarrow> f < k"
proof -
  let ?P = "\<lambda>i (bm :: 64 word list). length bm = n \<and> (\<forall>f. bm_get bm f \<longleftrightarrow> f < i)"
  have "\<exists>bm. ofold mark_frame_used (replicate n 0) [0..<k] = Ret bm \<and> ?P (length [0..<k]) bm"
  proof (rule ofold_total)
    show "?P 0 (replicate n 0)" by simp
    fix i bm assume i: "i < length [0..<k]" and P: "?P i bm"
    with assms have "i < length bm * 64" by simp
    then obtain bm' where "mark_frame_used bm i = Ret bm'" "length bm' = length bm"
      "\<And>g. bm_get bm' g \<longleftrightarrow> g = i \<or> bm_get bm g"
      using mark_frame_used_spec by metis
    with P i show "\<exists>bm'. mark_frame_used bm ([0..<k] ! i) = Ret bm' \<and> ?P (Suc i) bm'"
      by (auto simp: less_Suc_eq)
  qed
  then show thesis using that by auto
qed

lemma boot_prefix_loop:
  assumes "phys_doc P" and "regions_wf rs" and "1 \<le> n" and "n \<le> length (usable_addrs rs)"
  shows "ofold (\<lambda>(last_frame, alloc) _.
            obind (Boot_allocate_frame P alloc) (\<lambda>(f, alloc).
            obind (unwrap f) (\<lambda>last_frame. Ret (last_frame, alloc))))
          (usable_addrs rs ! 0, \<lparr>boot_regions = rs, boot_next = 1\<rparr>) [1..<n] =
         Ret (usable_addrs rs ! (n - 1), \<lparr>boot_regions = rs, boot_next = n\<rparr>)"
  (is "ofold ?f ?s _ = _")
proof -
  let ?P = "\<lambda>i t. t = (usable_addrs rs ! i, \<lparr>boot_regions = rs, boot_next = Suc i\<rparr>)"
  have "\<exists>t. ofold ?f ?s [1..<n] = Ret t \<and> ?P (length [1..<n]) t"
  proof (rule ofold_total)
    show "?P 0 ?s" by simp
    fix i t assume "i < length [1..<n]" "?P i t"
    with assms show "\<exists>t'. ?f t ([1..<n] ! i) = Ret t' \<and> ?P (Suc i) t'"
      by (simp add: Boot_allocate_frame_eq)
  qed
  with assms(3) show ?thesis by simp
qed

lemma map_window_loop:
  assumes "phys_doc P" and "virt_doc P" and "regions_wf rs" and "maps_window P map_to rs"
    and "first + n * 4096 \<le> 2 ^ 52" and "n * 4096 < 2 ^ 40"
    and "4 * n \<le> length (usable_addrs rs)"
  obtains pt' k where "ofold (\<lambda>(pt, alloc) frame.
      obind (phys_add P first (frame * 4096)) (\<lambda>phys_addr.
      obind (virt_add P (BITMAP_FRAME_ALLOCATOR_START P) (frame * 4096)) (\<lambda>virt_addr.
      obind (map_to (Boot_allocate_frame P) (page_containing P virt_addr)
               (frame_containing P phys_addr) pt alloc) (\<lambda>(r, pt, alloc).
      case r of Err _ \<Rightarrow> Panic | Ok _ \<Rightarrow> Ret (pt, alloc)))))
    (pt, \<lparr>boot_regions = rs, boot_next = n\<rparr>) [0..<n] =
      Ret (pt', \<lparr>boot_regions = rs, boot_next = k\<rparr>)"
    and "n \<le> k" and "k \<le> 4 * n"
proof -
  define f where "f = (\<lambda>(pt, alloc) frame.
      obind (phys_add P first (frame * 4096)) (\<lambda>phys_addr.
      obind (virt_add P (BITMAP_FRAME_ALLOCATOR_START P) (frame * 4096)) (\<lambda>virt_addr.
      obind (map_to (Boot_allocate_frame P) (page_containing P virt_addr)
               (frame_containing P phys_addr) pt alloc) (\<lambda>(r, pt, alloc).
      case r of Err _ \<Rightarrow> Panic | Ok _ \<Rightarrow> Ret (pt, alloc)))))"
  let ?P = "\<lambda>i (t :: 'a \<times> BootFrameAllocator). boot_regions (snd t) = rs \<and> n \<le> boot_next (snd t) \<and>
      boot_next (snd t) \<le> n + 3 * i"
  have "\<exists>t. ofold f (pt, \<lparr>boot_regions = rs, boot_next = n\<rparr>) [0..<n] = Ret t \<and> ?P (length [0..<n]) t"
  proof (rule ofold_total)
    show "?P 0 (pt, \<lparr>boot_regions = rs, boot_next = n\<rparr>)" by simp
    fix i t assume i: "i < length [0..<n]" and t: "?P i t"
    obtain pt0 a0 where t0: "t = (pt0, a0)" by (cases t)
    have virt: "virt_add P (BITMAP_FRAME_ALLOCATOR_START P) (i * 4096) =
        Ret (BITMAP_FRAME_ALLOCATOR_START P + i * 4096)"
      using i assms(6) by (intro virt_docD(2) [OF assms(2)])
        (simp_all add: layout_values [OF assms(2)] canonical_def)
    have phys: "phys_add P first (i * 4096) = Ret (first + i * 4096)"
      using i assms(5) by (intro phys_docD(2) [OF assms(1)]) simp
    have "boot_next a0 + 3 \<le> length (usable_addrs rs)" using t t0 i assms(7) by simp
    with assms(4) t t0 obtain pt1 a1 k where k: "k \<le> 3" "draws (Boot_allocate_frame P) k a0 a1"
      and m: "map_to (Boot_allocate_frame P) (page_containing P (BITMAP_FRAME_ALLOCATOR_START P + i * 4096))
        (frame_containing P (first + i * 4096)) pt0 a0 = Ret (Ok (), pt1, a1)"
      unfolding maps_window_def by fastforce
    with draws_Boot [OF assms(1) k(2)] t t0 assms(3) have "?P (Suc i) (pt1, a1)" by simp
    moreover have "f t ([0..<n] ! i) = Ret (pt1, a1)"
      using i t0 m virt phys by (simp add: f_def)
    ultimately show "\<exists>t'. f t ([0..<n] ! i) = Ret t' \<and> ?P (Suc i) t'" by blast
  qed
  then obtain pt' a' where fold: "ofold f (pt, \<lparr>boot_regions = rs, boot_next = n\<rparr>) [0..<n] = Ret (pt', a')"
    and P: "?P n (pt', a')" by auto
  from P have "a' = \<lparr>boot_regions = rs, boot_next = boot_next a'\<rparr>" by (cases a') simp
  with fold P show thesis by (intro that [of pt' "boot_next a'"]) (simp_all add: f_def)
qed

lemma first_region_addrs:
  assumes "usable_regions rs = r # rest" and "regions_wf rs"
    and "n * 4096 \<le> region_end r - region_start r" and "i < n"
  shows "usable_addrs rs ! i = region_start r + i * 4096" and "i < length (usable_addrs rs)"
proof -
  have r: "region_wf r" using assms(1,2) by (simp add: regions_wf_def)
  have "n \<le> (region_end r - region_start r) div 4096"
    using assms(3) by (metis div_le_mono div_mult_self_is_m zero_less_numeral)
  with assms(4) have i: "i < (region_end r - region_start r) div 4096" by simp
  then show "usable_addrs rs ! i = region_start r + i * 4096"
    by (simp add: usable_addrs_def assms(1) nth_append region_frames [OF r])
  from i show "i < length (usable_addrs rs)"
    by (simp add: usable_addrs_def assms(1) region_frames [OF r])
qed

text \<open>
  The conditions under which the kernel can boot: a documented memory map that is not larger
  than the physical address space, whose first usable region holds the whole bitmap, with
  enough frames for the bitmap and the page tables that map it.
\<close>

definition bootable :: "MemoryRegion list \<Rightarrow> bool" where
  "bootable rs \<longleftrightarrow>
     regions_wf rs \<and> length (usable_addrs rs) * 4096 < 2 ^ 52 \<and> usable_addrs rs \<noteq> [] \<and>
     usable_regions rs \<noteq> [] \<and>
     bitmap_frames_of rs * 4096 \<le>
       region_end (hd (usable_regions rs)) - region_start (hd (usable_regions rs)) \<and>
     4 * bitmap_frames_of rs \<le> length (usable_addrs rs)"

lemma allocate_bitmap_returns:
  assumes "phys_doc P" and "virt_doc P" and "maps_window P map_to rs" and "bootable rs"
  obtains bm pt' k where
    "allocate_bitmap P map_to rs pt (Boot_new rs) = Ret (bm, pt', \<lparr>boot_regions = rs, boot_next = k\<rparr>)"
    and "length bm = bitmap_frames_of rs * 512" and "\<And>f. bm_get bm f \<longleftrightarrow> f < k"
    and "bitmap_frames_of rs \<le> k" and "k \<le> 4 * bitmap_frames_of rs"
proof -
  let ?n = "bitmap_frames_of rs" and ?xs = "usable_addrs rs"
  from assms(4) have wf: "regions_wf rs" and total: "length ?xs * 4096 < 2 ^ 52" and ne: "?xs \<noteq> []"
    and enough: "4 * ?n \<le> length ?xs" by (simp_all add: bootable_def)
  from assms(4) obtain r rest where r: "usable_regions rs = r # rest"
    and fit: "?n * 4096 \<le> region_end r - region_start r"
    by (cases "usable_regions rs") (auto simp: bootable_def)
  have n: "1 \<le> ?n" using ne bitmap_frames_cover [of rs] by (cases "?n") auto
  then have n1: "?n - 1 < ?n" by simp
  note addr = first_region_addrs(1) [OF r wf fit]
  have rwf: "region_wf r" using r wf by (simp add: regions_wf_def)
  have first: "?xs ! 0 + ?n * 4096 \<le> 2 ^ 52" "?xs ! 0 = region_start r"
  proof -
    show eq: "?xs ! 0 = region_start r" using addr [of 0] n by simp
    show "?xs ! 0 + ?n * 4096 \<le> 2 ^ 52" using fit rwf unfolding region_wf_def eq by linarith
  qed
  have small: "?n * 4096 < 2 ^ 40" using bitmap_frames_small(2) [of rs] total by simp
  have cont: "is_contiguous P (?xs ! 0) (?xs ! (?n - 1)) ?n = Ret True"
  proof -
    have "?xs ! (?n - 1) + 4096 = ?xs ! 0 + ?n * 4096" using addr [OF n1] first(2) n by simp
    with first(1) small show ?thesis by (simp add: is_contiguous_def)
  qed
  obtain pt' k where loop: "ofold (\<lambda>(pt, alloc) frame.
      obind (phys_add P (?xs ! 0) (frame * 4096)) (\<lambda>phys_addr.
      obind (virt_add P (BITMAP_FRAME_ALLOCATOR_START P) (frame * 4096)) (\<lambda>virt_addr.
      obind (map_to (Boot_allocate_frame P) (page_containing P virt_addr)
               (frame_containing P phys_addr) pt alloc) (\<lambda>(r, pt, alloc).
      case r of Err _ \<Rightarrow> Panic | Ok _ \<Rightarrow> Ret (pt, alloc)))))
    (pt, \<lparr>boot_regions = rs, boot_next = ?n\<rparr>) [0..<?n] =
      Ret (pt', \<lparr>boot_regions = rs, boot_next = k\<rparr>)" and k: "?n \<le> k" "k \<le> 4 * ?n"
    by (rule map_window_loop [OF assms(1,2) wf assms(3) first(1) small enough])
  have "k \<le> ?n * 512 * 64" using k(2) enough bitmap_frames_cover [of rs] by linarith
  with mark_all_used obtain bm where bm: "ofold mark_frame_used (replicate (?n * 512) 0) [0..<k] = Ret bm"
    "length bm = ?n * 512" "\<And>f. bm_get bm f \<longleftrightarrow> f < k"
    by metis
  have "Boot_allocate_frame P (Boot_new rs) = Ret (Some (?xs ! 0), \<lparr>boot_regions = rs, boot_next = 1\<rparr>)"
    using ne wf assms(1) by (simp add: Boot_allocate_frame_eq Boot_new_def)
  moreover have "?n \<le> length ?xs" using enough by simp
  ultimately have "allocate_bitmap P map_to rs pt (Boot_new rs) =
      Ret (bm, pt', \<lparr>boot_regions = rs, boot_next = k\<rparr>)"
    using boot_prefix_loop [OF assms(1) wf n] cont loop bm(1)
    by (simp add: allocate_bitmap_def required_bitmap_size_eq [OF wf total]
        bitmap_frames_of_def [symmetric] Let_def Boot_used_def)
  with bm k show thesis using that by blast
qed

subsection \<open>The frame allocator contract\<close>

text \<open>
  What clients of the trait \<open>FrameAllocator<Size4KiB>\<close> rely on: an allocation that returns keeps
  the invariant and the set of managed frames, and a frame it hands out is one of them.  The
  total version adds that allocations from the invariant do return.
\<close>

locale frame_allocator =
  fixes alloc :: "'a frame_source"
    and inv :: "'a \<Rightarrow> bool"
    and frames :: "'a \<Rightarrow> nat set"
  assumes alloc_inv: "inv a \<Longrightarrow> alloc a = Ret (r, a') \<Longrightarrow> inv a' \<and> frames a' = frames a"
    and alloc_managed: "inv a \<Longrightarrow> alloc a = Ret (Some f, a') \<Longrightarrow> f \<in> frames a"
    and frames_aligned: "inv a \<Longrightarrow> f \<in> frames a \<Longrightarrow> f mod 4096 = 0 \<and> f < 2 ^ 52"
begin

lemma draws_inv: "draws alloc k a a' \<Longrightarrow> inv a \<Longrightarrow> inv a' \<and> frames a' = frames a"
proof (induction rule: draws.induct)
  case (draws_0 a)
  then show ?case by simp
next
  case (draws_Suc a f a' k a'')
  with alloc_inv [OF draws_Suc.prems draws_Suc.hyps(1)] show ?case by simp
qed

end

locale total_frame_allocator = frame_allocator +
  assumes alloc_returns: "inv a \<Longrightarrow> \<exists>r a'. alloc a = Ret (r, a')"
begin

lemma draws_total: "inv a \<Longrightarrow> \<exists>a'. draws alloc k a a'"
proof (induction k arbitrary: a)
  case 0
  then show ?case by (blast intro: draws.intros)
next
  case (Suc k)
  from alloc_returns [OF Suc.prems] obtain r b where b: "alloc a = Ret (r, b)" by blast
  with Suc.IH [of b] alloc_inv [OF Suc.prems b] obtain a' where "draws alloc k b a'" by blast
  with b show ?case by (blast intro: draws.intros)
qed

end

definition Boot_inv :: "platform \<Rightarrow> BootFrameAllocator \<Rightarrow> bool" where
  "Boot_inv P a \<longleftrightarrow> phys_doc P \<and> regions_wf (boot_regions a)"

definition Bitmap_wf :: "platform \<Rightarrow> BitmapFrameAllocator \<Rightarrow> bool" where
  "Bitmap_wf P a \<longleftrightarrow> phys_doc P \<and> regions_wf (regions a)"

definition Bitmap_inv :: "platform \<Rightarrow> BitmapFrameAllocator \<Rightarrow> bool" where
  "Bitmap_inv P a \<longleftrightarrow> phys_doc P \<and> regions_wf (regions a) \<and> 2 \<le> length (bitmap a) \<and> bitmap a ! 0 \<noteq> 0"

lemma bm_get_first_word: "bm \<noteq> [] \<Longrightarrow> bm ! 0 = (0 :: 64 word) \<longleftrightarrow> (\<forall>g < 64. \<not> bm_get bm g)"
proof
  assume ne: "bm \<noteq> []" and free: "\<forall>g < 64. \<not> bm_get bm g"
  show "bm ! 0 = 0"
  proof (rule bit_word_eqI)
    fix n assume "n < LENGTH(64)"
    with free ne show "bit (bm ! 0) n = bit (0 :: 64 word) n"
      by (cases bm) (auto simp: bm_get_def dest!: spec [of _ "63 - n"])
  qed
qed (auto simp: bm_get_def)

lemma Bitmap_allocate_frame_inv:
  assumes "Bitmap_inv P a"
  obtains f bm where "f \<le> 64" and "length bm = length (bitmap a)"
    and "\<And>g. bm_get bm g \<longleftrightarrow> g = f \<or> bm_get (bitmap a) g"
    and "Bitmap_allocate_frame P a =
      Ret (if f < length (usable_addrs (regions a)) then Some (usable_addrs (regions a) ! f) else None,
           a\<lparr>bitmap := bm\<rparr>)"
    and "Bitmap_inv P (a\<lparr>bitmap := bm\<rparr>)"
proof -
  let ?f = "leading_ones (bitmap a ! 0)"
  from assms have P: "phys_doc P" "regions_wf (regions a)" and len: "2 \<le> length (bitmap a)"
    and nz: "bitmap a ! 0 \<noteq> 0" by (simp_all add: Bitmap_inv_def)
  then have ne: "bitmap a \<noteq> []" by auto
  have f: "?f \<le> 64" using leading_ones_le [of "bitmap a ! 0"] by simp
  with len have "?f < length (bitmap a) * 64" by simp
  then obtain bm where bm: "mark_frame_used (bitmap a) ?f = Ret bm" "length bm = length (bitmap a)"
    "\<And>g. bm_get bm g \<longleftrightarrow> g = ?f \<or> bm_get (bitmap a) g"
    using mark_frame_used_spec by metis
  from bm(2) ne have "bm \<noteq> []" by auto
  with bm(3) nz bm_get_first_word [OF ne] bm_get_first_word [of bm] have "bm ! 0 \<noteq> 0" by auto
  with P len bm(2) have "Bitmap_inv P (a\<lparr>bitmap := bm\<rparr>)" by (simp add: Bitmap_inv_def)
  with Bitmap_allocate_frame_eq [OF P first_free_frame_hd [OF ne nz] bm(1)] f bm(2,3)
  show thesis by (intro that)
qed

lemma Bitmap_allocate_frame_wf:
  assumes "Bitmap_wf P a" and "Bitmap_allocate_frame P a = Ret (r, a')"
  shows "regions a' = regions a" and "r = Some f \<Longrightarrow> f \<in> set (usable_addrs (regions a))"
proof -
  from assms(1) have P: "phys_doc P" "regions_wf (regions a)" by (simp_all add: Bitmap_wf_def)
  have "regions a' = regions a \<and> (\<forall>f. r = Some f \<longrightarrow> f \<in> set (usable_addrs (regions a)))"
  proof (cases "first_free_frame a")
    case None
    with assms(2) show ?thesis by (simp add: Bitmap_allocate_frame_def)
  next
    case (Some f)
    with assms(2) obtain bm where "mark_frame_used (bitmap a) f = Ret bm"
      by (auto simp: Bitmap_allocate_frame_def outcome_simps)
    with Bitmap_allocate_frame_eq [OF P Some this] assms(2) show ?thesis by (auto split: if_splits)
  qed
  then show "regions a' = regions a" and "r = Some f \<Longrightarrow> f \<in> set (usable_addrs (regions a))" by auto
qed

interpretation boot: total_frame_allocator "Boot_allocate_frame P" "Boot_inv P"
  "\<lambda>a. set (usable_addrs (boot_regions a))" for P
proof unfold_locales
  fix a r a' f assume inv: "Boot_inv P a"
  then have eq: "Boot_allocate_frame P a =
    (if boot_next a < length (usable_addrs (boot_regions a))
     then Ret (Some (usable_addrs (boot_regions a) ! boot_next a), a\<lparr>boot_next := boot_next a + 1\<rparr>)
     else Ret (None, a))" by (simp add: Boot_inv_def Boot_allocate_frame_eq)
  show "\<exists>r a'. Boot_allocate_frame P a = Ret (r, a')" by (simp add: eq)
  show "Boot_allocate_frame P a = Ret (r, a') \<Longrightarrow> Boot_inv P a' \<and>
      set (usable_addrs (boot_regions a')) = set (usable_addrs (boot_regions a))"
    using inv by (auto simp: eq Boot_inv_def split: if_splits)
  show "Boot_allocate_frame P a = Ret (Some f, a') \<Longrightarrow> f \<in> set (usable_addrs (boot_regions a))"
    by (auto simp: eq split: if_splits)
  show "f \<in> set (usable_addrs (boot_regions a)) \<Longrightarrow> f mod 4096 = 0 \<and> f < 2 ^ 52"
    using inv usable_addrs_bound by (auto simp: Boot_inv_def)
qed

interpretation bmf: frame_allocator "Bitmap_allocate_frame P" "Bitmap_wf P"
  "\<lambda>a. set (usable_addrs (regions a))" for P
proof unfold_locales
  fix a r a' f assume wf: "Bitmap_wf P a"
  show "Bitmap_wf P a' \<and> set (usable_addrs (regions a')) = set (usable_addrs (regions a))"
    if "Bitmap_allocate_frame P a = Ret (r, a')"
    using wf Bitmap_allocate_frame_wf(1) [OF wf that] by (simp add: Bitmap_wf_def)
  show "Bitmap_allocate_frame P a = Ret (Some f, a') \<Longrightarrow> f \<in> set (usable_addrs (regions a))"
    using Bitmap_allocate_frame_wf(2) [OF wf] by blast
  show "f \<in> set (usable_addrs (regions a)) \<Longrightarrow> f mod 4096 = 0 \<and> f < 2 ^ 52"
    using wf usable_addrs_bound by (auto simp: Bitmap_wf_def)
qed

interpretation bmt: total_frame_allocator "Bitmap_allocate_frame P" "Bitmap_inv P"
  "\<lambda>a. set (usable_addrs (regions a))" for P
proof unfold_locales
  fix a r a' f assume inv: "Bitmap_inv P a"
  then have wf: "Bitmap_wf P a" by (simp add: Bitmap_inv_def Bitmap_wf_def)
  from Bitmap_allocate_frame_inv [OF inv] obtain g bm where
    eq: "Bitmap_allocate_frame P a =
      Ret (if g < length (usable_addrs (regions a)) then Some (usable_addrs (regions a) ! g) else None,
           a\<lparr>bitmap := bm\<rparr>)" and inv': "Bitmap_inv P (a\<lparr>bitmap := bm\<rparr>)" by metis
  show "\<exists>r a'. Bitmap_allocate_frame P a = Ret (r, a')" by (simp add: eq)
  show "Bitmap_allocate_frame P a = Ret (r, a') \<Longrightarrow> Bitmap_inv P a' \<and>
      set (usable_addrs (regions a')) = set (usable_addrs (regions a))"
    using inv' by (auto simp: eq)
  show "Bitmap_allocate_frame P a = Ret (Some f, a') \<Longrightarrow> f \<in> set (usable_addrs (regions a))"
    by (rule bmf.alloc_managed [OF wf])
  show "f \<in> set (usable_addrs (regions a)) \<Longrightarrow> f mod 4096 = 0 \<and> f < 2 ^ 52"
    by (rule bmf.frames_aligned [OF wf])
qed

subsection \<open>Runs of the bitmap allocator\<close>

fun allocate_frames ::
  "platform \<Rightarrow> nat \<Rightarrow> BitmapFrameAllocator \<Rightarrow> (nat option list \<times> BitmapFrameAllocator) outcome" where
  "allocate_frames P 0 a = Ret ([], a)"
| "allocate_frames P (Suc n) a =
     obind (Bitmap_allocate_frame P a) (\<lambda>(f, a).
     obind (allocate_frames P n a) (\<lambda>(fs, a). Ret (f # fs, a)))"

lemma first_word_prefix:
  fixes bm :: "64 word list"
  assumes "bm \<noteq> []" and "\<And>g. bm_get bm g \<longleftrightarrow> g < u" and "0 < u"
  shows "bm ! 0 \<noteq> 0" and "u < 64 \<Longrightarrow> bm ! 0 \<noteq> - 1"
proof -
  show "bm ! 0 \<noteq> 0" using bm_get_first_word [OF assms(1)] assms(2,3) by auto
  assume "u < 64"
  then have "\<not> bm_get bm u" using assms(2) by simp
  moreover have "u < length bm * 64" using \<open>u < 64\<close> assms(1) by (cases bm) simp_all
  ultimately show "bm ! 0 \<noteq> - 1" using \<open>u < 64\<close> by (auto simp: bm_get_def)
qed


text \<open>In contract form: from a full first word on, frame 64 is the only frame the allocator manages.\<close>

definition Bitmap_full :: "platform \<Rightarrow> BitmapFrameAllocator \<Rightarrow> bool" where
  "Bitmap_full P a \<longleftrightarrow> Bitmap_inv P a \<and> bitmap a ! 0 = - 1 \<and> 64 < length (usable_addrs (regions a))"

lemma Bitmap_full_step:
  assumes "Bitmap_full P a"
  obtains bm where "Bitmap_allocate_frame P a = Ret (Some (usable_addrs (regions a) ! 64), a\<lparr>bitmap := bm\<rparr>)"
    and "Bitmap_full P (a\<lparr>bitmap := bm\<rparr>)"
proof -
  from assms have P: "phys_doc P" "regions_wf (regions a)" and len: "2 \<le> length (bitmap a)"
    and full: "bitmap a ! 0 = - 1" and many: "64 < length (usable_addrs (regions a))"
    by (simp_all add: Bitmap_full_def Bitmap_inv_def)
  have lo: "leading_ones (bitmap a ! 0) = 64" using leading_ones_max [of "bitmap a ! 0"] full by simp
  have ne: "bitmap a \<noteq> []" and nz: "bitmap a ! 0 \<noteq> 0" using len full by auto
  from len have "64 < length (bitmap a) * 64" by simp
  then obtain bm where bm: "mark_frame_used (bitmap a) 64 = Ret bm" "length bm = length (bitmap a)"
    "bm ! 0 = bitmap a ! 0"
    using mark_frame_used_spec [of 64 "bitmap a"] by (metis div_self zero_neq_one zero_neq_numeral)
  with Bitmap_allocate_frame_eq [OF P first_free_frame_hd [OF ne nz]] many assms show thesis
    by (intro that [of bm]) (simp_all add: lo Bitmap_full_def Bitmap_inv_def)
qed

interpretation bfull: total_frame_allocator "Bitmap_allocate_frame P" "Bitmap_full P"
  "\<lambda>a. {usable_addrs (regions a) ! 64}" for P
proof unfold_locales
  fix a r a' f assume full: "Bitmap_full P a"
  obtain bm where step: "Bitmap_allocate_frame P a =
      Ret (Some (usable_addrs (regions a) ! 64), a\<lparr>bitmap := bm\<rparr>)" "Bitmap_full P (a\<lparr>bitmap := bm\<rparr>)"
    using Bitmap_full_step [OF full] by metis
  show "\<exists>r a'. Bitmap_allocate_frame P a = Ret (r, a')" by (simp add: step)
  show "Bitmap_allocate_frame P a = Ret (r, a') \<Longrightarrow> Bitmap_full P a' \<and>
      {usable_addrs (regions a') ! 64} = {usable_addrs (regions a) ! 64}" using step by auto
  show "Bitmap_allocate_frame P a = Ret (Some f, a') \<Longrightarrow> f \<in> {usable_addrs (regions a) ! 64}"
    using step by auto
  show "f \<in> {usable_addrs (regions a) ! 64} \<Longrightarrow> f mod 4096 = 0 \<and> f < 2 ^ 52"
    using full usable_addrs_bound [of "regions a" f] by (auto simp: Bitmap_full_def Bitmap_inv_def)
qed

text \<open>
  Once the first bitmap word is full, \<open>allocate_frame\<close> no longer searches: the test
  \<open>*word != 0\<close> accepts the full word, whose 64 leading ones make frame 64 the answer of every
  further call, whether or not it is in use.  All allocations then return the same frame.
\<close>

theorem allocate_frames_full_word_repeats:
  assumes "Bitmap_full P a"
  shows "\<exists>bm. allocate_frames P n a =
      Ret (replicate n (Some (usable_addrs (regions a) ! 64)), a\<lparr>bitmap := bm\<rparr>)"
  using assms
proof (induction n arbitrary: a)
  case 0
  then show ?case by (intro exI [of _ "bitmap a"]) simp
next
  case (Suc n)
  obtain bm where "Bitmap_allocate_frame P a = Ret (Some (usable_addrs (regions a) ! 64), a\<lparr>bitmap := bm\<rparr>)"
    "Bitmap_full P (a\<lparr>bitmap := bm\<rparr>)" using Bitmap_full_step [OF Suc.prems] by metis
  with Suc.IH [of "a\<lparr>bitmap := bm\<rparr>"] show ?case by auto
qed

text \<open>A bitmap with no used frame at all is reported as exhausted.\<close>

theorem allocate_frame_all_free:
  assumes "list_all (\<lambda>w. w = 0) (bitmap a)"
  shows "Bitmap_allocate_frame P a = Ret (None, a)"
  using assms first_free_from_None [of 0 "bitmap a"]
  by (simp add: Bitmap_allocate_frame_def first_free_frame_def list_all_iff)

subsection \<open>Deallocation\<close>

lemma address_to_frame_first:
  assumes "usable_regions (regions a) = r # rest" and "region_start r \<le> addr" and "addr < region_end r"
    and "region_end r \<le> 2 ^ 52"
  shows "address_to_frame P a addr = Ret (Some ((addr - region_start r) div 4096))"
proof -
  have "(addr - region_start r) div 4096 \<le> addr" by (meson diff_le_self div_le_dividend le_trans)
  with assms show ?thesis by (simp add: address_to_frame_def)
qed

lemma first_region_index:
  assumes "usable_regions rs = r # rest" and "regions_wf rs" and "f < length (usable_addrs rs)"
    and "region_start r \<le> usable_addrs rs ! f" and "usable_addrs rs ! f < region_end r"
    and "distinct (usable_addrs rs)"
  shows "(usable_addrs rs ! f - region_start r) div 4096 = f"
proof -
  have r: "region_wf r" using assms(1,2) by (simp add: regions_wf_def)
  let ?i = "(usable_addrs rs ! f - region_start r) div 4096"
  have "(usable_addrs rs ! f - region_start r) mod 4096 = 0"
    using r usable_addrs_bound(2) [OF assms(2) nth_mem [OF assms(3)]]
    by (simp add: region_wf_def mod_0_imp_dvd)
  then have i: "usable_addrs rs ! f = region_start r + ?i * 4096" using assms(4) by auto
  then have "?i * 4096 < (region_end r - region_start r) div 4096 * 4096"
    using assms(5) region_frames(2) [OF r] by linarith
  then have "?i < (region_end r - region_start r) div 4096" by simp
  moreover from this have "Suc ?i * 4096 \<le> region_end r - region_start r"
    using region_frames(2) [OF r] by (metis Suc_leI mult_le_mono1)
  ultimately have "usable_addrs rs ! ?i = region_start r + ?i * 4096" "?i < length (usable_addrs rs)"
    using first_region_addrs [OF assms(1,2), of "Suc ?i" ?i] by auto
  with i assms(3,6) show ?thesis by (metis nth_eq_iff_index_eq)
qed

text \<open>
  C9: Round trip: a frame of the first usable region that \<open>allocate_frame\<close> has just handed out (from
  a first bitmap word that is neither empty nor full) can be given back, and the allocator is
  then in exactly the state it had before.
\<close>

theorem allocate_deallocate_roundtrip:
  assumes "phys_doc P" and "regions_wf (regions a)" and "distinct (usable_addrs (regions a))"
    and "usable_regions (regions a) = r # rest"
    and "bitmap a \<noteq> []" and "bitmap a ! 0 \<noteq> 0" and "bitmap a ! 0 \<noteq> - 1"
    and "Bitmap_allocate_frame P a = Ret (Some addr, a')"
    and "region_start r \<le> addr" and "addr < region_end r"
  shows "deallocate_frame P a' addr = Ret a"
proof -
  obtain f bm where f: "f < 64" "\<not> bm_get (bitmap a) f"
    and bm: "length bm = length (bitmap a)" "\<And>g. bm_get bm g \<longleftrightarrow> g = f \<or> bm_get (bitmap a) g"
    and step: "Bitmap_allocate_frame P a =
      Ret (if f < length (usable_addrs (regions a)) then Some (usable_addrs (regions a) ! f) else None,
           a\<lparr>bitmap := bm\<rparr>)"
    using allocate_first_word [OF assms(1,2,5,6,7)] by metis
  with assms(8) have fl: "f < length (usable_addrs (regions a))"
    and addr: "addr = usable_addrs (regions a) ! f" and a': "a' = a\<lparr>bitmap := bm\<rparr>"
    by (auto split: if_splits)
  have "region_end r \<le> 2 ^ 52" using assms(2,4) by (simp add: regions_wf_def region_wf_def)
  then have "address_to_frame P a' addr = Ret (Some f)"
    using address_to_frame_first [of a' r rest addr P] a' assms(4,9,10) addr
      first_region_index [OF assms(4,2) fl _ _ assms(3)] by simp
  moreover have "f < length bm * 64" using f(1) bm(1) assms(5) by (cases "bitmap a") simp_all
  then obtain bm' where bm': "mark_frame_free bm f = Ret bm'" "length bm' = length bm"
    "\<And>g. bm_get bm' g \<longleftrightarrow> g \<noteq> f \<and> bm_get bm g" using mark_frame_free_spec by metis
  moreover have "bm' = bitmap a" using bm bm' f(2) by (intro bm_ext) auto
  ultimately show ?thesis by (simp add: deallocate_frame_def a')
qed

text \<open>
  The loop of \<open>address_to_frame\<close> adds \<open>(region.start - region.end) / 4096\<close> for every region it
  passes.  With overflow checks the subtraction panics; without them each region contributes
  \<open>2 ^ 52\<close> minus its frame count.
\<close>

lemma address_to_frame_wraps:
  assumes "prof P = Release" and "list_all region_wf rs"
    and "frame + m = k * 2 ^ 52" and "1 \<le> k" and "k + length rs \<le> 4095"
    and "m + length (concat (map region_addrs rs)) \<le> 2 ^ 40"
  shows "address_to_frame_in P rs frame addr = Ret None \<or>
    (\<exists>f. address_to_frame_in P rs frame addr = Ret (Some f) \<and> 2 ^ 52 - 2 ^ 40 \<le> f)"
  using assms(2-)
proof (induction rs arbitrary: frame m k)
  case Nil
  then show ?case by simp
next
  case (Cons r rs)
  then have r: "region_wf r" by simp
  let ?n = "(region_end r - region_start r) div 4096"
  note frames = region_frames [OF r]
  have le: "region_start r \<le> region_end r" using r by (simp add: region_wf_def)
  have n: "m + ?n + length (concat (map region_addrs rs)) \<le> 2 ^ 40" using Cons.prems(5) by (simp add: frames)
  have low: "2 ^ 52 - 2 ^ 40 \<le> frame" and high: "frame \<le> 4094 * 2 ^ 52"
    using Cons.prems by auto
  consider (here) "region_start r \<le> addr \<and> addr < region_end r"
    | (empty) "\<not> (region_start r \<le> addr \<and> addr < region_end r)" "region_end r = region_start r"
    | (pass) "\<not> (region_start r \<le> addr \<and> addr < region_end r)" "region_start r < region_end r"
    using le by linarith
  then show ?case
  proof cases
    case here
    then have "(addr - region_start r) div 4096 \<le> ?n" by (intro div_le_mono) linarith
    with here n high low show ?thesis by auto
  next
    case empty
    with Cons.IH [of frame m k] Cons.prems n high show ?thesis by simp
  next
    case pass
    have "(u64_range + region_start r - region_end r) div 4096 = 2 ^ 52 - ?n"
    proof -
      have "u64_range + region_start r - region_end r = (2 ^ 52 - ?n) * 4096"
        using frames(2) pass(2) n by (simp add: diff_mult_distrib)
      then show ?thesis by simp
    qed
    moreover have "frame + (2 ^ 52 - ?n) + (m + ?n) = (k + 1) * 2 ^ 52"
      using Cons.prems(2) n by simp
    moreover have "frame + (2 ^ 52 - ?n) < u64_range" using high by simp
    ultimately show ?thesis
      using pass Cons.IH [of "frame + (2 ^ 52 - ?n)" "m + ?n" "k + 1"] Cons.prems n assms(1)
      by (auto simp: sub64_def)
  qed
qed

text \<open>
  A frame outside the first usable region can never be given back: in either profile
  \<open>deallocate_frame\<close> panics, by the overflow check in a \<open>Dev\<close> build and in a \<open>Release\<close> build by the
  bounds check on the bitmap (or the \<open>expect\<close>), since the wrapped frame number is huge.
\<close>

theorem deallocate_later_region_panics:
  assumes "regions_wf (regions a)" and "usable_regions (regions a) = r # rest"
    and "region_start r < region_end r" and "\<not> (region_start r \<le> addr \<and> addr < region_end r)"
    and "length rest < 4095" and "length (usable_addrs (regions a)) \<le> 2 ^ 40"
    and "length (bitmap a) * 64 \<le> 2 ^ 52 - 2 ^ 40"
  shows "deallocate_frame P a addr = Panic"
proof (cases "prof P")
  case Dev
  with assms(2-4) show ?thesis by (auto simp: deallocate_frame_def address_to_frame_def sub64_def)
next
  case Release
  have r: "region_wf r" and rest: "list_all region_wf rest"
    using assms(1,2) by (simp_all add: regions_wf_def)
  let ?n = "(region_end r - region_start r) div 4096"
  have n: "?n + length (concat (map region_addrs rest)) \<le> 2 ^ 40"
    using assms(6) by (simp add: usable_addrs_def assms(2) region_frames [OF r])
  have "u64_range + region_start r - region_end r = (2 ^ 52 - ?n) * 4096"
    using region_frames(2) [OF r] assms(3) n by (simp add: diff_mult_distrib)
  then have eq: "address_to_frame P a addr = address_to_frame_in P rest (2 ^ 52 - ?n) addr"
    using assms(2-4) Release by (auto simp: address_to_frame_def sub64_def)
  have "2 ^ 52 - ?n + ?n = 1 * 2 ^ 52" using n by simp
  from address_to_frame_wraps [OF Release rest this] n assms(5)
  consider "address_to_frame P a addr = Ret None"
    | f where "address_to_frame P a addr = Ret (Some f)" "2 ^ 52 - 2 ^ 40 \<le> f"
    unfolding eq by fastforce
  then show ?thesis
    using assms(7) by cases (simp_all add: deallocate_frame_def mark_frame_free_Panic)
qed

subsection \<open>Properties across the two allocators\<close>

text \<open>
  The two allocators number the frames alike: frame \<open>f\<close> of the bitmap denotes the address the
  boot allocator hands out on its call number \<open>f\<close>, and neither denotes anything beyond the last
  usable frame.  The handover from one to the other relies on it.
\<close>

theorem boot_and_bitmap_numbering_agree:
  assumes "phys_doc P" and "regions_wf (regions a)"
  shows "frame_to_address P a f =
         obind (Boot_allocate_frame P \<lparr>boot_regions = regions a, boot_next = f\<rparr>) (\<lambda>(fr, _). Ret fr)"
  using assms by (simp add: frame_to_address_eq Boot_allocate_frame_eq)


subsection \<open>Witnesses\<close>

text \<open>A machine with two usable regions of 66 and 2 frames around a reserved one.\<close>

definition demo_regions :: "MemoryRegion list" where
  "demo_regions =
     [\<lparr>region_start = 0, region_end = 66 * 4096, region_usable = True\<rparr>,
      \<lparr>region_start = 66 * 4096, region_end = 70 * 4096, region_usable = False\<rparr>,
      \<lparr>region_start = 70 * 4096, region_end = 72 * 4096, region_usable = True\<rparr>]"

definition demo_map_to :: "(unit, BootFrameAllocator) map_to_fn" where
  "demo_map_to src pg fr pt a = Ret (Ok (), pt, a)"

lemma demo_usable:
  "usable_regions demo_regions =
     [\<lparr>region_start = 0, region_end = 66 * 4096, region_usable = True\<rparr>,
      \<lparr>region_start = 70 * 4096, region_end = 72 * 4096, region_usable = True\<rparr>]"
  by (simp add: demo_regions_def usable_regions_def)

lemma demo_addrs: "usable_addrs demo_regions = map (\<lambda>i. i * 4096) ([0..<66] @ [70, 71])"
  by (simp add: usable_addrs_def demo_usable step_by_def div_ceil_def upt_rec)

lemma demo_wf: "regions_wf demo_regions"
  by (simp add: regions_wf_def demo_usable region_wf_def)

lemma demo_distinct: "distinct (usable_addrs demo_regions)"
  by (auto simp: demo_addrs distinct_map inj_on_def)

lemma demo_bootable: "bootable demo_regions"
proof -
  have "bitmap_frames_of demo_regions = 1" by (simp add: bitmap_frames_of_def demo_addrs div_ceil_def)
  then show ?thesis by (simp add: bootable_def demo_wf demo_addrs demo_usable)
qed

lemma demo_maps_window: "maps_window P demo_map_to demo_regions"
  unfolding maps_window_def demo_map_to_def by (blast intro: draws.intros)


definition demo_bitmap :: "64 word list \<Rightarrow> BitmapFrameAllocator" where
  "demo_bitmap bm = \<lparr>regions = demo_regions, bitmap = bm\<rparr>"

lemma demo_bitmap_used: "bm_get [0x8000000000000000 :: 64 word, 0] g \<longleftrightarrow> g < 1"
proof -
  have "(0x8000000000000000 :: 64 word) = push_bit 63 1" by simp
  then have "[0x8000000000000000 :: 64 word, 0] = [0, 0][0 div 64 := [0, 0] ! (0 div 64) OR push_bit (63 - 0 mod 64) 1]"
    by simp
  then show ?thesis
    using bm_get_set [of 0 "[0, 0] :: 64 word list" g] bm_get_replicate_0 [of 2 g, where 'a = 64]
    by (simp add: numeral_2_eq_2)
qed


lemma demo_full: "Bitmap_full (doc_platform pr) (demo_bitmap [- 1, 0])"
  by (simp add: Bitmap_full_def Bitmap_inv_def demo_bitmap_def demo_wf demo_addrs)

theorem allocate_frames_full_word_repeats_witness:
  "Bitmap_full (doc_platform Release) (demo_bitmap [- 1, 0]) \<and>
   (\<exists>bm. allocate_frames (doc_platform Release) 2 (demo_bitmap [- 1, 0]) =
     Ret ([Some (64 * 4096), Some (64 * 4096)], (demo_bitmap [- 1, 0])\<lparr>bitmap := bm\<rparr>))"
  using allocate_frames_full_word_repeats [OF demo_full [of Release], of 2] demo_full [of Release]
  by (simp add: demo_bitmap_def demo_addrs numeral_2_eq_2 nth_append)

theorem deallocate_later_region_panics_witness:
  "\<not> (0 \<le> (70 * 4096 :: nat) \<and> (70 * 4096 :: nat) < 66 * 4096) \<and>
   deallocate_frame (doc_platform Dev) (demo_bitmap [- 1, 0]) (70 * 4096) = Panic \<and>
   deallocate_frame (doc_platform Release) (demo_bitmap [- 1, 0]) (70 * 4096) = Panic"
  using deallocate_later_region_panics [of "demo_bitmap [- 1, 0]" _ _ "70 * 4096"]
  by (simp add: demo_bitmap_def demo_wf demo_usable demo_addrs)

theorem boot_and_bitmap_numbering_agree_witness:
  "regions_wf demo_regions \<and>
   frame_to_address (doc_platform Dev) (demo_bitmap []) 66 =
   obind (Boot_allocate_frame (doc_platform Dev) \<lparr>boot_regions = demo_regions, boot_next = 66\<rparr>)
     (\<lambda>(fr, _). Ret fr)"
  using boot_and_bitmap_numbering_agree [OF phys_doc_doc_platform, of "demo_bitmap []" Dev 66] demo_wf
  by (simp add: demo_bitmap_def)

lemma demo_allocate:
  "Bitmap_allocate_frame (doc_platform Dev) (demo_bitmap [0x8000000000000000, 0]) =
     Ret (Some 4096, demo_bitmap [0xC000000000000000, 0])"
proof -
  have lo: "leading_ones (0x8000000000000000 :: 64 word) = 1" by code_simp
  show ?thesis
    by (simp add: Bitmap_allocate_frame_def first_free_frame_def demo_bitmap_def lo mark_frame_used_def
        frame_to_address_eq demo_wf demo_addrs phys_docD [OF phys_doc_doc_platform] nth_append)
qed

lemma demo_deallocate:
  "deallocate_frame (doc_platform Dev) (demo_bitmap [0xC000000000000000, 0]) 4096 =
     Ret (demo_bitmap [0x8000000000000000, 0])"
  by (simp add: deallocate_frame_def address_to_frame_def demo_bitmap_def demo_usable mark_frame_free_def)

theorem allocate_deallocate_roundtrip_witness:
  "Bitmap_allocate_frame (doc_platform Dev) (demo_bitmap [0x8000000000000000, 0]) =
     Ret (Some 4096, demo_bitmap [0xC000000000000000, 0]) \<and>
   deallocate_frame (doc_platform Dev) (demo_bitmap [0xC000000000000000, 0]) 4096 =
     Ret (demo_bitmap [0x8000000000000000, 0])"
  using allocate_deallocate_roundtrip [OF phys_doc_doc_platform _ _ _ _ _ _ demo_allocate] demo_allocate
  by (simp add: demo_bitmap_def demo_wf demo_distinct demo_usable)

theorem allocate_frame_all_free_witness:
  "list_all (\<lambda>w. w = 0) (bitmap (demo_bitmap [0, 0])) \<and>
   Bitmap_allocate_frame (doc_platform Dev) (demo_bitmap [0, 0]) = Ret (None, demo_bitmap [0, 0])"
  using allocate_frame_all_free [of "demo_bitmap [0, 0]"] by (simp add: demo_bitmap_def)

end
