(* ===== verification/Kernel_Pages.thy ===== *)
theory Kernel_Pages
  imports Frame_Allocator
begin

text \<open>
  \<open>memory/mod.rs\<close>: the global page table and frame allocator, their initialisation, and the two
  primitives \<open>alloc_kpage\<close> and \<open>free_kpage\<close> on which the virtual page allocator is built.  The
  page table itself (\<open>OffsetPageTable\<close> of the \<open>x86_64\<close> crate) is the parameter record \<open>mapper\<close>,
  over an abstract page-table type.
\<close>

datatype AllocError = AllocError

record 'pt mapper =
  m_new :: "nat \<Rightarrow> nat \<Rightarrow> 'pt"                       \<comment> \<open>\<open>OffsetPageTable::new\<close>: table address, offset\<close>
  m_map_to :: "('pt, BitmapFrameAllocator) map_to_fn"
  m_unmap :: "nat \<Rightarrow> 'pt \<Rightarrow> (unit, nat) result \<times> 'pt"   \<comment> \<open>the frame the page was mapped to\<close>
  m_clean_up :: "(BitmapFrameAllocator \<Rightarrow> nat \<Rightarrow> BitmapFrameAllocator outcome) \<Rightarrow> nat \<Rightarrow> nat \<Rightarrow>
     'pt \<Rightarrow> BitmapFrameAllocator \<Rightarrow> ('pt \<times> BitmapFrameAllocator) outcome"
  m_translate :: "'pt \<Rightarrow> nat \<Rightarrow> nat option"           \<comment> \<open>page to frame\<close>

record 'pt kmem =
  PAGE_TABLE :: "'pt option"
  FRAME_ALLOCATOR :: "BitmapFrameAllocator option"

subsection \<open>Initialisation\<close>

definition active_level_4_table :: "platform \<Rightarrow> nat \<Rightarrow> nat outcome" where
  "active_level_4_table P cr3 = virt_add P (PHYSICAL_MEM_START P) cr3"

definition init :: "platform \<Rightarrow> 'pt mapper \<Rightarrow> nat \<Rightarrow> 'pt kmem \<Rightarrow> 'pt kmem outcome" where
  "init P M cr3 s =
     obind (active_level_4_table P cr3) (\<lambda>level_4_table.
     Ret (s\<lparr>PAGE_TABLE := Some (m_new M level_4_table (PHYSICAL_MEM_START P))\<rparr>))"

definition init_frame_allocator ::
  "platform \<Rightarrow> 'pt mapper \<Rightarrow> ('pt, BootFrameAllocator) map_to_fn \<Rightarrow> nat \<Rightarrow> MemoryRegion list \<Rightarrow>
   'pt kmem \<Rightarrow> 'pt kmem outcome" where
  "init_frame_allocator P M map_boot cr3 memory_regions s =
     obind (init P M cr3 s) (\<lambda>s.
     obind (unwrap (PAGE_TABLE s)) (\<lambda>pt.
     obind (Bitmap_new P map_boot memory_regions pt) (\<lambda>(frame_alloc, pt).
     Ret (s\<lparr>PAGE_TABLE := Some pt, FRAME_ALLOCATOR := Some frame_alloc\<rparr>))))"

subsection \<open>Single kernel pages\<close>

text \<open>\<open>alloc_kpage\<close> is generic in the frame allocator: \<open>map_to\<close> and \<open>allocate_frame\<close> are its
  methods, \<open>a\<close> its state.  The page table is the global one.\<close>

definition alloc_kpage ::
  "platform \<Rightarrow> ('pt, 'a) map_to_fn \<Rightarrow> 'a frame_source \<Rightarrow> 'a \<Rightarrow> nat \<Rightarrow> 'pt option \<Rightarrow>
   ((AllocError, unit) result \<times> 'a \<times> 'pt option) outcome" where
  "alloc_kpage P map_to allocate_frame a virt_addr page_table =
     obind (allocate_frame a) (\<lambda>(frame, a).
     case frame of
       None \<Rightarrow> Ret (Err AllocError, a, page_table)
     | Some frame \<Rightarrow>
         (let page = page_containing P virt_addr in
          case page_table of
            None \<Rightarrow> Ret (Err AllocError, a, None)
          | Some pt \<Rightarrow>
              obind (map_to allocate_frame page frame pt a) (\<lambda>(r, pt, a).
              case r of
                Err _ \<Rightarrow> Panic
              | Ok _ \<Rightarrow> Ret (Ok (), a, Some pt))))"

definition free_kpage ::
  "platform \<Rightarrow> 'pt mapper \<Rightarrow> BitmapFrameAllocator \<Rightarrow> nat \<Rightarrow> 'pt option \<Rightarrow>
   (BitmapFrameAllocator \<times> 'pt option) outcome" where
  "free_kpage P M a virt_addr page_table =
     (let page = page_containing P virt_addr in
      obind (unwrap page_table) (\<lambda>pt.
      case m_unmap M page pt of
        (Err _, _) \<Rightarrow> Panic
      | (Ok frame, pt) \<Rightarrow>
          obind (deallocate_frame P a frame) (\<lambda>a.
          obind (m_clean_up M (deallocate_frame P) page page pt a) (\<lambda>(pt, a).
          Ret (a, Some pt)))))"

text \<open>The two calls as the page allocator makes them, on the global frame allocator:
  \<open>FRAME_ALLOCATOR.lock().as_mut().unwrap()\<close> followed by the primitive.\<close>

definition kpage_alloc ::
  "platform \<Rightarrow> 'pt mapper \<Rightarrow> nat \<Rightarrow> 'pt kmem \<Rightarrow> ((AllocError, unit) result \<times> 'pt kmem) outcome" where
  "kpage_alloc P M virt_addr s =
     obind (unwrap (FRAME_ALLOCATOR s)) (\<lambda>alloc.
     obind (alloc_kpage P (m_map_to M) (Bitmap_allocate_frame P) alloc virt_addr (PAGE_TABLE s))
       (\<lambda>(r, alloc, pt). Ret (r, s\<lparr>PAGE_TABLE := pt, FRAME_ALLOCATOR := Some alloc\<rparr>)))"

definition kpage_free :: "platform \<Rightarrow> 'pt mapper \<Rightarrow> nat \<Rightarrow> 'pt kmem \<Rightarrow> 'pt kmem outcome" where
  "kpage_free P M virt_addr s =
     obind (unwrap (FRAME_ALLOCATOR s)) (\<lambda>alloc.
     obind (free_kpage P M alloc virt_addr (PAGE_TABLE s)) (\<lambda>(alloc, pt).
     Ret (s\<lparr>PAGE_TABLE := pt, FRAME_ALLOCATOR := Some alloc\<rparr>)))"

text \<open>The pair of primitives, as the record that the page allocator is written against.\<close>

record 's kpages =
  kp_lock :: "'s \<Rightarrow> unit outcome"   \<comment> \<open>\<open>FRAME_ALLOCATOR.lock().as_mut().unwrap()\<close>\<close>
  kp_alloc :: "nat \<Rightarrow> 's \<Rightarrow> ((AllocError, unit) result \<times> 's) outcome"
  kp_free :: "nat \<Rightarrow> 's \<Rightarrow> 's outcome"

definition kernel_kpages :: "platform \<Rightarrow> 'pt mapper \<Rightarrow> 'pt kmem kpages" where
  "kernel_kpages P M =
     \<lparr>kp_lock = (\<lambda>s. obind (unwrap (FRAME_ALLOCATOR s)) (\<lambda>_. Ret ())),
      kp_alloc = kpage_alloc P M, kp_free = kpage_free P M\<rparr>"

subsection \<open>Documented behaviour of the page table\<close>

text \<open>
  What the crate documents of a mapper.  \<open>map_to\<close> touches the allocator only by drawing at most
  three frames; it succeeds on an unmapped page only, and then adds exactly that translation; a
  failure changes none.  \<open>unmap\<close> removes exactly one translation and returns its frame, and fails
  on an unmapped page.  \<open>clean_up_addr_range\<close> gives back page tables without entries, so it
  changes no translation.
\<close>

definition map_to_doc :: "('pt, 'a) map_to_fn \<Rightarrow> ('pt \<Rightarrow> nat \<Rightarrow> nat option) \<Rightarrow> bool" where
  "map_to_doc map_to translate \<longleftrightarrow>
     (\<forall>src pg fr pt a r pt' a'. map_to src pg fr pt a = Ret (r, pt', a') \<longrightarrow>
        (\<exists>k \<le> 3. draws src k a a') \<and>
        (case r of
           Ok _ \<Rightarrow> translate pt pg = None \<and> translate pt' = (translate pt)(pg \<mapsto> fr)
         | Err _ \<Rightarrow> translate pt' = translate pt))"

definition map_to_succeeds :: "('pt, 'a) map_to_fn \<Rightarrow> ('pt \<Rightarrow> nat \<Rightarrow> nat option) \<Rightarrow> bool" where
  "map_to_succeeds map_to translate \<longleftrightarrow>
     (\<forall>src pg fr pt a. translate pt pg = None \<and>
        (\<forall>k a'. k < 3 \<and> draws src k a a' \<longrightarrow> (\<exists>f b. src a' = Ret (Some f, b))) \<longrightarrow>
        (\<exists>pt' a'. map_to src pg fr pt a = Ret (Ok (), pt', a')))"

definition unmap_doc :: "'pt mapper \<Rightarrow> bool" where
  "unmap_doc M \<longleftrightarrow>
     (\<forall>pg pt. case m_translate M pt pg of
        None \<Rightarrow> (\<exists>pt'. m_unmap M pg pt = (Err (), pt'))
      | Some fr \<Rightarrow> (\<exists>pt'. m_unmap M pg pt = (Ok fr, pt') \<and>
                        m_translate M pt' = (m_translate M pt)(pg := None)))"

definition clean_up_doc :: "'pt mapper \<Rightarrow> bool" where
  "clean_up_doc M \<longleftrightarrow>
     (\<forall>f pg1 pg2 pt a pt' a'. m_clean_up M f pg1 pg2 pt a = Ret (pt', a') \<longrightarrow>
        m_translate M pt' = m_translate M pt \<and> (\<exists>frs. ofold f a frs = Ret a'))"

definition mapper_doc :: "'pt mapper \<Rightarrow> bool" where
  "mapper_doc M \<longleftrightarrow> map_to_doc (m_map_to M) (m_translate M) \<and> unmap_doc M \<and> clean_up_doc M"

subsection \<open>What the primitives do to the address space\<close>

text \<open>One lemma for every frame allocator that satisfies the contract.\<close>

context frame_allocator
begin

lemma alloc_kpage_law:
  assumes "map_to_doc map_to translate" and "inv a"
    and "alloc_kpage P map_to alloc a v (Some pt) = Ret (r, a', pt')"
  shows "inv a' \<and> frames a' = frames a \<and>
    (case r of
       Ok _ \<Rightarrow> translate pt (page_containing P v) = None \<and>
         (\<exists>fr t. fr \<in> frames a \<and> pt' = Some t \<and> translate t = (translate pt)(page_containing P v \<mapsto> fr))
     | Err _ \<Rightarrow> pt' = Some pt)"
proof -
  from assms(3) obtain fo b where b: "alloc a = Ret (fo, b)"
    by (auto simp: alloc_kpage_def outcome_simps)
  have inv_b: "inv b" "frames b = frames a" using alloc_inv [OF assms(2) b] by simp_all
  show ?thesis
  proof (cases fo)
    case None
    with assms(3) b inv_b show ?thesis by (auto simp: alloc_kpage_def)
  next
    case (Some fr)
    have fr: "fr \<in> frames a" using alloc_managed [OF assms(2)] b Some by simp
    from assms(3) b Some obtain q t c where m: "map_to alloc (page_containing P v) fr pt b = Ret (q, t, c)"
      and k: "(case q of Err _ \<Rightarrow> Panic | Ok _ \<Rightarrow> Ret (Ok (), c, Some t)) = Ret (r, a', pt')"
      by (auto simp: alloc_kpage_def outcome_simps)
    from k have r: "q = Ok ()" "r = Ok ()" "pt' = Some t" "c = a'" by (cases q; simp)+
    note m = m [unfolded r(1,4)]
    from assms(1) m obtain k where "draws alloc k b a'"
      and t: "translate pt (page_containing P v) = None"
        "translate t = (translate pt)(page_containing P v \<mapsto> fr)"
      unfolding map_to_doc_def by fastforce
    with draws_inv [OF _ inv_b(1)] inv_b fr r show ?thesis by auto
  qed
qed

end

text \<open>The page-to-frame translation of the kernel and the invariant of its global memory state.\<close>

definition kmap :: "'pt mapper \<Rightarrow> 'pt kmem \<Rightarrow> nat \<Rightarrow> nat option" where
  "kmap M s = (case PAGE_TABLE s of None \<Rightarrow> Map.empty | Some pt \<Rightarrow> m_translate M pt)"

definition kmem_wf :: "platform \<Rightarrow> 'pt mapper \<Rightarrow> 'pt kmem \<Rightarrow> bool" where
  "kmem_wf P M s \<longleftrightarrow> mapper_doc M \<and> PAGE_TABLE s \<noteq> None \<and>
     (case FRAME_ALLOCATOR s of None \<Rightarrow> False | Some a \<Rightarrow> Bitmap_wf P a)"

definition managed :: "'pt kmem \<Rightarrow> nat set" where
  "managed s = (case FRAME_ALLOCATOR s of None \<Rightarrow> {} | Some a \<Rightarrow> set (usable_addrs (regions a)))"

lemma kmem_wfE:
  assumes "kmem_wf P M s"
  obtains pt a where "PAGE_TABLE s = Some pt" and "FRAME_ALLOCATOR s = Some a" and "Bitmap_wf P a"
    and "mapper_doc M"
  using assms by (auto simp: kmem_wf_def split: option.splits)

lemma kpage_alloc_law:
  assumes "kmem_wf P M s" and "kpage_alloc P M v s = Ret (r, s')"
  shows "kmem_wf P M s' \<and> managed s' = managed s \<and>
    (case r of
       Ok _ \<Rightarrow> kmap M s (page_containing P v) = None \<and>
         (\<exists>fr \<in> managed s. kmap M s' = (kmap M s)(page_containing P v \<mapsto> fr))
     | Err _ \<Rightarrow> kmap M s' = kmap M s)"
proof -
  obtain pt a where s: "PAGE_TABLE s = Some pt" "FRAME_ALLOCATOR s = Some a" "Bitmap_wf P a"
    and M: "mapper_doc M" by (rule kmem_wfE [OF assms(1)])
  from assms(2) s obtain a' pt' where
    k: "alloc_kpage P (m_map_to M) (Bitmap_allocate_frame P) a v (Some pt) = Ret (r, a', pt')"
    and s': "s' = s\<lparr>PAGE_TABLE := pt', FRAME_ALLOCATOR := Some a'\<rparr>"
    by (auto simp: kpage_alloc_def outcome_simps)
  from M have "map_to_doc (m_map_to M) (m_translate M)" by (simp add: mapper_doc_def)
  from bmf.alloc_kpage_law [OF this s(3) k] M s s' show ?thesis
    by (cases r) (auto simp: kmem_wf_def managed_def kmap_def)
qed

lemma deallocate_frame_wf:
  assumes "Bitmap_wf P a" and "deallocate_frame P a f = Ret a'"
  shows "Bitmap_wf P a' \<and> regions a' = regions a"
  using assms by (auto simp: deallocate_frame_def outcome_simps Bitmap_wf_def)

lemma kpage_free_law:
  assumes "kmem_wf P M s" and "kpage_free P M v s = Ret s'"
  shows "kmem_wf P M s' \<and> managed s' = managed s \<and> kmap M s (page_containing P v) \<noteq> None \<and>
    kmap M s' = (kmap M s)(page_containing P v := None)"
proof -
  obtain pt a where s: "PAGE_TABLE s = Some pt" "FRAME_ALLOCATOR s = Some a" "Bitmap_wf P a"
    and M: "mapper_doc M" by (rule kmem_wfE [OF assms(1)])
  let ?pg = "page_containing P v"
  from M have un: "case m_translate M pt ?pg of
        None \<Rightarrow> (\<exists>pt'. m_unmap M ?pg pt = (Err (), pt'))
      | Some fr \<Rightarrow> (\<exists>pt'. m_unmap M ?pg pt = (Ok fr, pt') \<and>
                        m_translate M pt' = (m_translate M pt)(?pg := None))"
    by (simp add: mapper_doc_def unmap_doc_def)
  from assms(2) s un obtain fr t1 b t2 c where
    fr: "m_translate M pt ?pg = Some fr" "m_translate M t1 = (m_translate M pt)(?pg := None)"
    and b: "deallocate_frame P a fr = Ret b" and c: "m_clean_up M (deallocate_frame P) ?pg ?pg t1 b = Ret (t2, c)"
    and s': "s' = s\<lparr>PAGE_TABLE := Some t2, FRAME_ALLOCATOR := Some c\<rparr>"
    by (auto simp: kpage_free_def free_kpage_def outcome_simps Let_def split: option.splits prod.splits result.splits)
  from M c obtain frs where t2: "m_translate M t2 = m_translate M t1"
    and frs: "ofold (deallocate_frame P) b frs = Ret c"
    unfolding mapper_doc_def clean_up_doc_def by blast
  have "Bitmap_wf P b \<and> regions b = regions a" by (rule deallocate_frame_wf [OF s(3) b])
  then have "Bitmap_wf P c \<and> regions c = regions a"
    by (rule ofold_invariant [OF frs, where P = "\<lambda>u. Bitmap_wf P u \<and> regions u = regions a"])
      (auto dest: deallocate_frame_wf)
  with s s' M fr t2 show ?thesis by (auto simp: kmem_wf_def managed_def kmap_def)
qed

text \<open>
  A ready state is one in which allocations of unmapped pages return: the mapper needs no more
  than the frames it is given, the frame allocator is in the state boot leaves it in and the
  machine has more than 64 usable frames.
\<close>

definition kmem_ready :: "platform \<Rightarrow> 'pt mapper \<Rightarrow> 'pt kmem \<Rightarrow> bool" where
  "kmem_ready P M s \<longleftrightarrow> kmem_wf P M s \<and> map_to_succeeds (m_map_to M) (m_translate M) \<and>
     (case FRAME_ALLOCATOR s of
        None \<Rightarrow> False
      | Some a \<Rightarrow> Bitmap_inv P a \<and> 64 < length (usable_addrs (regions a)))"

definition Bitmap_ready :: "platform \<Rightarrow> MemoryRegion list \<Rightarrow> BitmapFrameAllocator \<Rightarrow> bool" where
  "Bitmap_ready P rs a \<longleftrightarrow> Bitmap_inv P a \<and> regions a = rs"

lemma Bitmap_ready_step:
  assumes "64 < length (usable_addrs rs)" and "Bitmap_ready P rs a"
  shows "\<exists>f b. Bitmap_allocate_frame P a = Ret (Some f, b) \<and> Bitmap_ready P rs b"
proof -
  from assms(2) have inv: "Bitmap_inv P a" "regions a = rs" by (simp_all add: Bitmap_ready_def)
  obtain f bm where "f \<le> 64" "Bitmap_inv P (a\<lparr>bitmap := bm\<rparr>)" and "Bitmap_allocate_frame P a =
      Ret (if f < length (usable_addrs (regions a)) then Some (usable_addrs (regions a) ! f) else None,
           a\<lparr>bitmap := bm\<rparr>)" using Bitmap_allocate_frame_inv [OF inv(1)] by metis
  with inv(2) assms(1) show ?thesis by (simp add: Bitmap_ready_def)
qed

lemma Bitmap_ready_draws:
  assumes "64 < length (usable_addrs rs)"
    and "draws (Bitmap_allocate_frame P) k a b" and "Bitmap_ready P rs a"
  shows "Bitmap_ready P rs b"
  using assms(2,3)
proof (induction rule: draws.induct)
  case (draws_Suc u g u' j u'')
  from Bitmap_ready_step [OF assms(1) draws_Suc.prems] draws_Suc.hyps(1) have "Bitmap_ready P rs u'" by auto
  then show ?case by (rule draws_Suc.IH)
qed simp

lemma kpage_alloc_ready:
  assumes "kmem_ready P M s" and "kmap M s (page_containing P v) = None"
  shows "\<exists>s'. kpage_alloc P M v s = Ret (Ok (), s') \<and> kmem_ready P M s'"
proof -
  have wf: "kmem_wf P M s" and succ: "map_to_succeeds (m_map_to M) (m_translate M)"
    using assms(1) by (simp_all add: kmem_ready_def)
  obtain pt a where pt: "PAGE_TABLE s = Some pt" "FRAME_ALLOCATOR s = Some a" and M: "mapper_doc M"
    by (rule kmem_wfE [OF wf])
  let ?rs = "regions a"
  have len: "64 < length (usable_addrs ?rs)" and a: "Bitmap_ready P ?rs a"
    using assms(1) pt by (simp_all add: kmem_ready_def Bitmap_ready_def)
  obtain f b where b: "Bitmap_allocate_frame P a = Ret (Some f, b)" "Bitmap_ready P ?rs b"
    using Bitmap_ready_step [OF len a] by blast
  have "\<exists>f c. Bitmap_allocate_frame P b' = Ret (Some f, c)" if "draws (Bitmap_allocate_frame P) k b b'" for k b'
    using Bitmap_ready_step [OF len Bitmap_ready_draws [OF len that b(2)]] by blast
  moreover have "m_translate M pt (page_containing P v) = None" using assms(2) pt by (simp add: kmap_def)
  ultimately obtain pt' a' where
    m: "m_map_to M (Bitmap_allocate_frame P) (page_containing P v) f pt b = Ret (Ok (), pt', a')"
    using succ unfolding map_to_succeeds_def by meson
  with M obtain k where "draws (Bitmap_allocate_frame P) k b a'"
    unfolding mapper_doc_def map_to_doc_def by blast
  from Bitmap_ready_draws [OF len this b(2)] have "Bitmap_ready P ?rs a'" .
  moreover have k: "kpage_alloc P M v s = Ret (Ok (), s\<lparr>PAGE_TABLE := Some pt', FRAME_ALLOCATOR := Some a'\<rparr>)"
    using b(1) pt m by (simp add: kpage_alloc_def alloc_kpage_def)
  ultimately show ?thesis using kpage_alloc_law [OF wf k] succ len
    by (simp add: kmem_ready_def Bitmap_ready_def)
qed

subsection \<open>The kernel page contract\<close>

text \<open>
  The interface the virtual page allocator relies on, over any state: an allocation that
  succeeds maps exactly the page asked for, which was unmapped; a failure maps nothing; freeing
  unmaps exactly the page, which was mapped.
\<close>

locale kernel_pages =
  fixes K :: "'s kpages" and pg :: "nat \<Rightarrow> nat"
    and kinv :: "'s \<Rightarrow> bool" and mapped :: "'s \<Rightarrow> nat \<Rightarrow> nat option"
  assumes kp_alloc_inv: "kinv s \<Longrightarrow> kp_alloc K v s = Ret (r, s') \<Longrightarrow> kinv s'"
    and kp_alloc_Ok: "kinv s \<Longrightarrow> kp_alloc K v s = Ret (Ok (), s') \<Longrightarrow>
      mapped s (pg v) = None \<and> (\<exists>fr. mapped s' = (mapped s)(pg v \<mapsto> fr))"
    and kp_alloc_Err: "kinv s \<Longrightarrow> kp_alloc K v s = Ret (Err e, s') \<Longrightarrow> mapped s' = mapped s"
    and kp_free_law: "kinv s \<Longrightarrow> kp_free K v s = Ret s' \<Longrightarrow>
      kinv s' \<and> mapped s (pg v) \<noteq> None \<and> mapped s' = (mapped s)(pg v := None)"

interpretation kpg: kernel_pages "kernel_kpages P M" "page_containing P" "kmem_wf P M" "kmap M" for P M
proof unfold_locales
  fix s s' :: "'a kmem" and v r and e
  assume wf: "kmem_wf P M s"
  show "kmem_wf P M s'" if "kp_alloc (kernel_kpages P M) v s = Ret (r, s')"
    using kpage_alloc_law [OF wf] that by (simp add: kernel_kpages_def)
  show "kmap M s (page_containing P v) = None \<and> (\<exists>fr. kmap M s' = (kmap M s)(page_containing P v \<mapsto> fr))"
    if "kp_alloc (kernel_kpages P M) v s = Ret (Ok (), s')"
    using kpage_alloc_law [OF wf] that by (fastforce simp: kernel_kpages_def)
  show "kmap M s' = kmap M s" if "kp_alloc (kernel_kpages P M) v s = Ret (Err e, s')"
    using kpage_alloc_law [OF wf, of v "Err e" s'] that by (simp add: kernel_kpages_def)
  show "kmem_wf P M s' \<and> kmap M s (page_containing P v) \<noteq> None \<and>
      kmap M s' = (kmap M s)(page_containing P v := None)"
    if "kp_free (kernel_kpages P M) v s = Ret s'"
    using kpage_free_law [OF wf] that by (simp add: kernel_kpages_def)
qed

text \<open>The stronger contract of a ready memory: the calls return.\<close>

locale live_kernel_pages = kernel_pages +
  fixes ready :: "'a \<Rightarrow> bool"
  assumes ready_kinv: "ready s \<Longrightarrow> kinv s"
    and ready_lock: "ready s \<Longrightarrow> kp_lock K s = Ret ()"
    and ready_alloc: "ready s \<Longrightarrow> mapped s (pg v) = None \<Longrightarrow>
      \<exists>s'. kp_alloc K v s = Ret (Ok (), s') \<and> ready s'"

interpretation kpl: live_kernel_pages "kernel_kpages P M" "page_containing P" "kmem_wf P M" "kmap M"
  "kmem_ready P M" for P M
proof unfold_locales
  fix s :: "'a kmem" and v
  assume r: "kmem_ready P M s"
  then show "kmem_wf P M s" by (simp add: kmem_ready_def)
  from r show "kp_lock (kernel_kpages P M) s = Ret ()"
    by (auto simp: kmem_ready_def kernel_kpages_def split: option.splits)
  assume "kmap M s (page_containing P v) = None"
  from kpage_alloc_ready [OF r this]
  show "\<exists>s'. kp_alloc (kernel_kpages P M) v s = Ret (Ok (), s') \<and> kmem_ready P M s'"
    by (simp add: kernel_kpages_def)
qed

lemma init_frame_allocator_ready:
  assumes "phys_doc P" and "virt_doc P" and "mapper_doc M" and "maps_window P map_boot rs"
    and "bootable rs" and "cr3 < 2 ^ 46"
  shows "\<exists>s' a. init_frame_allocator P M map_boot cr3 rs s = Ret s' \<and> kmem_wf P M s' \<and>
    FRAME_ALLOCATOR s' = Some a \<and> Bitmap_inv P a \<and> regions a = rs"
proof -
  have "virt_add P (PHYSICAL_MEM_START P) cr3 = Ret (PHYSICAL_MEM_START P + cr3)"
    using assms(6) by (intro virt_docD(2) [OF assms(2)])
      (simp_all add: layout_values [OF assms(2)] canonical_def)
  then obtain pt where pt: "init P M cr3 s = Ret (s\<lparr>PAGE_TABLE := Some pt\<rparr>)"
    by (simp add: init_def active_level_4_table_def)
  obtain bm pt' k where bm:
    "allocate_bitmap P map_boot rs pt (Boot_new rs) = Ret (bm, pt', \<lparr>boot_regions = rs, boot_next = k\<rparr>)"
    "length bm = bitmap_frames_of rs * 512" "\<And>f. bm_get bm f \<longleftrightarrow> f < k" "bitmap_frames_of rs \<le> k"
    using allocate_bitmap_returns [OF assms(1,2,4,5)] by metis
  have wf: "regions_wf rs" and ne: "usable_addrs rs \<noteq> []" using assms(5) by (simp_all add: bootable_def)
  have n: "1 \<le> bitmap_frames_of rs" using ne bitmap_frames_cover [of rs] by (cases "bitmap_frames_of rs") auto
  then have "bm \<noteq> []" "0 < k" using bm(2,4) by auto
  from first_word_prefix(1) [OF this(1) bm(3) this(2)] n bm(2) wf assms(1)
  have inv: "Bitmap_inv P \<lparr>regions = rs, bitmap = bm\<rparr>" by (simp add: Bitmap_inv_def)
  have "init_frame_allocator P M map_boot cr3 rs s =
      Ret (s\<lparr>PAGE_TABLE := Some pt', FRAME_ALLOCATOR := Some \<lparr>regions = rs, bitmap = bm\<rparr>\<rparr>)"
    using pt bm(1) by (simp add: init_frame_allocator_def Bitmap_new_def new_with_alloc_def)
  with inv assms(1,3) wf show ?thesis by (auto simp: kmem_wf_def Bitmap_wf_def)
qed

subsection \<open>Properties\<close>

text \<open>
  C6: \<open>alloc_kpage\<close> on the global allocator: when it succeeds, the page was unmapped before, is now
  mapped to a page-aligned usable frame, no other translation has changed and the memory state
  is still well-formed.
\<close>

theorem kpage_alloc_maps_one_page:
  assumes "kmem_wf P M s" and "kpage_alloc P M v s = Ret (Ok (), s')"
  shows "kmem_wf P M s' \<and> kmap M s (page_containing P v) = None \<and>
    (\<exists>fr. fr \<in> managed s \<and> fr mod 4096 = 0 \<and> kmap M s' = (kmap M s)(page_containing P v \<mapsto> fr))"
proof -
  obtain a where "FRAME_ALLOCATOR s = Some a" "Bitmap_wf P a" using kmem_wfE [OF assms(1)] by metis
  then have "fr mod 4096 = 0" if "fr \<in> managed s" for fr
    using bmf.frames_aligned [of P a fr] that by (simp add: managed_def)
  with kpage_alloc_law [OF assms] show ?thesis by auto
qed

text \<open>
  With enough usable frames the allocation does succeed: from a ready state, mapping an unmapped
  page returns \<open>Ok\<close>, the page is mapped afterwards and the state is ready for the next call.
\<close>

theorem kpage_alloc_succeeds:
  assumes "kmem_ready P M s" and "kmap M s (page_containing P v) = None"
  shows "\<exists>s' fr. kpage_alloc P M v s = Ret (Ok (), s') \<and> kmem_ready P M s' \<and>
    kmap M s' = (kmap M s)(page_containing P v \<mapsto> fr)"
proof -
  obtain s' where s': "kpage_alloc P M v s = Ret (Ok (), s')" "kmem_ready P M s'"
    using kpage_alloc_ready [OF assms] by blast
  have "kmem_wf P M s" using assms(1) by (simp add: kmem_ready_def)
  from kpage_alloc_law [OF this s'(1)] s' show ?thesis by auto
qed

text \<open>
  C7: The consequence of the bitmap search for the address space: once the first 64 frames are in
  use, two different kernel pages are mapped to the same physical frame, and every later page
  too, so that writing one page changes the other.
\<close>

theorem kpage_alloc_aliases:
  assumes "kmem_wf P M s" and "FRAME_ALLOCATOR s = Some a" and "Bitmap_full P a"
    and "kpage_alloc P M v s = Ret (Ok (), s1)" and "kpage_alloc P M w s1 = Ret (Ok (), s2)"
  shows "page_containing P v \<noteq> page_containing P w \<and>
    kmap M s2 (page_containing P v) = Some (usable_addrs (regions a) ! 64) \<and>
    kmap M s2 (page_containing P w) = Some (usable_addrs (regions a) ! 64)"
proof -
  have step: "\<exists>b. FRAME_ALLOCATOR t' = Some b \<and> Bitmap_full P b \<and>
      usable_addrs (regions b) ! 64 = usable_addrs (regions c) ! 64 \<and> kmap M t (page_containing P u) = None \<and>
      kmap M t' = (kmap M t)(page_containing P u \<mapsto> usable_addrs (regions c) ! 64)"
    if wf: "kmem_wf P M t" and c: "FRAME_ALLOCATOR t = Some c" "Bitmap_full P c"
      and k: "kpage_alloc P M u t = Ret (Ok (), t')" for t t' u c
  proof -
    obtain pt where pt: "PAGE_TABLE t = Some pt" and M: "mapper_doc M" using kmem_wfE [OF wf] by metis
    from k c pt obtain b pt' where
      ak: "alloc_kpage P (m_map_to M) (Bitmap_allocate_frame P) c u (Some pt) = Ret (Ok (), b, pt')"
      and t': "t' = t\<lparr>PAGE_TABLE := pt', FRAME_ALLOCATOR := Some b\<rparr>"
      by (auto simp: kpage_alloc_def outcome_simps)
    from M have "map_to_doc (m_map_to M) (m_translate M)" by (simp add: mapper_doc_def)
    from bfull.alloc_kpage_law [OF this c(2) ak] pt t' show ?thesis by (auto simp: kmap_def)
  qed
  obtain b where b: "FRAME_ALLOCATOR s1 = Some b" "Bitmap_full P b"
    "usable_addrs (regions b) ! 64 = usable_addrs (regions a) ! 64"
    "kmap M s1 = (kmap M s)(page_containing P v \<mapsto> usable_addrs (regions a) ! 64)"
    using step [OF assms(1-4)] by blast
  have "kmem_wf P M s1" using kpage_alloc_law [OF assms(1,4)] by simp
  from step [OF this b(1,2) assms(5)] b(3,4) show ?thesis by auto
qed

text \<open>Freeing a page that is not mapped panics instead of corrupting the allocator.\<close>

theorem kpage_free_unmapped_panics:
  assumes "kmem_wf P M s" and "kmap M s (page_containing P v) = None"
  shows "kpage_free P M v s = Panic"
proof -
  obtain pt a where "PAGE_TABLE s = Some pt" "FRAME_ALLOCATOR s = Some a" "mapper_doc M"
    using kmem_wfE [OF assms(1)] by metis
  moreover from this assms(2) obtain pt' where "m_unmap M (page_containing P v) pt = (Err (), pt')"
    by (auto simp: mapper_doc_def unmap_doc_def kmap_def dest!: spec [of _ "page_containing P v"]
        dest: spec [of _ pt] split: option.splits)
  ultimately show ?thesis by (simp add: kpage_free_def free_kpage_def)
qed

text \<open>
  Boot establishes the invariant: on a bootable machine \<open>init_frame_allocator\<close> returns with both
  globals set, the memory state well-formed and the frame allocator in the state from which
  allocations return.
\<close>

theorem init_frame_allocator_establishes:
  assumes "phys_doc P" and "virt_doc P" and "mapper_doc M" and "maps_window P map_boot rs"
    and "bootable rs" and "cr3 < 2 ^ 46"
  shows "\<exists>s' a. init_frame_allocator P M map_boot cr3 rs s = Ret s' \<and> kmem_wf P M s' \<and>
    FRAME_ALLOCATOR s' = Some a \<and> Bitmap_inv P a \<and> regions a = rs"
  by (rule init_frame_allocator_ready [OF assms])

subsection \<open>Witnesses\<close>

definition demo_mapper :: "(nat \<Rightarrow> nat option) mapper" where
  "demo_mapper =
     \<lparr>m_new = (\<lambda>_ _. Map.empty),
      m_map_to = (\<lambda>src pg fr pt a. if pt pg = None then Ret (Ok (), pt(pg \<mapsto> fr), a) else Ret (Err (), pt, a)),
      m_unmap = (\<lambda>pg pt. case pt pg of None \<Rightarrow> (Err (), pt) | Some fr \<Rightarrow> (Ok fr, pt(pg := None))),
      m_clean_up = (\<lambda>f p q pt a. Ret (pt, a)),
      m_translate = (\<lambda>pt. pt)\<rparr>"

definition demo_kmem :: "BitmapFrameAllocator \<Rightarrow> (nat \<Rightarrow> nat option) kmem" where
  "demo_kmem a = \<lparr>PAGE_TABLE = Some Map.empty, FRAME_ALLOCATOR = Some a\<rparr>"

lemma demo_mapper_doc: "mapper_doc demo_mapper"
  unfolding mapper_doc_def map_to_doc_def unmap_doc_def clean_up_doc_def demo_mapper_def
  by (auto split: if_splits option.splits intro: draws.intros exI [of _ 0] exI [of _ "[]"])

lemma demo_map_to_succeeds: "map_to_succeeds (m_map_to demo_mapper) (m_translate demo_mapper)"
  by (simp add: map_to_succeeds_def demo_mapper_def)

lemma demo_kmem_wf: "kmem_wf (doc_platform pr) demo_mapper (demo_kmem (demo_bitmap bm))"
  by (simp add: kmem_wf_def demo_mapper_doc demo_kmem_def demo_bitmap_def Bitmap_wf_def demo_wf)

lemma demo_kpage_alloc:
  assumes "v mod 4096 = 0"
  shows "kpage_alloc (doc_platform Dev) demo_mapper v (demo_kmem (demo_bitmap [0x8000000000000000, 0])) =
     Ret (Ok (), \<lparr>PAGE_TABLE = Some [v \<mapsto> 4096],
                  FRAME_ALLOCATOR = Some (demo_bitmap [0xC000000000000000, 0])\<rparr>)"
proof -
  have "page_containing (doc_platform Dev) v = v"
    using assms by (simp add: virt_docD(6) [OF virt_doc_doc_platform])
  then show ?thesis
    by (simp add: kpage_alloc_def alloc_kpage_def demo_kmem_def demo_allocate demo_mapper_def)
qed

lemma demo_kpage_free:
  assumes "v mod 4096 = 0"
  shows "kpage_free (doc_platform Dev) demo_mapper v
      \<lparr>PAGE_TABLE = Some [v \<mapsto> 4096], FRAME_ALLOCATOR = Some (demo_bitmap [0xC000000000000000, 0])\<rparr> =
     Ret (demo_kmem (demo_bitmap [0x8000000000000000, 0]))"
proof -
  have "page_containing (doc_platform Dev) v = v"
    using assms by (simp add: virt_docD(6) [OF virt_doc_doc_platform])
  then show ?thesis
    by (simp add: kpage_free_def free_kpage_def demo_kmem_def demo_deallocate demo_mapper_def)
qed

theorem kpage_alloc_maps_one_page_witness:
  "\<exists>s'. kpage_alloc (doc_platform Dev) demo_mapper 8192 (demo_kmem (demo_bitmap [0x8000000000000000, 0])) =
     Ret (Ok (), s') \<and> kmem_wf (doc_platform Dev) demo_mapper s'"
  using kpage_alloc_maps_one_page [OF demo_kmem_wf demo_kpage_alloc, of 8192] demo_kpage_alloc [of 8192] by auto

lemma demo_ready: "kmem_ready (doc_platform pr) demo_mapper (demo_kmem (demo_bitmap [- 1, 0]))"
  using demo_kmem_wf [of pr "[- 1, 0]"] demo_map_to_succeeds demo_full [of pr]
  by (simp add: kmem_ready_def demo_kmem_def Bitmap_full_def)

theorem kpage_alloc_succeeds_witness:
  "\<exists>s'. kpage_alloc (doc_platform Dev) demo_mapper 8192 (demo_kmem (demo_bitmap [- 1, 0])) = Ret (Ok (), s')"
  using kpage_alloc_succeeds [OF demo_ready, of Dev 8192] by (auto simp: demo_kmem_def kmap_def demo_mapper_def)

theorem kpage_alloc_aliases_witness:
  "\<exists>s1 s2. kpage_alloc (doc_platform Dev) demo_mapper 0 (demo_kmem (demo_bitmap [- 1, 0])) = Ret (Ok (), s1) \<and>
     kpage_alloc (doc_platform Dev) demo_mapper 4096 s1 = Ret (Ok (), s2) \<and>
     kmap demo_mapper s2 0 = Some (64 * 4096) \<and> kmap demo_mapper s2 4096 = Some (64 * 4096)"
proof -
  let ?P = "doc_platform Dev"
  note pg = virt_docD(6) [OF virt_doc_doc_platform [of Dev]]
  obtain bm where bm: "Bitmap_allocate_frame ?P (demo_bitmap [- 1, 0]) =
      Ret (Some (64 * 4096), (demo_bitmap [- 1, 0])\<lparr>bitmap := bm\<rparr>)" "Bitmap_full ?P ((demo_bitmap [- 1, 0])\<lparr>bitmap := bm\<rparr>)"
    using Bitmap_full_step [OF demo_full [of Dev]] by (auto simp: demo_bitmap_def demo_addrs nth_append)
  let ?a = "(demo_bitmap [- 1, 0])\<lparr>bitmap := bm\<rparr>"
  obtain c where c: "Bitmap_allocate_frame ?P ?a = Ret (Some (64 * 4096), c)"
    using Bitmap_full_step [OF bm(2)] by (auto simp: demo_bitmap_def demo_addrs nth_append)
  let ?s1 = "\<lparr>PAGE_TABLE = Some [0 \<mapsto> 64 * 4096], FRAME_ALLOCATOR = Some ?a\<rparr>"
  let ?s2 = "\<lparr>PAGE_TABLE = Some [0 \<mapsto> 64 * 4096, 4096 \<mapsto> 64 * 4096], FRAME_ALLOCATOR = Some c\<rparr>"
  have s1: "kpage_alloc ?P demo_mapper 0 (demo_kmem (demo_bitmap [- 1, 0])) = Ret (Ok (), ?s1)"
    using bm(1) by (simp add: kpage_alloc_def alloc_kpage_def demo_kmem_def demo_mapper_def pg)
  have s2: "kpage_alloc ?P demo_mapper 4096 ?s1 = Ret (Ok (), ?s2)"
    using c by (simp add: kpage_alloc_def alloc_kpage_def demo_mapper_def pg)
  from kpage_alloc_aliases [OF demo_kmem_wf _ demo_full s1 s2] s1 s2 show ?thesis
    by (auto simp: demo_kmem_def pg demo_bitmap_def demo_addrs nth_append)
qed

theorem kpage_free_unmapped_panics_witness:
  "kmap demo_mapper (demo_kmem (demo_bitmap [])) 0 = None \<and>
   kpage_free (doc_platform Dev) demo_mapper 0 (demo_kmem (demo_bitmap [])) = Panic"
  using kpage_free_unmapped_panics [OF demo_kmem_wf, of "[]" Dev 0]
  by (simp add: kmap_def demo_kmem_def demo_mapper_def)

lemma demo_boot_window: "maps_window P (\<lambda>src pg fr pt a. Ret (Ok (), pt, a)) demo_regions"
  unfolding maps_window_def by (blast intro: draws.intros)

theorem init_frame_allocator_establishes_witness:
  "bootable demo_regions \<and>
   (\<exists>s'. init_frame_allocator (doc_platform Dev) demo_mapper (\<lambda>src pg fr pt a. Ret (Ok (), pt, a)) 4096
      demo_regions \<lparr>PAGE_TABLE = None, FRAME_ALLOCATOR = None\<rparr> = Ret s' \<and>
      kmem_wf (doc_platform Dev) demo_mapper s')"
  using init_frame_allocator_establishes [OF phys_doc_doc_platform virt_doc_doc_platform demo_mapper_doc
      demo_boot_window demo_bootable, of 4096 Dev "\<lparr>PAGE_TABLE = None, FRAME_ALLOCATOR = None\<rparr>"] demo_bootable
  by auto

end
