(* ===== verification/Page_Allocator.thy ===== *)
theory Page_Allocator
  imports Kernel_Pages
begin

text \<open>
  \<open>memory/allocator/page.rs\<close>: the allocator of whole virtual pages.  Its free list is a chain of
  entry pages, each a page-sized array of 170 entries.  The chain \<open>self, self.next, ...\<close> is a
  list of \<open>FPAInner\<close> records, the first of which is \<open>self\<close>; \<open>fpa_addr\<close> is the address at which
  the page lives, \<open>prev\<close> and \<open>next\<close> are its neighbours in the list.  \<open>None\<close> in the allocator's
  \<open>inner\<close> is the empty chain.
\<close>

datatype Entry = Empty | Usable nat nat   \<comment> \<open>start address, number of pages\<close>

definition ENTRIES_LEN :: nat where
  "ENTRIES_LEN = 170"

record FPAInner =
  fpa_addr :: nat
  entries :: "Entry list"

definition fresh_page :: "nat \<Rightarrow> FPAInner" where
  "fresh_page addr = \<lparr>fpa_addr = addr, entries = replicate ENTRIES_LEN Empty\<rparr>"

subsection \<open>Searching\<close>

text \<open>The scan of one page: \<open>Some r\<close> if it returns from the function, \<open>None\<close> if the loop falls
  through to the next page.\<close>

fun find_in_entries :: "Entry list \<Rightarrow> nat \<Rightarrow> nat option option" where
  "find_in_entries [] req_pages = None"
| "find_in_entries (Empty # es) req_pages = Some None"
| "find_in_entries (Usable start pages # es) req_pages =
     (if req_pages \<le> pages then Some (Some start) else find_in_entries es req_pages)"

fun find_free_pages :: "FPAInner list \<Rightarrow> nat \<Rightarrow> nat option" where
  "find_free_pages [] req_pages = None"
| "find_free_pages (f # fs) req_pages =
     (case find_in_entries (entries f) req_pages of
        Some r \<Rightarrow> r
      | None \<Rightarrow> find_free_pages fs req_pages)"

subsection \<open>Removing entries\<close>

definition remove_entry_page ::
  "'s kpages \<Rightarrow> FPAInner list \<Rightarrow> 's \<Rightarrow> (FPAInner list \<times> 's) outcome" where
  "remove_entry_page K chain s =
     (if chain = [] then Panic
      else obind (kp_lock K s) (\<lambda>_.
           obind (kp_free K (fpa_addr (last chain)) s) (\<lambda>s. Ret (butlast chain, s))))"

fun remove_entry ::
  "'s kpages \<Rightarrow> FPAInner list \<Rightarrow> nat \<Rightarrow> 's \<Rightarrow> (Entry \<times> FPAInner list \<times> 's) outcome" where
  "remove_entry K [] idx s = Panic"
| "remove_entry K (f # fs) idx s =
     obind (if fs = [] then Ret (None, [], s)
            else obind (remove_entry K fs 0 s) (\<lambda>(e, fs, s). Ret (Some e, fs, s))) (\<lambda>(end, fs, s).
     if idx < length (entries f) then
       (let entry = entries f ! idx in
        obind (copy_within ((entries f)[idx := Empty]) (idx + 1) ENTRIES_LEN idx) (\<lambda>es.
        case end of
          None \<Rightarrow> Ret (entry, f\<lparr>entries := es\<rparr> # fs, s)
        | Some Empty \<Rightarrow>
            obind (remove_entry_page K (f\<lparr>entries := es\<rparr> # fs) s) (\<lambda>(chain, s). Ret (entry, chain, s))
        | Some end \<Rightarrow> Ret (entry, f\<lparr>entries := es[ENTRIES_LEN - 1 := end]\<rparr> # fs, s)))
     else Panic)"

subsection \<open>Taking pages\<close>

text \<open>Again \<open>Some None\<close> is the early \<open>return\<close>, \<open>Some (Some (i, p))\<close> the matching entry.\<close>

fun alloc_scan :: "nat \<Rightarrow> Entry list \<Rightarrow> nat \<Rightarrow> (nat \<times> nat) option option" where
  "alloc_scan i [] start = None"
| "alloc_scan i (Empty # es) start = Some None"
| "alloc_scan i (Usable s p # es) start =
     (if s \<noteq> start then alloc_scan (Suc i) es start else Some (Some (i, p)))"

fun alloc_pages ::
  "platform \<Rightarrow> 's kpages \<Rightarrow> FPAInner list \<Rightarrow> nat \<Rightarrow> nat \<Rightarrow> 's \<Rightarrow> (FPAInner list \<times> 's) outcome" where
  "alloc_pages P K [] start pages s = Panic"
| "alloc_pages P K (f # fs) start pages s =
     (case alloc_scan 0 (entries f) start of
        Some None \<Rightarrow> Ret (f # fs, s)
      | Some (Some (i, p)) \<Rightarrow>
          if p = pages then
            obind (remove_entry K (f # fs) i s) (\<lambda>(_, chain, s). Ret (chain, s))
          else
            obind (mul64 (prof P) pages 4096) (\<lambda>off.
            obind (virt_add P start off) (\<lambda>start'.
            obind (sub64 (prof P) p pages) (\<lambda>p'.
            Ret (f\<lparr>entries := (entries f)[i := Usable start' p']\<rparr> # fs, s))))
      | None \<Rightarrow>
          if fs = [] then Panic
          else obind (alloc_pages P K fs start pages s) (\<lambda>(fs, s). Ret (f # fs, s)))"

subsection \<open>Entry pages\<close>

definition add_first_page ::
  "platform \<Rightarrow> 's kpages \<Rightarrow> 's \<Rightarrow> ((AllocError, unit) result \<times> FPAInner list \<times> 's) outcome" where
  "add_first_page P K s =
     obind (kp_lock K s) (\<lambda>_.
     obind (kp_alloc K (ALLOCATOR_START P) s) (\<lambda>(r, s).
     case r of
       Err e \<Rightarrow> Ret (Err e, [], s)
     | Ok _ \<Rightarrow>
         obind (virt_add P (ALLOCATOR_START P) 4096) (\<lambda>start.
         obind (virt_sub P (virt_align_up P (ALLOCATOR_END P) 4096) (ALLOCATOR_START P)) (\<lambda>len.
         obind (add64 (prof P) len 4096) (\<lambda>len.
         Ret (Ok (), [(fresh_page (ALLOCATOR_START P))\<lparr>entries :=
                (replicate ENTRIES_LEN Empty)[0 := Usable start (len div 4096)]\<rparr>], s))))))"

definition add_entry_page ::
  "platform \<Rightarrow> 's kpages \<Rightarrow> FPAInner list \<Rightarrow> 's \<Rightarrow>
   ((AllocError, unit) result \<times> FPAInner list \<times> 's) outcome" where
  "add_entry_page P K inner s =
     (if inner = [] then add_first_page P K s
      else
        case find_free_pages inner 1 of
          None \<Rightarrow> Ret (Err AllocError, inner, s)
        | Some free_page \<Rightarrow>
            obind (alloc_pages P K inner free_page 1 s) (\<lambda>(inner, s).
            obind (kp_lock K s) (\<lambda>_.
            obind (kp_alloc K free_page s) (\<lambda>(r, s).
            case r of
              Err e \<Rightarrow> Ret (Err e, inner, s)
            | Ok _ \<Rightarrow> Ret (Ok (), [hd inner, fresh_page free_page], s)))))"

definition init_or_get ::
  "platform \<Rightarrow> 's kpages \<Rightarrow> FPAInner list \<Rightarrow> 's \<Rightarrow>
   ((AllocError, unit) result \<times> FPAInner list \<times> 's) outcome" where
  "init_or_get P K inner s =
     (if inner = [] then add_entry_page P K inner s else Ret (Ok (), inner, s))"

subsection \<open>Inserting entries\<close>

text \<open>
  \<open>insert_entry\<close> and \<open>append_entry\<close> recurse into the next page, or into the page they have just
  appended.  The appended page is empty, so that second recursion goes no deeper.
\<close>

lemma add_entry_page_fresh:
  assumes "add_entry_page P K (f # fs) s = Ret (Ok u, chain, s')"
  obtains a where "tl chain = [fresh_page a]"
  using assms by (auto simp: add_entry_page_def outcome_simps split: option.splits result.splits)

definition is_Empty :: "Entry \<Rightarrow> bool" where
  "is_Empty e = (case e of Empty \<Rightarrow> True | Usable _ _ \<Rightarrow> False)"

fun chain_weight :: "FPAInner list \<Rightarrow> nat" where
  "chain_weight [] = 0"
| "chain_weight (f # fs) = 2 * length fs + (if is_Empty (entries f ! (ENTRIES_LEN - 1)) then 1 else 2)"

lemma chain_weight_fresh: "chain_weight [fresh_page a] = 1"
  by (simp add: fresh_page_def ENTRIES_LEN_def is_Empty_def)

lemma chain_weight_bound: "chain_weight fs \<le> 2 * length fs"
  by (cases fs) simp_all

function insert_entry ::
  "platform \<Rightarrow> 's kpages \<Rightarrow> FPAInner list \<Rightarrow> nat \<Rightarrow> Entry \<Rightarrow> 's \<Rightarrow>
   ((AllocError, unit) result \<times> FPAInner list \<times> 's) outcome" where
  "insert_entry P K [] idx entry s = Panic"
| "insert_entry P K (f # fs) idx entry s =
     obind (if is_Empty (entries f ! (ENTRIES_LEN - 1)) then Ret (Ok (), f # fs, s)
            else if fs \<noteq> [] then
              obind (insert_entry P K fs 0 (entries f ! (ENTRIES_LEN - 1)) s) (\<lambda>(r, fs, s). Ret (r, f # fs, s))
            else
              obind (add_entry_page P K [f] s) (\<lambda>(r, chain, s).
              case r of
                Err e \<Rightarrow> Ret (Err e, chain, s)
              | Ok _ \<Rightarrow>
                  obind (insert_entry P K (tl chain) 0 (entries f ! (ENTRIES_LEN - 1)) s) (\<lambda>(r, fs, s).
                  Ret (r, hd chain # fs, s)))) (\<lambda>(r, chain, s).
     case r of
       Err e \<Rightarrow> Ret (Err e, chain, s)
     | Ok _ \<Rightarrow>
         obind (copy_within (entries (hd chain)) idx (ENTRIES_LEN - 1) (idx + 1)) (\<lambda>es.
         if idx < length es then Ret (Ok (), (hd chain)\<lparr>entries := es[idx := entry]\<rparr> # tl chain, s)
         else Panic))"
  by pat_completeness auto

termination
proof (relation "measure (\<lambda>(P, K, chain, idx, entry, s). chain_weight chain)", goal_cases)
  case (2 P K f fs idx entry s)
  then show ?case using chain_weight_bound [of fs] by simp
next
  case (3 P K f fs idx entry s x r y chain s' u)
  then obtain a where "tl chain = [fresh_page a]" by (auto elim: add_entry_page_fresh)
  with 3 show ?case using chain_weight_fresh [of a] by simp
qed simp

fun first_empty :: "Entry list \<Rightarrow> nat option" where
  "first_empty [] = None"
| "first_empty (e # es) = (if is_Empty e then Some 0 else map_option Suc (first_empty es))"

lemma first_empty_fresh: "first_empty (entries (fresh_page a)) = Some 0"
  by (simp add: fresh_page_def ENTRIES_LEN_def numeral_eq_Suc is_Empty_def)

function append_entry ::
  "platform \<Rightarrow> 's kpages \<Rightarrow> FPAInner list \<Rightarrow> Entry \<Rightarrow> 's \<Rightarrow>
   ((AllocError, unit) result \<times> FPAInner list \<times> 's) outcome" where
  "append_entry P K [] entry s = Panic"
| "append_entry P K (f # fs) entry s =
     (case first_empty (entries f) of
        Some idx \<Rightarrow> Ret (Ok (), f\<lparr>entries := (entries f)[idx := entry]\<rparr> # fs, s)
      | None \<Rightarrow>
          if fs \<noteq> [] then
            obind (append_entry P K fs entry s) (\<lambda>(r, fs, s). Ret (r, f # fs, s))
          else
            obind (add_entry_page P K [f] s) (\<lambda>(r, chain, s).
            case r of
              Err e \<Rightarrow> Ret (Err e, chain, s)
            | Ok _ \<Rightarrow>
                obind (append_entry P K (tl chain) entry s) (\<lambda>(r, fs, s). Ret (r, hd chain # fs, s))))"
  by pat_completeness auto

termination
proof (relation "measure (\<lambda>(P, K, chain, entry, s). 2 * length chain +
    (if chain \<noteq> [] \<and> first_empty (entries (hd chain)) = None then 1 else 0))", goal_cases)
  case (3 P K f fs entry s x r y chain s' u)
  then obtain a where "tl chain = [fresh_page a]" by (auto elim: add_entry_page_fresh)
  with 3 show ?case using first_empty_fresh [of a] by simp
qed simp_all

subsection \<open>Giving pages back\<close>

text \<open>
  The \<open>while\<close> loop of \<open>squash_entries\<close> does not advance when it merges two entries; a page full of
  entries of zero pages makes it run forever, which is the value \<open>None\<close>.
\<close>

partial_function (option) squash_loop ::
  "platform \<Rightarrow> 's kpages \<Rightarrow> nat \<Rightarrow> FPAInner list \<Rightarrow> 's \<Rightarrow> (bool \<times> FPAInner list \<times> 's) outcome option" where
  "squash_loop P K i chain s =
     (if i < ENTRIES_LEN - 1 then
        (case entries (hd chain) ! i of
           Empty \<Rightarrow> Some (Ret (False, chain, s))
         | Usable start pages \<Rightarrow>
             (case entries (hd chain) ! (i + 1) of
                Empty \<Rightarrow> Some (Ret (False, chain, s))
              | Usable next_start next_pages \<Rightarrow>
                  (case obind (mul64 (prof P) pages 4096) (virt_add P start) of
                     Panic \<Rightarrow> Some Panic
                   | Spin \<Rightarrow> Some Spin
                   | Ret e \<Rightarrow>
                       if e = next_start then
                         (case obind (add64 (prof P) pages next_pages) (\<lambda>total.
                               remove_entry K ((hd chain)\<lparr>entries := (entries (hd chain))[i := Usable start total]\<rparr>
                                 # tl chain) (i + 1) s) of
                            Panic \<Rightarrow> Some Panic
                          | Spin \<Rightarrow> Some Spin
                          | Ret y \<Rightarrow> squash_loop P K i (fst (snd y)) (snd (snd y)))
                       else squash_loop P K (i + 1) chain s)))
      else Some (Ret (True, chain, s)))"

partial_function (option) squash_entries ::
  "platform \<Rightarrow> 's kpages \<Rightarrow> FPAInner list \<Rightarrow> 's \<Rightarrow> (FPAInner list \<times> 's) outcome option" where
  "squash_entries P K chain s =
     (case squash_loop P K 0 chain s of
        None \<Rightarrow> None
      | Some Panic \<Rightarrow> Some Panic
      | Some Spin \<Rightarrow> Some Spin
      | Some (Ret (returned, chain, s)) \<Rightarrow>
          if \<not> returned \<or> tl chain = [] then Some (Ret (chain, s))
          else Option.bind (squash_entries P K (tl chain) s) (\<lambda>r.
               Some (obind r (\<lambda>(fs, s). Ret (hd chain # fs, s)))))"

fun dealloc_scan :: "nat \<Rightarrow> Entry list \<Rightarrow> nat \<Rightarrow> (nat \<times> nat \<times> nat) option option" where
  "dealloc_scan i [] start = None"
| "dealloc_scan i (Empty # es) start = Some None"
| "dealloc_scan i (Usable s p # es) start =
     (if s < start then dealloc_scan (Suc i) es start else Some (Some (i, s, p)))"

text \<open>The common tail \<open>...?; self.squash_entries(); Ok(())\<close> of the two branches that add an entry.\<close>

definition then_squash ::
  "platform \<Rightarrow> 's kpages \<Rightarrow> ((AllocError, unit) result \<times> FPAInner list \<times> 's) outcome \<Rightarrow>
   ((AllocError, unit) result \<times> FPAInner list \<times> 's) outcome option" where
  "then_squash P K m =
     (case m of
        Panic \<Rightarrow> Some Panic
      | Spin \<Rightarrow> Some Spin
      | Ret (Err e, chain, s) \<Rightarrow> Some (Ret (Err e, chain, s))
      | Ret (Ok _, chain, s) \<Rightarrow>
          map_option (\<lambda>r. obind r (\<lambda>(chain, s). Ret (Ok (), chain, s))) (squash_entries P K chain s))"

fun dealloc_pages ::
  "platform \<Rightarrow> 's kpages \<Rightarrow> FPAInner list \<Rightarrow> nat \<Rightarrow> nat \<Rightarrow> 's \<Rightarrow>
   ((AllocError, unit) result \<times> FPAInner list \<times> 's) outcome option" where
  "dealloc_pages P K [] start pages s = Some Panic"
| "dealloc_pages P K (f # fs) start pages s =
     (case dealloc_scan 0 (entries f) start of
        Some None \<Rightarrow> Some (Ret (Ok (), f # fs, s))
      | Some (Some (i, s0, p)) \<Rightarrow>
          (case obind (mul64 (prof P) pages 4096) (virt_add P start) of
             Panic \<Rightarrow> Some Panic
           | Spin \<Rightarrow> Some Spin
           | Ret e \<Rightarrow>
               if s0 = e then
                 Some (obind (add64 (prof P) p pages) (\<lambda>total.
                       Ret (Ok (), f\<lparr>entries := (entries f)[i := Usable start total]\<rparr> # fs, s)))
               else then_squash P K (insert_entry P K (f # fs) i (Usable start pages) s))
      | None \<Rightarrow>
          if fs \<noteq> [] then
            map_option (\<lambda>r. obind r (\<lambda>(q, fs, s). Ret (q, f # fs, s))) (dealloc_pages P K fs start pages s)
          else then_squash P K (append_entry P K [f] (Usable start pages) s))"

subsection \<open>The allocator interface\<close>

fun map_range :: "platform \<Rightarrow> 's kpages \<Rightarrow> nat \<Rightarrow> nat list \<Rightarrow> 's \<Rightarrow>
    ((AllocError, unit) result \<times> 's) outcome" where
  "map_range P K addr [] s = Ret (Ok (), s)"
| "map_range P K addr (i # is) s =
     obind (mul64 (prof P) i 4096) (\<lambda>off.
     obind (virt_add P addr off) (\<lambda>page.
     obind (kp_alloc K page s) (\<lambda>(r, s).
     case r of
       Err e \<Rightarrow> Ret (Err e, s)
     | Ok _ \<Rightarrow> map_range P K addr is s)))"

text \<open>A successful allocation is a pair: the address and the length of the slice.\<close>

definition FPA_allocate ::
  "platform \<Rightarrow> 's kpages \<Rightarrow> nat \<Rightarrow> FPAInner list \<Rightarrow> 's \<Rightarrow>
   ((AllocError, nat \<times> nat) result \<times> FPAInner list \<times> 's) outcome" where
  "FPA_allocate P K sz inner s =
     (let num_pages = div_ceil sz 4096 in
      obind (init_or_get P K inner s) (\<lambda>(r, inner, s).
      case r of
        Err e \<Rightarrow> Ret (Err e, inner, s)
      | Ok _ \<Rightarrow>
          (case find_free_pages inner num_pages of
             None \<Rightarrow> Ret (Err AllocError, inner, s)
           | Some addr \<Rightarrow>
               obind (alloc_pages P K inner addr num_pages s) (\<lambda>(inner, s).
               obind (kp_lock K s) (\<lambda>_.
               obind (map_range P K addr [0..<num_pages] s) (\<lambda>(r, s).
               case r of
                 Err e \<Rightarrow> Ret (Err e, inner, s)
               | Ok _ \<Rightarrow>
                   if addr = 0 then Ret (Err AllocError, inner, s)
                   else Ret (Ok (addr, sz), inner, s)))))))"

definition FPA_deallocate ::
  "platform \<Rightarrow> 's kpages \<Rightarrow> nat \<Rightarrow> nat \<Rightarrow> 's \<Rightarrow> 's outcome" where
  "FPA_deallocate P K ptr sz s =
     (let num_pages = div_ceil sz 4096 in
      obind (virt_from_ptr P ptr) (\<lambda>a.
      obind (mul64 (prof P) 4096 num_pages) (\<lambda>off.
      obind (virt_add P a off) (\<lambda>b.
      obind (kp_lock K s) (\<lambda>_.
      ofold (\<lambda>s page. kp_free K page s) s (step_by (page_containing P a) (page_containing P b) 4096))))))"

definition FPA_alloc ::
  "platform \<Rightarrow> 's kpages \<Rightarrow> nat \<Rightarrow> FPAInner list \<Rightarrow> 's \<Rightarrow> (nat \<times> FPAInner list \<times> 's) outcome" where
  "FPA_alloc P K sz inner s =
     obind (FPA_allocate P K sz inner s) (\<lambda>(r, inner, s).
     Ret (case r of Ok (addr, _) \<Rightarrow> addr | Err _ \<Rightarrow> 0, inner, s))"

definition FPA_dealloc :: "platform \<Rightarrow> 's kpages \<Rightarrow> nat \<Rightarrow> nat \<Rightarrow> 's \<Rightarrow> 's outcome" where
  "FPA_dealloc P K ptr sz s = FPA_deallocate P K ptr sz s"

subsection \<open>The free list in operation\<close>

text \<open>
  \<open>deallocate\<close> never gives virtual pages back to the free list, so in operation the list is one
  entry that shrinks from its front: \<open>bump_chain P k\<close> is the chain after \<open>k\<close> pages have been
  taken out of the \<open>POOL_PAGES\<close> with which it was initialised.
\<close>

definition POOL_PAGES :: nat where
  "POOL_PAGES = 0x1F0000001"

definition pool_addr :: "platform \<Rightarrow> nat \<Rightarrow> nat" where
  "pool_addr P k = ALLOCATOR_START P + 4096 + k * 4096"

definition bump_chain :: "platform \<Rightarrow> nat \<Rightarrow> FPAInner list" where
  "bump_chain P k =
     [if k < POOL_PAGES
      then (fresh_page (ALLOCATOR_START P))\<lparr>entries :=
             (replicate ENTRIES_LEN Empty)[0 := Usable (pool_addr P k) (POOL_PAGES - k)]\<rparr>
      else fresh_page (ALLOCATOR_START P)]"

text \<open>\<open>fpa_at P c k\<close>: the allocator is uninitialised, or \<open>k\<close> pages have been taken.\<close>

definition fpa_at :: "platform \<Rightarrow> FPAInner list \<Rightarrow> nat \<Rightarrow> bool" where
  "fpa_at P chain k \<longleftrightarrow> chain = [] \<and> k = 0 \<or> chain = bump_chain P k"

lemma replicate_170: "replicate ENTRIES_LEN Empty = Empty # replicate 169 Empty"
  by (simp add: ENTRIES_LEN_def replicate_Suc [symmetric] del: replicate_Suc)

lemma pool_canonical:
  assumes "virt_doc P" and "k \<le> POOL_PAGES"
  shows "canonical (pool_addr P k)"
  using assms(2) by (simp add: canonical_def pool_addr_def POOL_PAGES_def layout_values [OF assms(1)])

lemma pool_add:
  assumes "virt_doc P" and "k + n \<le> POOL_PAGES"
  shows "mul64 pr n 4096 = Ret (n * 4096)" and "virt_add P (pool_addr P k) (n * 4096) = Ret (pool_addr P (k + n))"
proof -
  show "mul64 pr n 4096 = Ret (n * 4096)" using assms(2) by (simp add: POOL_PAGES_def)
  have "pool_addr P k + n * 4096 = pool_addr P (k + n)" by (simp add: pool_addr_def)
  moreover have "canonical (pool_addr P k)" "canonical (pool_addr P (k + n))"
    using pool_canonical [OF assms(1)] assms(2) by auto
  ultimately show "virt_add P (pool_addr P k) (n * 4096) = Ret (pool_addr P (k + n))"
    using virt_docD(2) [OF assms(1), of "pool_addr P k" "n * 4096"] by simp
qed

lemma replicate_169: "replicate 169 Empty = Empty # replicate 168 Empty"
  by (simp add: replicate_Suc [symmetric] del: replicate_Suc)

lemma find_in_entries_Empty: "find_in_entries (replicate 169 Empty) n = Some None"
  by (simp add: replicate_169)

lemma find_free_pages_bump:
  "find_free_pages (bump_chain P k) n =
     (if k < POOL_PAGES \<and> k + n \<le> POOL_PAGES then Some (pool_addr P k) else None)"
  by (auto simp: bump_chain_def fresh_page_def replicate_170 find_in_entries_Empty)

lemma remove_only_entry:
  "remove_entry K [(fresh_page a)\<lparr>entries := (replicate ENTRIES_LEN Empty)[0 := e]\<rparr>] 0 s =
     Ret (e, [fresh_page a], s)"
proof -
  have "copy_within (replicate ENTRIES_LEN Empty) (Suc 0) ENTRIES_LEN 0 = Ret (replicate ENTRIES_LEN Empty)"
    by (simp add: copy_within_def ENTRIES_LEN_def replicate_append_same [symmetric]
        replicate_Suc [symmetric] replicate_add [symmetric] del: replicate_Suc)
  moreover have "(replicate ENTRIES_LEN Empty)[0 := Empty] = replicate ENTRIES_LEN Empty" "0 < ENTRIES_LEN"
    by (simp add: replicate_170, simp add: ENTRIES_LEN_def)
  ultimately show ?thesis by (simp add: fresh_page_def)
qed

lemma alloc_pages_bump:
  assumes "virt_doc P" and "k < POOL_PAGES" and "k + n \<le> POOL_PAGES"
  shows "alloc_pages P K (bump_chain P k) (pool_addr P k) n s = Ret (bump_chain P (k + n), s)"
proof (cases "k + n = POOL_PAGES")
  case True
  then have n: "POOL_PAGES - k = n" by simp
  have "alloc_scan 0 ((replicate ENTRIES_LEN Empty)[0 := Usable (pool_addr P k) n]) (pool_addr P k) = Some (Some (0, n))"
    by (simp add: replicate_170)
  with remove_only_entry [where a = "ALLOCATOR_START P" and e = "Usable (pool_addr P k) n"
      and K = K and s = s] True n assms(2) show ?thesis
    by (simp add: bump_chain_def del: remove_entry.simps)
next
  case False
  with assms(3) have lt: "k + n < POOL_PAGES" by simp
  then have "POOL_PAGES - k \<noteq> n" "n \<le> POOL_PAGES - k" by simp_all
  with lt assms pool_add [OF assms(1,3)] show ?thesis
    by (simp add: bump_chain_def replicate_170 fresh_page_def)
qed

lemma add_first_page_bump:
  assumes "virt_doc P"
  shows "add_first_page P K s =
    obind (kp_lock K s) (\<lambda>_.
    obind (kp_alloc K (ALLOCATOR_START P) s) (\<lambda>(r, s).
    case r of Err e \<Rightarrow> Ret (Err e, [], s) | Ok _ \<Rightarrow> Ret (Ok (), bump_chain P 0, s)))"
proof -
  have "virt_add P (ALLOCATOR_START P) 4096 = Ret (pool_addr P 0)"
    using virt_docD(2) [OF assms, of "ALLOCATOR_START P" 4096]
    by (simp add: layout_values [OF assms] canonical_def pool_addr_def)
  moreover have "virt_align_up P (ALLOCATOR_END P) 4096 = 0xffffe80000000000"
    using virt_docD(4) [OF assms, of "ALLOCATOR_END P"]
    by (simp add: layout_values [OF assms] canonical_def)
  moreover have "virt_sub P 0xffffe80000000000 (ALLOCATOR_START P) = Ret 0x1F0000000000"
    using virt_docD(3) [OF assms, of "ALLOCATOR_START P" "0xffffe80000000000"]
    by (simp add: layout_values [OF assms])
  ultimately show ?thesis
    by (simp add: add_first_page_def bump_chain_def POOL_PAGES_def cong: result.case_cong)
qed

lemma FPA_allocate_bump:
  assumes "virt_doc P"
  shows "FPA_allocate P K sz (bump_chain P k) s =
    (let n = div_ceil sz 4096 in
     if k < POOL_PAGES \<and> k + n \<le> POOL_PAGES then
       obind (kp_lock K s) (\<lambda>_.
       obind (map_range P K (pool_addr P k) [0..<n] s) (\<lambda>(r, s).
       case r of
         Err e \<Rightarrow> Ret (Err e, bump_chain P (k + n), s)
       | Ok _ \<Rightarrow> Ret (Ok (pool_addr P k, sz), bump_chain P (k + n), s)))
     else Ret (Err AllocError, bump_chain P k, s))"
proof -
  have "bump_chain P k \<noteq> []" by (simp add: bump_chain_def)
  moreover have "pool_addr P k \<noteq> 0" by (simp add: pool_addr_def)
  ultimately show ?thesis
    using alloc_pages_bump [OF assms, of k "div_ceil sz 4096" K s]
    by (cases "k < POOL_PAGES \<and> k + div_ceil sz 4096 \<le> POOL_PAGES")
      (auto simp: FPA_allocate_def init_or_get_def find_free_pages_bump Let_def cong: result.case_cong)
qed

lemma FPA_allocate_Nil:
  assumes "virt_doc P"
  shows "FPA_allocate P K sz [] s =
    obind (add_first_page P K s) (\<lambda>(r, c, s).
    case r of Err e \<Rightarrow> Ret (Err e, c, s) | Ok _ \<Rightarrow> FPA_allocate P K sz c s)"
  by (auto simp: FPA_allocate_def init_or_get_def add_entry_page_def add_first_page_bump [OF assms] Let_def
      obind_assoc bump_chain_def intro!: obind_cong split: result.splits)

lemma FPA_allocate_cases:
  assumes "virt_doc P" and "fpa_at P c k" and "FPA_allocate P K sz c s = Ret (r, c', s')"
    and "k \<le> POOL_PAGES"
  shows "case r of
      Ok (a, n) \<Rightarrow> a = pool_addr P k \<and> n = sz \<and> k + div_ceil sz 4096 \<le> POOL_PAGES \<and>
        c' = bump_chain P (k + div_ceil sz 4096)
    | Err _ \<Rightarrow> \<exists>k'. k \<le> k' \<and> k' \<le> POOL_PAGES \<and> fpa_at P c' k'"
proof -
  have main: "case r of
      Ok (a, n) \<Rightarrow> a = pool_addr P k \<and> n = sz \<and> k + div_ceil sz 4096 \<le> POOL_PAGES \<and>
        c' = bump_chain P (k + div_ceil sz 4096)
    | Err _ \<Rightarrow> \<exists>k'. k \<le> k' \<and> k' \<le> POOL_PAGES \<and> fpa_at P c' k'"
    if all: "FPA_allocate P K sz (bump_chain P k) t = Ret (r, c', s')" for t
  proof (cases "k < POOL_PAGES \<and> k + div_ceil sz 4096 \<le> POOL_PAGES")
    case True
    with all obtain q :: "(AllocError, unit) result" and u where "(case q of Err e \<Rightarrow> Ret (Err e, bump_chain P (k + div_ceil sz 4096), u)
        | Ok _ \<Rightarrow> Ret (Ok (pool_addr P k, sz), bump_chain P (k + div_ceil sz 4096), u)) = Ret (r, c', s')"
      by (auto simp: FPA_allocate_bump [OF assms(1)] Let_def outcome_simps)
    with True show ?thesis by (cases q) (auto simp: fpa_at_def intro!: exI [of _ "k + div_ceil sz 4096"])
  next
    case False
    with all show ?thesis
      by (auto simp: FPA_allocate_bump [OF assms(1)] Let_def fpa_at_def assms(4) intro!: exI [of _ k])
  qed
  show ?thesis
  proof (cases "c = []")
    case True
    with assms(2) have k: "k = 0" by (auto simp: fpa_at_def bump_chain_def)
    from assms(3) True obtain q :: "(AllocError, unit) result" and d t where ad: "add_first_page P K s = Ret (q, d, t)"
      and rest: "(case q of Err e \<Rightarrow> Ret (Err e, d, t) | Ok _ \<Rightarrow> FPA_allocate P K sz d t) = Ret (r, c', s')"
      by (auto simp: FPA_allocate_Nil [OF assms(1)] outcome_simps)
    from ad have d: "case q of Err _ \<Rightarrow> d = [] | Ok _ \<Rightarrow> d = bump_chain P 0"
      by (auto simp: add_first_page_bump [OF assms(1)] outcome_simps neq_Ok_unit neq_Err_unit split: result.splits)
    show ?thesis
    proof (cases q)
      case (Ok u)
      with d rest k have "FPA_allocate P K sz (bump_chain P k) t = Ret (r, c', s')" by simp
      then show ?thesis by (rule main)
    next
      case (Err e)
      with d rest k show ?thesis by (auto simp: fpa_at_def)
    qed
  next
    case False
    with assms(2,3) show ?thesis by (intro main) (auto simp: fpa_at_def)
  qed
qed

subsection \<open>Histories\<close>

text \<open>Everything a client can observe: allocations, failed allocations and deallocations, in
  any order, from any state of the kernel memory.\<close>

datatype fpa_event = Allocated nat nat | AllocFailed | Freed nat nat

inductive fpa_step :: "platform \<Rightarrow> 's kpages \<Rightarrow> FPAInner list \<times> 's \<Rightarrow> fpa_event \<Rightarrow> FPAInner list \<times> 's \<Rightarrow> bool"
  for P K where
  step_alloc: "FPA_allocate P K sz c s = Ret (Ok (a, n), c', s') \<Longrightarrow>
    fpa_step P K (c, s) (Allocated a n) (c', s')"
| step_fail: "FPA_allocate P K sz c s = Ret (Err e, c', s') \<Longrightarrow> fpa_step P K (c, s) AllocFailed (c', s')"
| step_free: "FPA_deallocate P K ptr sz s = Ret s' \<Longrightarrow> fpa_step P K (c, s) (Freed ptr sz) (c, s')"

inductive fpa_run :: "platform \<Rightarrow> 's kpages \<Rightarrow> FPAInner list \<times> 's \<Rightarrow> fpa_event list \<Rightarrow> FPAInner list \<times> 's \<Rightarrow> bool"
  for P K x where
  run_start: "fpa_run P K x [] x"
| run_step: "fpa_run P K x evs y \<Longrightarrow> fpa_step P K y e z \<Longrightarrow> fpa_run P K x (evs @ [e]) z"

inductive_cases fpa_step_AllocatedE: "fpa_step P K x (Allocated a n) y"
inductive_cases fpa_step_AllocFailedE: "fpa_step P K x AllocFailed y"
inductive_cases fpa_step_FreedE: "fpa_step P K x (Freed a n) y"

fun allocations :: "fpa_event list \<Rightarrow> (nat \<times> nat) list" where
  "allocations [] = []"
| "allocations (Allocated a n # es) = (a, div_ceil n 4096) # allocations es"
| "allocations (_ # es) = allocations es"

lemma allocations_append: "allocations (xs @ ys) = allocations xs @ allocations ys"
  by (induction xs rule: allocations.induct) simp_all

definition within_pool :: "platform \<Rightarrow> nat \<Rightarrow> nat \<times> nat \<Rightarrow> bool" where
  "within_pool P k = (\<lambda>(a, n). pool_addr P 0 \<le> a \<and> a + n * 4096 \<le> pool_addr P k)"

lemma fpa_run_inv:
  assumes "virt_doc P" and "fpa_run P K ([], s0) evs y"
  shows "\<exists>k. fpa_at P (fst y) k \<and> k \<le> POOL_PAGES \<and> list_all (within_pool P k) (allocations evs) \<and>
    sorted_wrt (\<lambda>x y. fst x + snd x * 4096 \<le> fst y) (allocations evs)"
  using assms(2)
proof (induction rule: fpa_run.induct)
  case run_start
  show ?case by (auto simp: fpa_at_def)
next
  case (run_step evs y e z)
  then obtain k where k: "fpa_at P (fst y) k" "k \<le> POOL_PAGES" "list_all (within_pool P k) (allocations evs)"
    "sorted_wrt (\<lambda>x y. fst x + snd x * 4096 \<le> fst y) (allocations evs)" by auto
  have up: "list_all (within_pool P k') (allocations evs)" if "k \<le> k'" for k'
    using k(3) that by (auto simp: list_all_iff within_pool_def pool_addr_def)
  from run_step.hyps(2) show ?case
  proof cases
    case (step_alloc sz c s a n c' s')
    from FPA_allocate_cases [OF assms(1) _ step_alloc(4) k(2)] k(1) step_alloc(1)
    have a: "a = pool_addr P k" "k + div_ceil n 4096 \<le> POOL_PAGES" "c' = bump_chain P (k + div_ceil n 4096)"
      by auto
    moreover have "sorted_wrt (\<lambda>x y. fst x + snd x * 4096 \<le> fst y) (allocations evs @ [(a, div_ceil n 4096)])"
      using k(3,4) a(1) by (auto simp: sorted_wrt_append list_all_iff within_pool_def)
    moreover have "within_pool P (k + div_ceil n 4096) (a, div_ceil n 4096)"
      by (simp add: a(1) within_pool_def pool_addr_def)
    ultimately show ?thesis using step_alloc up [of "k + div_ceil n 4096"]
      by (auto simp: fpa_at_def allocations_append intro!: exI [of _ "k + div_ceil n 4096"])
  next
    case (step_fail sz c s e' c' s')
    from FPA_allocate_cases [OF assms(1) _ step_fail(4) k(2)] k(1) step_fail(1)
    obtain k' where "k \<le> k'" "k' \<le> POOL_PAGES" "fpa_at P c' k'" by auto
    with step_fail up k show ?thesis by (auto simp: allocations_append)
  next
    case (step_free ptr sz s s' c)
    with k show ?thesis by (auto simp: allocations_append)
  qed
qed

subsection \<open>What the calls do to the address space\<close>

definition page_span :: "nat \<Rightarrow> nat \<Rightarrow> nat set" where
  "page_span a sz = (\<lambda>i. a + i * 4096) ` {0..<div_ceil sz 4096}"

lemma pool_range:
  assumes "virt_doc P" and "k + n \<le> POOL_PAGES" and "i \<in> set [0..<n]"
  shows "mul64 (prof P) i 4096 = Ret (i * 4096)"
    and "virt_add P (pool_addr P k) (i * 4096) = Ret (pool_addr P k + i * 4096)"
    and "(pool_addr P k + i * 4096) mod 4096 = 0"
proof -
  have "k + i \<le> POOL_PAGES" using assms(2,3) by simp
  from pool_add [OF assms(1) this]
  show "mul64 (prof P) i 4096 = Ret (i * 4096)"
    "virt_add P (pool_addr P k) (i * 4096) = Ret (pool_addr P k + i * 4096)"
    by (simp_all add: pool_addr_def algebra_simps)
  have "ALLOCATOR_START P mod 4096 = 0" by (simp add: layout_values [OF assms(1)])
  then show "(pool_addr P k + i * 4096) mod 4096 = 0" by (simp add: pool_addr_def mod_simps)
qed


context kernel_pages
begin

lemma map_range_law:
  assumes "kinv s" and "map_range P K a is s = Ret (Ok (), s')"
    and "\<And>i. i \<in> set is \<Longrightarrow> mul64 (prof P) i 4096 = Ret (i * 4096)"
    and "\<And>i. i \<in> set is \<Longrightarrow> virt_add P a (i * 4096) = Ret (f i)"
  shows "kinv s' \<and> mapped s \<subseteq>\<^sub>m mapped s' \<and> dom (mapped s') = dom (mapped s) \<union> (pg \<circ> f) ` set is \<and>
    dom (mapped s) \<inter> (pg \<circ> f) ` set is = {}"
  using assms
proof (induction "is" arbitrary: s)
  case Nil
  then show ?case by simp
next
  case (Cons i "is")
  from Cons.prems obtain r t where t: "kp_alloc K (f i) s = Ret (r, t)"
    and rest: "(case r of Err e \<Rightarrow> Ret (Err e, t) | Ok _ \<Rightarrow> map_range P K a is t) = Ret (Ok (), s')"
    by (auto simp: outcome_simps)
  from rest have r: "r = Ok ()" by (cases r) auto
  with rest have rest: "map_range P K a is t = Ret (Ok (), s')" by simp
  have inv: "kinv t" by (rule kp_alloc_inv [OF Cons.prems(1) t])
  obtain fr where fr: "mapped s (pg (f i)) = None" "mapped t = (mapped s)(pg (f i) \<mapsto> fr)"
    using kp_alloc_Ok [OF Cons.prems(1)] t r by blast
  have ih: "kinv s' \<and> mapped t \<subseteq>\<^sub>m mapped s' \<and> dom (mapped s') = dom (mapped t) \<union> (pg \<circ> f) ` set is \<and>
      dom (mapped t) \<inter> (pg \<circ> f) ` set is = {}"
    by (rule Cons.IH [OF inv rest]) (simp_all add: Cons.prems)
  moreover have "mapped s \<subseteq>\<^sub>m mapped t" using fr by (auto simp: map_le_def)
  ultimately show ?case using fr by (auto intro: map_le_trans)
qed

lemma kp_alloc_grows:
  assumes "kinv s" and "kp_alloc K v s = Ret (r, s')"
  shows "kinv s' \<and> mapped s \<subseteq>\<^sub>m mapped s'"
proof (cases r)
  case (Ok u)
  with kp_alloc_Ok [OF assms(1), of v s'] assms(2) show ?thesis
    by (auto simp: map_le_def kp_alloc_inv [OF assms])
next
  case (Err e)
  with kp_alloc_Err [OF assms(1)] assms(2) show ?thesis by (simp add: kp_alloc_inv [OF assms])
qed

lemma map_range_grows:
  assumes "kinv s" and "map_range P K a is s = Ret (r, s')"
  shows "kinv s' \<and> mapped s \<subseteq>\<^sub>m mapped s'"
  using assms
proof (induction "is" arbitrary: s)
  case (Cons i "is")
  from Cons.prems(2) obtain v q t where t: "kp_alloc K v s = Ret (q, t)"
    and rest: "(case q of Err e \<Rightarrow> Ret (Err e, t) | Ok _ \<Rightarrow> map_range P K a is t) = Ret (r, s')"
    by (auto simp: outcome_simps)
  note step = kp_alloc_grows [OF Cons.prems(1) t]
  show ?case
  proof (cases q)
    case (Ok u)
    with rest have "map_range P K a is t = Ret (r, s')" by simp
    from Cons.IH [OF _ this] step show ?thesis by (auto intro: map_le_trans)
  next
    case (Err e)
    with rest step show ?thesis by simp
  qed
qed simp

lemma allocate_bump_grows:
  assumes "virt_doc P" and "kinv s" and "FPA_allocate P K sz (bump_chain P k) s = Ret (r, c', s')"
  shows "kinv s' \<and> mapped s \<subseteq>\<^sub>m mapped s'"
proof (cases "k < POOL_PAGES \<and> k + div_ceil sz 4096 \<le> POOL_PAGES")
  case True
  with assms(3) obtain q t where "map_range P K (pool_addr P k) [0..<div_ceil sz 4096] s = Ret (q, t)"
    and "(case q of Err e \<Rightarrow> Ret (Err e, bump_chain P (k + div_ceil sz 4096), t)
        | Ok _ \<Rightarrow> Ret (Ok (pool_addr P k, sz), bump_chain P (k + div_ceil sz 4096), t)) = Ret (r, c', s')"
    by (auto simp: FPA_allocate_bump [OF assms(1)] Let_def outcome_simps)
  with map_range_grows [OF assms(2)] show ?thesis by (cases q) auto
next
  case False
  with assms show ?thesis by (auto simp: FPA_allocate_bump [OF assms(1)] Let_def)
qed

lemma allocate_grows:
  assumes "virt_doc P" and "kinv s" and "fpa_at P c k" and "FPA_allocate P K sz c s = Ret (r, c', s')"
  shows "kinv s' \<and> mapped s \<subseteq>\<^sub>m mapped s'"
proof (cases "c = []")
  case True
  with assms(4) obtain q :: "(AllocError, unit) result" and d t where ad: "add_first_page P K s = Ret (q, d, t)"
    and rest: "(case q of Err e \<Rightarrow> Ret (Err e, d, t) | Ok _ \<Rightarrow> FPA_allocate P K sz d t) = Ret (r, c', s')"
    by (auto simp: FPA_allocate_Nil [OF assms(1)] outcome_simps)
  from ad obtain u where u: "kp_alloc K (ALLOCATOR_START P) s = Ret (u, t)" "q = Ok () \<longrightarrow> d = bump_chain P 0"
    by (auto simp: add_first_page_bump [OF assms(1)] outcome_simps neq_Ok_unit neq_Err_unit split: result.splits)
  note step = kp_alloc_grows [OF assms(2) u(1)]
  show ?thesis
  proof (cases q)
    case (Ok x)
    with rest u have "FPA_allocate P K sz (bump_chain P 0) t = Ret (r, c', s')" by simp
    from allocate_bump_grows [OF assms(1) _ this] step show ?thesis by (auto intro: map_le_trans)
  next
    case (Err e)
    with rest step show ?thesis by simp
  qed
next
  case False
  with assms(3) have "c = bump_chain P k" by (simp add: fpa_at_def)
  with allocate_bump_grows [OF assms(1,2)] assms(4) show ?thesis by simp
qed

lemma free_range_law:
  assumes "kinv s" and "ofold (\<lambda>s page. kp_free K page s) s ps = Ret s'"
  shows "kinv s' \<and> pg ` set ps \<subseteq> dom (mapped s) \<and> mapped s' = mapped s |` (- (pg ` set ps))"
  using assms
proof (induction ps arbitrary: s)
  case Nil
  then show ?case by simp
next
  case (Cons p ps)
  from Cons.prems(2) obtain t where t: "kp_free K p s = Ret t" "ofold (\<lambda>s page. kp_free K page s) t ps = Ret s'"
    by (auto simp: outcome_simps)
  note law = kp_free_law [OF Cons.prems(1) t(1)]
  from Cons.IH [OF _ t(2)] law show ?case
    by (auto simp: restrict_map_def fun_eq_iff split: if_splits)
qed

lemma allocate_bump_law:
  assumes "virt_doc P" and "\<And>v. v mod 4096 = 0 \<Longrightarrow> pg v = v" and "kinv s"
    and "FPA_allocate P K sz (bump_chain P k) s = Ret (Ok (a, n), c', s')"
  shows "kinv s' \<and> mapped s \<subseteq>\<^sub>m mapped s' \<and> dom (mapped s') = dom (mapped s) \<union> page_span a sz \<and>
    dom (mapped s) \<inter> page_span a sz = {}"
proof -
  let ?n = "div_ceil sz 4096"
  from assms(4) obtain r where a: "a = pool_addr P k" "k + ?n \<le> POOL_PAGES"
    and r: "map_range P K a [0..<?n] s = Ret (r, s')" "r = Ok ()"
    by (auto simp: FPA_allocate_bump [OF assms(1)] Let_def outcome_simps neq_Ok_unit neq_Err_unit split: if_splits result.splits)
  note rng = pool_range [OF assms(1) a(2)]
  have "(pg \<circ> (\<lambda>i. a + i * 4096)) ` set [0..<?n] = page_span a sz"
    unfolding page_span_def using rng(3) assms(2) a(1) by (intro image_cong) auto
  with map_range_law [OF assms(3) r(1) [unfolded r(2)], of "\<lambda>i. a + i * 4096"] rng(1,2) a(1)
  show ?thesis by simp
qed

lemma allocate_law:
  assumes "virt_doc P" and "\<And>v. v mod 4096 = 0 \<Longrightarrow> pg v = v" and "kinv s" and "fpa_at P c k"
    and "FPA_allocate P K sz c s = Ret (Ok (a, n), c', s')"
  shows "kinv s' \<and> mapped s \<subseteq>\<^sub>m mapped s' \<and> dom (mapped s) \<inter> page_span a sz = {} \<and>
    dom (mapped s') = dom (mapped s) \<union> page_span a sz \<union> (if c = [] then {ALLOCATOR_START P} else {})"
proof (cases "c = []")
  case True
  from assms(5) True obtain r d t where ad: "add_first_page P K s = Ret (r, d, t)" "r = Ok ()"
    and rest: "FPA_allocate P K sz d t = Ret (Ok (a, n), c', s')"
    by (auto simp: FPA_allocate_Nil [OF assms(1)] outcome_simps neq_Ok_unit neq_Err_unit split: result.splits)
  from ad obtain q where q: "kp_alloc K (ALLOCATOR_START P) s = Ret (q, t)" "q = Ok ()" "d = bump_chain P 0"
    by (auto simp: add_first_page_bump [OF assms(1)] outcome_simps neq_Ok_unit neq_Err_unit split: result.splits)
  have pg: "pg (ALLOCATOR_START P) = ALLOCATOR_START P" by (rule assms(2)) (simp add: layout_values [OF assms(1)])
  from kp_alloc_Ok [OF assms(3) q(1) [unfolded q(2)]] pg obtain fr where
    fr: "mapped s (ALLOCATOR_START P) = None" "mapped t = (mapped s)(ALLOCATOR_START P \<mapsto> fr)" by auto
  then have "mapped s \<subseteq>\<^sub>m mapped t" by (auto simp: map_le_def)
  with allocate_bump_law [OF assms(1,2) kp_alloc_inv [OF assms(3) q(1)] rest [unfolded q(3)]] fr True
  show ?thesis by (auto intro: map_le_trans)
next
  case False
  with assms(4) have "c = bump_chain P k" by (simp add: fpa_at_def)
  with allocate_bump_law [OF assms(1,2,3)] assms(5) False show ?thesis by auto
qed

lemma deallocate_law:
  assumes "virt_doc P" and "pg = page_containing P" and "kinv s" and "k + div_ceil sz 4096 \<le> POOL_PAGES"
    and "FPA_deallocate P K (pool_addr P k) sz s = Ret s'"
  shows "kinv s' \<and> page_span (pool_addr P k) sz \<subseteq> dom (mapped s) \<and>
    mapped s' = mapped s |` (- page_span (pool_addr P k) sz)"
proof -
  let ?n = "div_ceil sz 4096" and ?a = "pool_addr P k"
  have can: "canonical ?a" "canonical (?a + ?n * 4096)"
    using pool_canonical [OF assms(1)] assms(4) pool_canonical [OF assms(1) assms(4)]
    by (simp_all add: pool_addr_def algebra_simps)
  have al: "?a mod 4096 = 0" "(?a + ?n * 4096) mod 4096 = 0"
    by (simp_all add: pool_addr_def layout_values [OF assms(1)] mod_simps)
  have "mul64 (prof P) 4096 ?n = Ret (?n * 4096)" using assms(4) by (simp add: POOL_PAGES_def)
  with assms(5) can al have free: "ofold (\<lambda>s page. kp_free K page s) s (step_by ?a (?a + ?n * 4096) 4096) = Ret s'"
    by (auto simp: FPA_deallocate_def Let_def virt_docD [OF assms(1)] outcome_simps)
  have ceil: "div_ceil (?n * 4096) 4096 = ?n" by (simp add: div_ceil_def)
  have "pg ` set (step_by ?a (?a + ?n * 4096) 4096) = page_span ?a sz"
    using pool_range(3) [OF assms(1,4)] ceil
    by (auto simp: page_span_def step_by_def assms(2) virt_docD(6) [OF assms(1)] image_image)
  with free_range_law [OF assms(3) free] show ?thesis by simp
qed

end

context live_kernel_pages
begin

lemma map_range_returns:
  assumes "ready s" and "distinct (map (pg \<circ> f) is)"
    and "\<And>i. i \<in> set is \<Longrightarrow> mul64 (prof P) i 4096 = Ret (i * 4096)"
    and "\<And>i. i \<in> set is \<Longrightarrow> virt_add P a (i * 4096) = Ret (f i)"
    and "\<And>i. i \<in> set is \<Longrightarrow> mapped s (pg (f i)) = None"
  shows "\<exists>s'. map_range P K a is s = Ret (Ok (), s') \<and> ready s'"
  using assms
proof (induction "is" arbitrary: s)
  case Nil
  then show ?case by simp
next
  case (Cons i "is")
  obtain t where t: "kp_alloc K (f i) s = Ret (Ok (), t)" "ready t"
    using ready_alloc [OF Cons.prems(1)] Cons.prems(5) [of i] by auto
  obtain fr where fr: "mapped t = (mapped s)(pg (f i) \<mapsto> fr)"
    using kp_alloc_Ok [OF ready_kinv [OF Cons.prems(1)] t(1)] by blast
  have "\<exists>s'. map_range P K a is t = Ret (Ok (), s') \<and> ready s'"
  proof (rule Cons.IH [OF t(2)])
    show "mapped t (pg (f j)) = None" if "j \<in> set is" for j
      using that fr Cons.prems(2) Cons.prems(5) [of j] by (auto simp: image_iff)
  qed (use Cons.prems in auto)
  with t(1) Cons.prems(3,4) show ?case by simp
qed

lemma allocate_returns:
  assumes "virt_doc P" and "\<And>v. v mod 4096 = 0 \<Longrightarrow> pg v = v" and "ready s"
    and "k < POOL_PAGES" and "k + div_ceil sz 4096 \<le> POOL_PAGES"
    and "dom (mapped s) \<inter> page_span (pool_addr P k) sz = {}"
  shows "\<exists>c' s'. FPA_allocate P K sz (bump_chain P k) s = Ret (Ok (pool_addr P k, sz), c', s') \<and> ready s'"
proof -
  let ?n = "div_ceil sz 4096" and ?f = "\<lambda>i. pool_addr P k + i * 4096"
  note rng = pool_range [OF assms(1,5)]
  have pg: "map (pg \<circ> ?f) [0..<?n] = map ?f [0..<?n]" using rng(3) assms(2) by auto
  have "\<exists>s'. map_range P K (pool_addr P k) [0..<?n] s = Ret (Ok (), s') \<and> ready s'"
  proof (rule map_range_returns [OF assms(3), of ?f])
    show "distinct (map (pg \<circ> ?f) [0..<?n])" unfolding pg by (simp add: distinct_map inj_on_def)
    show "mapped s (pg (?f i)) = None" if "i \<in> set [0..<?n]" for i
      using that rng(3) [OF that] assms(2,6) by (auto simp: page_span_def)
  qed (use rng in auto)
  then show ?thesis using assms(4,5) ready_lock [OF assms(3)]
    by (auto simp: FPA_allocate_bump [OF assms(1)])
qed

end

subsection \<open>The free list as a list\<close>

text \<open>
  A well-formed chain: 170 slots per page, the usable entries of a page at its front, every page
  but the last full.  Its meaning is the list of usable entries in order.
\<close>

definition page_wf :: "FPAInner \<Rightarrow> bool" where
  "page_wf f \<longleftrightarrow> length (entries f) = ENTRIES_LEN \<and> list_all is_Empty (dropWhile (Not \<circ> is_Empty) (entries f))"

fun chain_wf :: "FPAInner list \<Rightarrow> bool" where
  "chain_wf [] \<longleftrightarrow> True"
| "chain_wf (f # fs) \<longleftrightarrow> page_wf f \<and> (fs = [] \<or> list_all (Not \<circ> is_Empty) (entries f)) \<and> chain_wf fs"

fun usable_entries :: "Entry list \<Rightarrow> (nat \<times> nat) list" where
  "usable_entries [] = []"
| "usable_entries (Empty # es) = []"
| "usable_entries (Usable a p # es) = (a, p) # usable_entries es"

definition free_list :: "FPAInner list \<Rightarrow> (nat \<times> nat) list" where
  "free_list chain = concat (map (usable_entries \<circ> entries) chain)"

definition first_fit :: "nat \<Rightarrow> (nat \<times> nat) list \<Rightarrow> nat option" where
  "first_fit n xs = map_option fst (List.find (\<lambda>(a, p). n \<le> p) xs)"

lemma first_fit_Nil [simp]: "first_fit n [] = None"
  by (simp add: first_fit_def)

lemma first_fit_append:
  "first_fit n (xs @ ys) = (case first_fit n xs of None \<Rightarrow> first_fit n ys | Some a \<Rightarrow> Some a)"
  by (induction xs) (auto simp: first_fit_def split: option.splits)

lemma find_in_entries_first_fit:
  "find_in_entries es n =
     (case first_fit n (usable_entries es) of
        Some a \<Rightarrow> Some (Some a)
      | None \<Rightarrow> if list_all (Not \<circ> is_Empty) es then None else Some None)"
  by (induction es n rule: find_in_entries.induct) (auto simp: first_fit_def is_Empty_def split: option.splits)

lemma copy_up_insert:
  assumes "length es = ENTRIES_LEN" and "idx < ENTRIES_LEN"
  shows "obind (copy_within es idx (ENTRIES_LEN - 1) (idx + 1)) (\<lambda>xs.
      if idx < length xs then Ret (g (xs[idx := e])) else Panic) =
    Ret (g (take idx es @ e # take (ENTRIES_LEN - 1 - idx) (drop idx es)))"
proof -
  let ?xs = "take (Suc idx) es @ take (ENTRIES_LEN - 1 - idx) (drop idx es)"
  have c: "copy_within es idx (ENTRIES_LEN - 1) (idx + 1) = Ret ?xs"
    using assms by (simp add: copy_within_def)
  have "take (Suc idx) es = take idx es @ [es ! idx]" using assms by (simp add: take_Suc_conv_app_nth)
  then have "?xs[idx := e] = take idx es @ e # take (ENTRIES_LEN - 1 - idx) (drop idx es)"
    using assms by (simp add: list_update_append)
  with c assms show ?thesis by simp
qed

lemma copy_down_remove:
  assumes "length es = ENTRIES_LEN" and "idx < ENTRIES_LEN"
  shows "copy_within (es[idx := Empty]) (idx + 1) ENTRIES_LEN idx =
    Ret (take idx es @ drop (idx + 1) es @ [(es[idx := Empty]) ! (ENTRIES_LEN - 1)])"
proof -
  have "drop (idx + (ENTRIES_LEN - (idx + 1))) (es[idx := Empty]) = [(es[idx := Empty]) ! (ENTRIES_LEN - 1)]"
    using assms by (simp add: Cons_nth_drop_Suc [symmetric])
  then show ?thesis using assms by (simp add: copy_within_def)
qed

subsection \<open>Properties\<close>

text \<open>
  C4: A successful allocation on the kernel's memory returns the next address of the pool, maps
  exactly the pages of the block (and the list's own page on the first call), none of which was
  mapped, and changes no other translation.
\<close>

theorem FPA_allocate_maps_exactly:
  assumes "virt_doc P" and "kmem_wf P M s" and "fpa_at P c k" and "k \<le> POOL_PAGES"
    and "FPA_allocate P (kernel_kpages P M) sz c s = Ret (Ok (a, n), c', s')"
  shows "kmem_wf P M s' \<and> a = pool_addr P k \<and> n = sz \<and> fpa_at P c' (k + div_ceil sz 4096) \<and>
    kmap M s \<subseteq>\<^sub>m kmap M s' \<and> dom (kmap M s) \<inter> page_span a sz = {} \<and>
    dom (kmap M s') = dom (kmap M s) \<union> page_span a sz \<union> (if c = [] then {ALLOCATOR_START P} else {})"
proof -
  have pg: "page_containing P v = v" if "v mod 4096 = 0" for v
    using that by (simp add: virt_docD(6) [OF assms(1)])
  from kpg.allocate_law [OF assms(1) pg assms(2,3,5)] FPA_allocate_cases [OF assms(1,3,5,4)]
  show ?thesis by (auto simp: fpa_at_def)
qed

text \<open>
  From a ready memory in which the next pages of the pool are unmapped, an allocation that fits
  the pool returns a block and leaves the memory ready.
\<close>

theorem FPA_allocate_succeeds:
  assumes "virt_doc P" and "kmem_ready P M s" and "k < POOL_PAGES" and "k + div_ceil sz 4096 \<le> POOL_PAGES"
    and "dom (kmap M s) \<inter> page_span (pool_addr P k) sz = {}"
  shows "\<exists>c' s'. FPA_allocate P (kernel_kpages P M) sz (bump_chain P k) s = Ret (Ok (pool_addr P k, sz), c', s') \<and>
    kmem_ready P M s'"
  using assms by (intro kpl.allocate_returns) (simp_all add: virt_docD(6))

text \<open>
  C3: Over any history of allocations, failures and deallocations, in any order: the blocks handed
  out are pairwise disjoint and ascend within the pool.  Addresses are never reused, also not
  after a deallocation.
\<close>

theorem FPA_blocks_disjoint:
  assumes "virt_doc P" and "fpa_run P K ([], s0) evs y"
  shows "sorted_wrt (\<lambda>(a, n) (b, m). a + n * 4096 \<le> b) (allocations evs) \<and>
    list_all (\<lambda>(a, n). ALLOCATOR_START P + 4096 \<le> a \<and> a + n * 4096 \<le> pool_addr P POOL_PAGES) (allocations evs)"
proof -
  obtain k where k: "k \<le> POOL_PAGES" "list_all (within_pool P k) (allocations evs)"
    "sorted_wrt (\<lambda>x y. fst x + snd x * 4096 \<le> fst y) (allocations evs)" using fpa_run_inv [OF assms] by blast
  from k(1,2) have "list_all (\<lambda>(a, n). ALLOCATOR_START P + 4096 \<le> a \<and> a + n * 4096 \<le> pool_addr P POOL_PAGES)
      (allocations evs)" by (auto simp: list_all_iff within_pool_def pool_addr_def)
  moreover have "sorted_wrt (\<lambda>(a, n) (b, m). a + n * 4096 \<le> b) (allocations evs)"
    using k(3) by (rule sorted_wrt_mono_rel [rotated]) auto
  ultimately show ?thesis by simp
qed


text \<open>C11: On a well-formed chain the search is first fit over the whole free list.\<close>

theorem find_free_pages_first_fit:
  assumes "chain_wf chain"
  shows "find_free_pages chain n = first_fit n (free_list chain)"
  using assms
proof (induction chain)
  case Nil
  then show ?case by (simp add: free_list_def first_fit_def)
next
  case (Cons f fs)
  then show ?case
    by (cases "first_fit n (usable_entries (entries f))")
      (auto simp: free_list_def first_fit_append find_in_entries_first_fit)
qed

text \<open>Inserting an entry into a page with two free slots and removing it again gives back the entry,
  the page and the memory.\<close>

theorem insert_remove_roundtrip:
  assumes "length (entries f) = ENTRIES_LEN" and "idx < ENTRIES_LEN - 1"
    and "entries f ! (ENTRIES_LEN - 1) = Empty" and "entries f ! (ENTRIES_LEN - 2) = Empty"
  shows "obind (insert_entry P K [f] idx e s) (\<lambda>(_, chain, s). remove_entry K chain idx s) = Ret (e, [f], s)"
proof -
  define mid where "mid = take (ENTRIES_LEN - 1 - idx) (drop idx (entries f))"
  let ?es = "take idx (entries f) @ e # mid"
  have lt: "idx < ENTRIES_LEN" using assms(2) by simp
  have mid: "length mid = ENTRIES_LEN - 1 - idx" using assms(1,2) by (simp add: mid_def)
  have len: "length ?es = ENTRIES_LEN" using assms(1,2) mid by simp
  have lst: "(?es[idx := Empty]) ! (ENTRIES_LEN - 1) = Empty"
    using assms(1,2,4) by (simp add: mid_def list_update_append nth_append nth_Cons' numeral_2_eq_2 Suc_diff_Suc)
  have restored: "take idx (entries f) @ mid @ [Empty] = entries f"
  proof -
    have "drop (ENTRIES_LEN - 1 - idx) (drop idx (entries f)) = [Empty]"
      using assms(1-3) Cons_nth_drop_Suc [of "ENTRIES_LEN - 1" "entries f"] by simp
    then show ?thesis unfolding mid_def by (metis append_take_drop_id)
  qed
  have "insert_entry P K [f] idx e s = Ret (Ok (), [f\<lparr>entries := ?es\<rparr>], s)"
    using copy_up_insert [OF assms(1) lt, of "\<lambda>xs. (Ok (), [f\<lparr>entries := xs\<rparr>], s)" e] assms
    by (simp add: is_Empty_def mid_def cong: if_cong)
  moreover have "copy_within (?es[idx := Empty]) (idx + 1) ENTRIES_LEN idx = Ret (entries f)"
    using copy_down_remove [OF len, of idx] assms(1,2) lst restored by simp
  ultimately show ?thesis using len assms(1,2) by (simp add: nth_append del: insert_entry.simps)
qed

text \<open>
  Taking pages from the front of the only free range and giving them back restores the free list.
\<close>

theorem dealloc_pages_undoes_alloc_pages:
  assumes "virt_doc P" and "k + n < POOL_PAGES"
  shows "\<exists>c. alloc_pages P K (bump_chain P k) (pool_addr P k) n s = Ret (c, s) \<and>
    dealloc_pages P K c (pool_addr P k) n s = Some (Ret (Ok (), bump_chain P k, s))"
proof -
  have "alloc_pages P K (bump_chain P k) (pool_addr P k) n s = Ret (bump_chain P (k + n), s)"
    using assms by (intro alloc_pages_bump) auto
  moreover have "dealloc_pages P K (bump_chain P (k + n)) (pool_addr P k) n s = Some (Ret (Ok (), bump_chain P k, s))"
  proof -
    have "pool_addr P k \<le> pool_addr P (k + n)" by (simp add: pool_addr_def)
    moreover have "add64 (prof P) (POOL_PAGES - (k + n)) n = Ret (POOL_PAGES - k)"
      using assms(2) by (simp add: POOL_PAGES_def)
    ultimately show ?thesis using assms pool_add [OF assms(1), of k n]
      by (simp add: bump_chain_def replicate_170 fresh_page_def)
  qed
  ultimately show ?thesis by blast
qed

text \<open>
  On a page without an empty slot, removing an entry before the last leaves the last entry in the
  page twice, so the same free range can then be handed out twice.
\<close>

theorem remove_entry_full_page_duplicates:
  assumes "length (entries f) = ENTRIES_LEN" and "idx < ENTRIES_LEN - 1"
    and "entries f ! (ENTRIES_LEN - 1) = Usable a p"
  shows "\<exists>g. remove_entry K [f] idx s = Ret (entries f ! idx, [g], s) \<and>
    entries g ! (ENTRIES_LEN - 2) = Usable a p \<and> entries g ! (ENTRIES_LEN - 1) = Usable a p"
proof -
  let ?es = "take idx (entries f) @ drop (idx + 1) (entries f) @ [entries f ! (ENTRIES_LEN - 1)]"
  have "copy_within ((entries f)[idx := Empty]) (idx + 1) ENTRIES_LEN idx = Ret ?es"
    using copy_down_remove [OF assms(1), of idx] assms(1,2) by simp
  moreover have "?es ! (ENTRIES_LEN - 2) = Usable a p" "?es ! (ENTRIES_LEN - 1) = Usable a p"
    using assms by (auto simp: nth_append ENTRIES_LEN_def)
  ultimately show ?thesis using assms(1,2) by (intro exI [of _ "f\<lparr>entries := ?es\<rparr>"]) simp
qed

text \<open>
  Pages given back above every entry of a page that has an empty slot are dropped: the call
  reports success and the free list does not change.
\<close>

theorem dealloc_pages_drops_above:
  assumes "entries f = us @ Empty # es" and "list_all (\<lambda>e. \<exists>a p. e = Usable a p \<and> a < start) us"
  shows "dealloc_pages P K (f # fs) start pages s = Some (Ret (Ok (), f # fs, s))"
proof -
  have "dealloc_scan i (us @ Empty # es) start = Some None" for i
    using assms(2) by (induction us arbitrary: i) auto
  then show ?thesis by (simp add: assms(1))
qed

text \<open>
  The range with which the free list starts does not end at \<open>ALLOCATOR_END\<close>: its last two pages lie
  beyond the allocator's part of the address space.
\<close>

theorem first_range_overruns_ALLOCATOR_END:
  assumes "virt_doc P" and "add_first_page P K s = Ret (Ok (), c, s')"
  shows "\<exists>f. c = [f] \<and> entries f ! 0 = Usable (ALLOCATOR_START P + 4096) POOL_PAGES \<and>
    ALLOCATOR_START P + 4096 + (POOL_PAGES - 2) * 4096 > ALLOCATOR_END P"
proof -
  from assms(2) have "c = bump_chain P 0"
    by (auto simp: add_first_page_bump [OF assms(1)] outcome_simps neq_Ok_unit neq_Err_unit split: result.splits)
  moreover have "ALLOCATOR_START P + 4096 + (POOL_PAGES - 2) * 4096 > ALLOCATOR_END P"
    by (simp add: layout_values [OF assms(1)] POOL_PAGES_def)
  ultimately show ?thesis
    by (simp add: bump_chain_def replicate_170 pool_addr_def POOL_PAGES_def fresh_page_def)
qed

subsection \<open>Witnesses\<close>

abbreviation demo_K :: "(nat \<Rightarrow> nat option) kmem kpages" where
  "demo_K \<equiv> kernel_kpages (doc_platform Dev) demo_mapper"

abbreviation demo_s :: "(nat \<Rightarrow> nat option) kmem" where
  "demo_s \<equiv> demo_kmem (demo_bitmap [- 1, 0])"

lemma demo_kmap: "kmap demo_mapper (demo_kmem a) = Map.empty"
  by (simp add: kmap_def demo_kmem_def demo_mapper_def)

lemma demo_fpa_allocate:
  "\<exists>c' s'. FPA_allocate (doc_platform Dev) demo_K 5000 (bump_chain (doc_platform Dev) 0) demo_s =
     Ret (Ok (pool_addr (doc_platform Dev) 0, 5000), c', s') \<and> kmem_ready (doc_platform Dev) demo_mapper s'"
  by (rule kpl.allocate_returns [OF virt_doc_doc_platform _ demo_ready])
    (simp_all add: virt_docD(6) [OF virt_doc_doc_platform] demo_kmap POOL_PAGES_def div_ceil_def)

theorem FPA_allocate_maps_exactly_witness:
  "\<exists>c' s'. FPA_allocate (doc_platform Dev) demo_K 5000 (bump_chain (doc_platform Dev) 0) demo_s =
     Ret (Ok (pool_addr (doc_platform Dev) 0, 5000), c', s') \<and>
     dom (kmap demo_mapper s') = page_span (pool_addr (doc_platform Dev) 0) 5000"
proof -
  obtain c' s' where r: "FPA_allocate (doc_platform Dev) demo_K 5000 (bump_chain (doc_platform Dev) 0) demo_s =
     Ret (Ok (pool_addr (doc_platform Dev) 0, 5000), c', s')" using demo_fpa_allocate by blast
  have "fpa_at (doc_platform Dev) (bump_chain (doc_platform Dev) 0) 0" by (simp add: fpa_at_def)
  from FPA_allocate_maps_exactly [OF virt_doc_doc_platform demo_kmem_wf this _ r] r show ?thesis
    by (auto simp: demo_kmap bump_chain_def)
qed

theorem FPA_allocate_succeeds_witness:
  "\<exists>c' s'. FPA_allocate (doc_platform Dev) demo_K 5000 (bump_chain (doc_platform Dev) 0) demo_s =
     Ret (Ok (pool_addr (doc_platform Dev) 0, 5000), c', s')"
  using FPA_allocate_succeeds [OF virt_doc_doc_platform demo_ready, of 0 5000 Dev]
  by (auto simp: demo_kmap POOL_PAGES_def div_ceil_def)

text \<open>A memory in which the calls return whatever they are asked; for histories with frees.\<close>

definition null_K :: "unit kpages" where
  "null_K = \<lparr>kp_lock = (\<lambda>_. Ret ()), kp_alloc = (\<lambda>_ s. Ret (Ok (), s)), kp_free = (\<lambda>_ s. Ret s)\<rparr>"

lemma null_K_simps [simp]:
  "kp_lock null_K s = Ret ()" "kp_alloc null_K v s = Ret (Ok (), s)" "kp_free null_K v s = Ret s"
  by (simp_all add: null_K_def)

lemma null_run:
  "\<exists>y. fpa_run (doc_platform Dev) null_K ([], ())
     [Allocated (pool_addr (doc_platform Dev) 0) 5000, Freed (pool_addr (doc_platform Dev) 0) 5000,
      Allocated (pool_addr (doc_platform Dev) 2) 1] y"
proof -
  let ?P = "doc_platform Dev"
  have range: "map_range ?P null_K (pool_addr ?P k) [0..<n] () = Ret (Ok (), ())" if "k + n \<le> POOL_PAGES" for k n
  proof -
    have "map_range ?P null_K (pool_addr ?P k) is () = Ret (Ok (), ())" if "set is \<subseteq> set [0..<n]" for "is"
      using that pool_range [OF virt_doc_doc_platform \<open>k + n \<le> POOL_PAGES\<close>]
      by (induction "is") auto
    then show ?thesis by blast
  qed
  have ceil: "div_ceil 5000 4096 = 2" "div_ceil 1 4096 = 1" by (simp_all add: div_ceil_def)
  have first: "FPA_allocate ?P null_K 5000 [] () = Ret (Ok (pool_addr ?P 0, 5000), bump_chain ?P 2, ())"
    using range [of 0 2]
    by (simp add: FPA_allocate_Nil [OF virt_doc_doc_platform] add_first_page_bump [OF virt_doc_doc_platform]
        FPA_allocate_bump [OF virt_doc_doc_platform] POOL_PAGES_def ceil numeral_2_eq_2 del: map_range.simps)
  have free: "FPA_deallocate ?P null_K (pool_addr ?P 0) 5000 () = Ret ()"
  proof -
    have "ofold (\<lambda>s page. Ret s) () ps = Ret ()" for ps :: "nat list" by (induction ps) simp_all
    moreover have "canonical (pool_addr ?P 0)" "canonical (pool_addr ?P 0 + 8192)"
      using pool_canonical [OF virt_doc_doc_platform, of 0] pool_canonical [OF virt_doc_doc_platform, of 2]
      by (simp_all add: POOL_PAGES_def pool_addr_def)
    ultimately show ?thesis
      by (simp add: FPA_deallocate_def div_ceil_def virt_docD(2,7) [OF virt_doc_doc_platform])
  qed
  have second: "FPA_allocate ?P null_K 1 (bump_chain ?P 2) () = Ret (Ok (pool_addr ?P 2, 1), bump_chain ?P 3, ())"
    using range [of 2 1]
    unfolding FPA_allocate_bump [OF virt_doc_doc_platform] ceil
    by (simp add: POOL_PAGES_def del: map_range.simps)
  have "fpa_run ?P null_K ([], ()) ((([] @ [Allocated (pool_addr ?P 0) 5000]) @ [Freed (pool_addr ?P 0) 5000]) @
      [Allocated (pool_addr ?P 2) 1]) (bump_chain ?P 3, ())"
    by (rule run_step [OF run_step [OF run_step [OF run_start step_alloc [OF first]] step_free [OF free]]
        step_alloc [OF second]])
  then show ?thesis by auto
qed

theorem FPA_blocks_disjoint_witness:
  "\<exists>y. fpa_run (doc_platform Dev) null_K ([], ())
     [Allocated (pool_addr (doc_platform Dev) 0) 5000, Freed (pool_addr (doc_platform Dev) 0) 5000,
      Allocated (pool_addr (doc_platform Dev) 2) 1] y \<and>
     pool_addr (doc_platform Dev) 0 + 2 * 4096 \<le> pool_addr (doc_platform Dev) 2"
proof -
  obtain y where y: "fpa_run (doc_platform Dev) null_K ([], ())
     [Allocated (pool_addr (doc_platform Dev) 0) 5000, Freed (pool_addr (doc_platform Dev) 0) 5000,
      Allocated (pool_addr (doc_platform Dev) 2) 1] y" using null_run by blast
  from FPA_blocks_disjoint [OF virt_doc_doc_platform y]
  have "pool_addr (doc_platform Dev) 0 + 2 * 4096 \<le> pool_addr (doc_platform Dev) 2" by (simp add: div_ceil_def)
  with y show ?thesis by blast
qed

lemma sparse_page_170:
  "replicate ENTRIES_LEN Empty ! (ENTRIES_LEN - 1) = Empty" "replicate ENTRIES_LEN Empty ! (ENTRIES_LEN - 2) = Empty"
  by (simp_all add: ENTRIES_LEN_def)

theorem find_free_pages_first_fit_witness:
  "chain_wf (bump_chain (doc_platform Dev) 7) \<and>
   find_free_pages (bump_chain (doc_platform Dev) 7) 3 = Some (pool_addr (doc_platform Dev) 7)"
proof -
  have "chain_wf (bump_chain (doc_platform Dev) 7)"
    by (simp add: bump_chain_def page_wf_def fresh_page_def replicate_170 is_Empty_def POOL_PAGES_def list_all_iff
        del: replicate.simps) (simp add: ENTRIES_LEN_def)
  moreover have "free_list (bump_chain (doc_platform Dev) 7) = [(pool_addr (doc_platform Dev) 7, POOL_PAGES - 7)]"
    by (simp add: free_list_def bump_chain_def replicate_170 replicate_169 POOL_PAGES_def)
  ultimately show ?thesis using find_free_pages_first_fit [of "bump_chain (doc_platform Dev) 7" 3]
    by (simp add: first_fit_def POOL_PAGES_def)
qed

theorem insert_remove_roundtrip_witness:
  "obind (insert_entry (doc_platform Dev) null_K [fresh_page 0] 3 (Usable 4096 2) ())
     (\<lambda>(_, chain, s). remove_entry null_K chain 3 s) = Ret (Usable 4096 2, [fresh_page 0], ())"
  by (rule insert_remove_roundtrip) (simp_all add: fresh_page_def sparse_page_170, simp_all add: ENTRIES_LEN_def)

theorem dealloc_pages_undoes_alloc_pages_witness:
  "\<exists>c. alloc_pages (doc_platform Dev) null_K (bump_chain (doc_platform Dev) 1) (pool_addr (doc_platform Dev) 1) 4 () = Ret (c, ()) \<and>
    dealloc_pages (doc_platform Dev) null_K c (pool_addr (doc_platform Dev) 1) 4 () =
      Some (Ret (Ok (), bump_chain (doc_platform Dev) 1, ()))"
  by (rule dealloc_pages_undoes_alloc_pages) (simp_all add: POOL_PAGES_def)

theorem remove_entry_full_page_duplicates_witness:
  "\<exists>g. remove_entry null_K [\<lparr>fpa_addr = 0, entries = replicate ENTRIES_LEN (Usable 4096 1)\<rparr>] 5 () =
       Ret (Usable 4096 1, [g], ()) \<and>
     entries g ! (ENTRIES_LEN - 2) = Usable 4096 1 \<and> entries g ! (ENTRIES_LEN - 1) = Usable 4096 1"
  using remove_entry_full_page_duplicates [of "\<lparr>fpa_addr = 0, entries = replicate ENTRIES_LEN (Usable 4096 1)\<rparr>" 5
      4096 1 null_K "()"] by (simp add: ENTRIES_LEN_def del: remove_entry.simps)

theorem dealloc_pages_drops_above_witness:
  "dealloc_pages (doc_platform Dev) null_K (bump_chain (doc_platform Dev) 0) (ALLOCATOR_END (doc_platform Dev)) 1 () =
     Some (Ret (Ok (), bump_chain (doc_platform Dev) 0, ()))"
proof -
  let ?P = "doc_platform Dev"
  have "entries (hd (bump_chain ?P 0)) = [Usable (pool_addr ?P 0) POOL_PAGES] @ Empty # replicate 168 Empty"
    by (simp add: bump_chain_def replicate_170 replicate_169 POOL_PAGES_def)
  moreover have "pool_addr ?P 0 < ALLOCATOR_END ?P"
    by (simp add: pool_addr_def layout_values [OF virt_doc_doc_platform])
  moreover have "bump_chain ?P 0 = [hd (bump_chain ?P 0)]" by (simp add: bump_chain_def)
  ultimately show ?thesis
    using dealloc_pages_drops_above [of "hd (bump_chain ?P 0)" "[Usable (pool_addr ?P 0) POOL_PAGES]"
        "replicate 168 Empty" "ALLOCATOR_END ?P" ?P null_K "[]" 1 "()"] by simp
qed

theorem first_range_overruns_ALLOCATOR_END_witness:
  "\<exists>c. add_first_page (doc_platform Dev) null_K () = Ret (Ok (), c, ()) \<and>
     (\<exists>f. c = [f] \<and> entries f ! 0 = Usable (ALLOCATOR_START (doc_platform Dev) + 4096) POOL_PAGES)"
proof -
  have r: "add_first_page (doc_platform Dev) null_K () = Ret (Ok (), bump_chain (doc_platform Dev) 0, ())"
    by (simp add: add_first_page_bump [OF virt_doc_doc_platform] null_K_def)
  from first_range_overruns_ALLOCATOR_END [OF virt_doc_doc_platform r] r show ?thesis by blast
qed


end
