(* ===== verification/Bucket_Allocator.thy ===== *)
theory Bucket_Allocator
  imports Page_Allocator
begin

text \<open>
  \<open>memory/allocator/mod.rs\<close>: the kernel's global allocator.  Nine lists of buckets serve blocks of
  8 to 2048 bytes out of single pages; larger requests go to the page allocator.  A bucket list
  \<open>bucket, bucket.next, ...\<close> is a list of \<open>Bucket\<close> records, \<open>None\<close> the empty list; \<open>bk_box\<close> is the
  address of the heap page that holds a boxed bucket (every bucket but the first of a list).
\<close>

subsection \<open>The page allocator as the buckets use it\<close>

record 'p palloc =
  pa_allocate :: "nat \<Rightarrow> 'p \<Rightarrow> ((AllocError, nat \<times> nat) result \<times> 'p) outcome"
  pa_deallocate :: "nat \<Rightarrow> nat \<Rightarrow> 'p \<Rightarrow> 'p outcome"

definition PAGE_ALLOCATOR :: "platform \<Rightarrow> 's kpages \<Rightarrow> (FPAInner list \<times> 's) palloc" where
  "PAGE_ALLOCATOR P K =
     \<lparr>pa_allocate = (\<lambda>sz (inner, s).
        obind (FPA_allocate P K sz inner s) (\<lambda>(r, inner, s). Ret (r, (inner, s)))),
      pa_deallocate = (\<lambda>ptr sz (inner, s).
        obind (FPA_deallocate P K ptr sz s) (\<lambda>s. Ret (inner, s)))\<rparr>"

subsection \<open>Buckets\<close>

text \<open>
  The constants of \<open>Bucket<SIZE, BLOCK>\<close> are arguments.  \<open>bytes\<close> is \<open>size_of::<Bucket<SIZE, BLOCK>>()\<close>,
  the size of the allocation of a boxed bucket, which the compiler chooses.
\<close>

record Bucket =
  bk_page :: nat
  bk_bitmap :: "8 word list"
  bk_box :: nat

definition Bucket_new ::
  "platform \<Rightarrow> 'p palloc \<Rightarrow> nat \<Rightarrow> 'p \<Rightarrow> ((AllocError, Bucket) result \<times> 'p) outcome" where
  "Bucket_new P A SIZE p =
     obind (pa_allocate A 1 p) (\<lambda>(r, p).
     case r of
       Err e \<Rightarrow> Ret (Err e, p)
     | Ok (page_ptr, _) \<Rightarrow>
         obind (virt_from_ptr P page_ptr) (\<lambda>addr.
         Ret (Ok \<lparr>bk_page = page_containing P addr, bk_bitmap = replicate SIZE 0, bk_box = 0\<rparr>, p)))"

definition Bucket_drop :: "'p palloc \<Rightarrow> Bucket \<Rightarrow> 'p \<Rightarrow> 'p outcome" where
  "Bucket_drop A b p = pa_deallocate A (bk_page b) 1 p"

text \<open>Dropping the box: first its content, then its memory.\<close>

definition Box_drop :: "'p palloc \<Rightarrow> nat \<Rightarrow> Bucket \<Rightarrow> 'p \<Rightarrow> 'p outcome" where
  "Box_drop A bytes b p = obind (Bucket_drop A b p) (pa_deallocate A (bk_box b) bytes)"

definition Bucket_is_empty :: "Bucket \<Rightarrow> bool" where
  "Bucket_is_empty b \<longleftrightarrow> list_all (\<lambda>byte. byte = 0) (bk_bitmap b)"

fun scan_bitmap :: "nat \<Rightarrow> nat \<Rightarrow> 8 word list \<Rightarrow> (nat \<times> 8 word list) option" where
  "scan_bitmap BLOCK i [] = None"
| "scan_bitmap BLOCK i (byte # bytes) =
     (let leading = leading_ones byte;
          bt = 7 - leading;
          off = i * 8 + leading
      in if byte = 0xFF \<or> 4096 div BLOCK \<le> off
         then map_option (\<lambda>(off, bytes). (off, byte # bytes)) (scan_bitmap BLOCK (Suc i) bytes)
         else Some (off, (byte OR push_bit bt 1) # bytes))"

text \<open>The part of \<open>allocate_block\<close> that concerns the bucket's own page.\<close>

definition take_block :: "platform \<Rightarrow> nat \<Rightarrow> Bucket \<Rightarrow> (nat \<times> Bucket) option outcome" where
  "take_block P BLOCK b =
     (case scan_bitmap BLOCK 0 (bk_bitmap b) of
        None \<Rightarrow> Ret None
      | Some (offset, bm) \<Rightarrow>
          obind (mul64 (prof P) offset BLOCK) (\<lambda>d.
          obind (virt_add P (bk_page b) d) (\<lambda>addr. Ret (Some (addr, b\<lparr>bk_bitmap := bm\<rparr>)))))"

text \<open>
  A new bucket has a free block (lemma \<open>take_block_fresh\<close>), so the nested call on it ends in its own
  bitmap; the branch where it would not is marked \<open>Spin\<close>.  A failure to allocate the box is
  \<open>handle_alloc_error\<close>, a panic.
\<close>

fun allocate_block ::
  "platform \<Rightarrow> 'p palloc \<Rightarrow> nat \<Rightarrow> nat \<Rightarrow> nat \<Rightarrow> Bucket list \<Rightarrow> 'p \<Rightarrow>
   ((AllocError, nat) result \<times> Bucket list \<times> 'p) outcome" where
  "allocate_block P A bytes SIZE BLOCK [] p = Panic"
| "allocate_block P A bytes SIZE BLOCK (b # bs) p =
     obind (take_block P BLOCK b) (\<lambda>own.
     case own of
       Some (addr, b) \<Rightarrow> Ret (Ok addr, b # bs, p)
     | None \<Rightarrow>
         if bs \<noteq> [] then
           obind (allocate_block P A bytes SIZE BLOCK bs p) (\<lambda>(r, bs, p). Ret (r, b # bs, p))
         else
           obind (Bucket_new P A SIZE p) (\<lambda>(r, p).
           case r of
             Err e \<Rightarrow> Ret (Err e, [b], p)
           | Ok next \<Rightarrow>
               obind (pa_allocate A bytes p) (\<lambda>(r, p).
               case r of
                 Err _ \<Rightarrow> Panic
               | Ok (box, _) \<Rightarrow>
                   obind (take_block P BLOCK (next\<lparr>bk_box := box\<rparr>)) (\<lambda>own.
                   case own of
                     None \<Rightarrow> Spin
                   | Some (addr, next) \<Rightarrow> Ret (Ok addr, [b, next], p)))))"

definition clear_block :: "platform \<Rightarrow> nat \<Rightarrow> Bucket \<Rightarrow> nat \<Rightarrow> Bucket outcome" where
  "clear_block P BLOCK b addr =
     obind (virt_sub P addr (bk_page b)) (\<lambda>d.
     (let offset = d div BLOCK; byte = offset div 8; bt = 7 - offset mod 8 in
      if byte < length (bk_bitmap b)
      then Ret (b\<lparr>bk_bitmap := (bk_bitmap b)[byte := (bk_bitmap b ! byte) AND NOT (push_bit bt 1)]\<rparr>)
      else Panic))"

fun free_block ::
  "platform \<Rightarrow> 'p palloc \<Rightarrow> nat \<Rightarrow> nat \<Rightarrow> Bucket list \<Rightarrow> nat \<Rightarrow> 'p \<Rightarrow> (Bucket list \<times> 'p) outcome" where
  "free_block P A bytes BLOCK [] addr p = Panic"
| "free_block P A bytes BLOCK (b # bs) addr p =
     (if virt_align_down P addr 4096 = bk_page b then
        obind (clear_block P BLOCK b addr) (\<lambda>b. Ret (b # bs, p))
      else if bs \<noteq> [] then
        obind (free_block P A bytes BLOCK bs addr p) (\<lambda>(bs, p).
        if Bucket_is_empty (hd bs)
        then obind (Box_drop A bytes (hd bs) p) (\<lambda>p. Ret (b # tl bs, p))
        else Ret (b # bs, p))
      else Ret ([b], p))"

subsection \<open>The kernel allocator\<close>

text \<open>The nine bucket types, \<open>(SIZE, BLOCK)\<close>, and the ranges of the two \<open>match\<close> expressions.\<close>

definition BUCKETS :: "(nat \<times> nat) list" where
  "BUCKETS = [(64, 8), (32, 16), (16, 32), (8, 64), (4, 128), (2, 256), (1, 512), (1, 1024), (1, 2048)]"

definition bucket_index :: "nat \<Rightarrow> nat option" where
  "bucket_index m =
     (if m \<le> 8 then Some 0
      else if m \<le> 16 then Some 1
      else if m \<le> 32 then Some 2
      else if m \<le> 64 then Some 3
      else if m \<le> 128 then Some 4
      else if m \<le> 256 then Some 5
      else if m \<le> 512 then Some 6
      else if m \<le> 1024 then Some 7
      else if m \<le> 2048 then Some 8
      else None)"

definition KAllocator_new :: "Bucket list list" where
  "KAllocator_new = replicate 9 []"

text \<open>The macro \<open>allocate!\<close>.\<close>

definition allocate_in ::
  "platform \<Rightarrow> 'p palloc \<Rightarrow> nat \<Rightarrow> nat \<Rightarrow> nat \<Rightarrow> Bucket list \<Rightarrow> 'p \<Rightarrow>
   ((AllocError, nat) result \<times> Bucket list \<times> 'p) outcome" where
  "allocate_in P A bytes SIZE BLOCK bucket p =
     (if bucket \<noteq> [] then allocate_block P A bytes SIZE BLOCK bucket p
      else
        obind (Bucket_new P A SIZE p) (\<lambda>(r, p).
        case r of
          Err e \<Rightarrow> Ret (Err e, [], p)
        | Ok b \<Rightarrow>
            obind (allocate_block P A bytes SIZE BLOCK [b] p) (\<lambda>(r, bucket, p).
            case r of
              Err e \<Rightarrow> obind (Bucket_drop A (hd bucket) p) (\<lambda>p. Ret (Err e, [], p))
            | Ok addr \<Rightarrow> Ret (Ok addr, bucket, p))))"

definition K_allocate ::
  "platform \<Rightarrow> 'p palloc \<Rightarrow> (nat \<Rightarrow> nat) \<Rightarrow> nat \<Rightarrow> nat \<Rightarrow> Bucket list list \<Rightarrow> 'p \<Rightarrow>
   ((AllocError, nat \<times> nat) result \<times> Bucket list list \<times> 'p) outcome" where
  "K_allocate P A bytes sz align buckets p =
     (case bucket_index (max sz align) of
        Some i \<Rightarrow>
          (let (SIZE, BLOCK) = BUCKETS ! i in
           obind (allocate_in P A (bytes SIZE) SIZE BLOCK (buckets ! i) p) (\<lambda>(r, bucket, p).
           case r of
             Err e \<Rightarrow> Ret (Err e, buckets[i := bucket], p)
           | Ok addr \<Rightarrow>
               if addr = 0 then Ret (Err AllocError, buckets[i := bucket], p)
               else Ret (Ok (addr, sz), buckets[i := bucket], p)))
      | None \<Rightarrow>
          obind (rust_assert (align \<le> 4096)) (\<lambda>_.
          obind (pa_allocate A sz p) (\<lambda>(r, p). Ret (r, buckets, p))))"

definition K_deallocate ::
  "platform \<Rightarrow> 'p palloc \<Rightarrow> (nat \<Rightarrow> nat) \<Rightarrow> nat \<Rightarrow> nat \<Rightarrow> nat \<Rightarrow> Bucket list list \<Rightarrow> 'p \<Rightarrow>
   (Bucket list list \<times> 'p) outcome" where
  "K_deallocate P A bytes ptr sz align buckets p =
     obind (virt_from_ptr P ptr) (\<lambda>addr.
     case bucket_index (max sz align) of
       Some i \<Rightarrow>
         (let (SIZE, BLOCK) = BUCKETS ! i in
          if buckets ! i \<noteq> [] then
            obind (free_block P A (bytes SIZE) BLOCK (buckets ! i) addr p) (\<lambda>(bucket, p).
            Ret (buckets[i := bucket], p))
          else Panic)
     | None \<Rightarrow>
         obind (rust_assert (align \<le> 4096)) (\<lambda>_.
         obind (pa_deallocate A ptr sz p) (\<lambda>p. Ret (buckets, p))))"

definition K_alloc ::
  "platform \<Rightarrow> 'p palloc \<Rightarrow> (nat \<Rightarrow> nat) \<Rightarrow> nat \<Rightarrow> nat \<Rightarrow> Bucket list list \<Rightarrow> 'p \<Rightarrow>
   (nat \<times> Bucket list list \<times> 'p) outcome" where
  "K_alloc P A bytes sz align buckets p =
     obind (K_allocate P A bytes sz align buckets p) (\<lambda>(r, buckets, p).
     Ret (case r of Ok (addr, _) \<Rightarrow> addr | Err _ \<Rightarrow> 0, buckets, p))"

definition K_dealloc ::
  "platform \<Rightarrow> 'p palloc \<Rightarrow> (nat \<Rightarrow> nat) \<Rightarrow> nat \<Rightarrow> nat \<Rightarrow> nat \<Rightarrow> Bucket list list \<Rightarrow> 'p \<Rightarrow>
   (Bucket list list \<times> 'p) outcome" where
  "K_dealloc P A bytes ptr sz align buckets p = K_deallocate P A bytes ptr sz align buckets p"

subsection \<open>The bitmap search\<close>

lemma scan_bitmap_Some:
  assumes "scan_bitmap BLOCK i bs = Some (off, bs')"
  shows "\<exists>j < length bs. bs ! j \<noteq> - 1 \<and> off = (i + j) * 8 + leading_ones (bs ! j) \<and> off < 4096 div BLOCK \<and>
    bs' = bs[j := bs ! j OR push_bit (7 - leading_ones (bs ! j)) 1] \<and>
    (\<forall>k < j. bs ! k = - 1 \<or> 4096 div BLOCK \<le> (i + k) * 8 + leading_ones (bs ! k))"
  using assms
proof (induction BLOCK i bs arbitrary: bs' rule: scan_bitmap.induct)
  case (2 BLOCK i byte bytes)
  show ?case
  proof (cases "byte = 0xFF \<or> 4096 div BLOCK \<le> i * 8 + leading_ones byte")
    case True
    with "2.prems" obtain t where t: "scan_bitmap BLOCK (Suc i) bytes = Some (off, t)" "bs' = byte # t"
      by (auto simp: Let_def)
    from "2.IH" [OF refl refl refl True t(1)] obtain j where "j < length bytes" "bytes ! j \<noteq> - 1"
      "off = (Suc i + j) * 8 + leading_ones (bytes ! j)" "off < 4096 div BLOCK"
      "t = bytes[j := bytes ! j OR push_bit (7 - leading_ones (bytes ! j)) 1]"
      "\<forall>k < j. bytes ! k = - 1 \<or> 4096 div BLOCK \<le> (Suc i + k) * 8 + leading_ones (bytes ! k)" by auto
    with t(2) True show ?thesis by (intro exI [of _ "Suc j"]) (auto simp: less_Suc_eq_0_disj)
  next
    case False
    with "2.prems" show ?thesis by (intro exI [of _ 0]) (auto simp: Let_def)
  qed
qed simp

lemma scan_bitmap_None:
  assumes "scan_bitmap BLOCK i bs = None" and "k < length bs"
  shows "bs ! k = - 1 \<or> 4096 div BLOCK \<le> (i + k) * 8 + leading_ones (bs ! k)"
  using assms
proof (induction BLOCK i bs arbitrary: k rule: scan_bitmap.induct)
  case (2 BLOCK i byte bytes)
  then have c: "byte = 0xFF \<or> 4096 div BLOCK \<le> i * 8 + leading_ones byte"
    "scan_bitmap BLOCK (Suc i) bytes = None" by (auto simp: Let_def split: if_splits)
  show ?case
  proof (cases k)
    case 0
    with c show ?thesis by auto
  next
    case (Suc m)
    with "2.IH" [OF refl refl refl c(1,2), of m] "2.prems"(2) show ?thesis by simp
  qed
qed simp

lemma leading_ones_byte: "w \<noteq> - 1 \<Longrightarrow> leading_ones (w :: 8 word) < 8"
  using leading_ones_le [of w] leading_ones_max [of w] by simp

lemma byte_full_or_leading:
  fixes bm :: "8 word list"
  assumes "k < length bm" and "bm ! k = - 1 \<or> L \<le> k * 8 + leading_ones (bm ! k)" and "g div 8 = k" and "g < L"
  shows "bm_get bm g"
proof (cases "bm ! k = - 1")
  case True
  moreover have "g < length bm * 8" using assms(1,3) by (auto simp: div_less_iff_less_mult [symmetric])
  ultimately show ?thesis using assms(3) by (simp add: bm_get_def)
next
  case False
  have g: "g = k * 8 + g mod 8" using div_mult_mod_eq [of g 8] assms(3) by simp
  moreover have "L \<le> k * 8 + leading_ones (bm ! k)" using False assms(2) by simp
  ultimately have "g mod 8 < leading_ones (bm ! k)" using assms(4) by linarith
  with bm_get_leading(2) [OF assms(1), of "g mod 8"] leading_ones_byte [OF False] g show ?thesis by simp
qed

text \<open>The search finds the first free block, or the bitmap has none.\<close>

lemma scan_bitmap_spec:
  assumes "scan_bitmap BLOCK 0 bm = Some (off, bm')"
  shows "off < 4096 div BLOCK" "off < length bm * 8" "\<not> bm_get bm off" "length bm' = length bm"
    "bm_get bm' g \<longleftrightarrow> g = off \<or> bm_get bm g" "g < off \<Longrightarrow> bm_get bm g"
proof -
  obtain j where j: "j < length bm" "bm ! j \<noteq> - 1" "off = j * 8 + leading_ones (bm ! j)" "off < 4096 div BLOCK"
    "bm' = bm[j := bm ! j OR push_bit (7 - leading_ones (bm ! j)) 1]"
    and before: "\<And>k. k < j \<Longrightarrow> bm ! k = - 1 \<or> 4096 div BLOCK \<le> k * 8 + leading_ones (bm ! k)"
    using scan_bitmap_Some [OF assms] by auto
  have lo: "leading_ones (bm ! j) < 8" by (rule leading_ones_byte [OF j(2)])
  have dm: "off div 8 = j" "off mod 8 = leading_ones (bm ! j)" using lo j(3) by simp_all
  show "off < 4096 div BLOCK" "length bm' = length bm" using j by simp_all
  have "off < (j + 1) * 8" using lo j(3) by simp
  also have "\<dots> \<le> length bm * 8" using j(1) by (intro mult_le_mono1) simp
  finally show len: "off < length bm * 8" .
  show "\<not> bm_get bm off" using bm_get_leading(1) [OF j(1)] lo j(3) by simp
  show "bm_get bm' g \<longleftrightarrow> g = off \<or> bm_get bm g" using bm_get_set [of off bm g] len dm j(5) by simp
  show "bm_get bm g" if "g < off"
  proof (cases "g div 8 = j")
    case True
    then have g: "g = j * 8 + g mod 8" using div_mult_mod_eq [of g 8] by simp
    then have "g mod 8 < leading_ones (bm ! j)" using that j(3) by linarith
    with g bm_get_leading(2) [OF j(1), of "g mod 8"] lo show ?thesis by simp
  next
    case False
    then have "g div 8 < j" using that dm(1) div_le_mono [of g off 8] by simp
    with byte_full_or_leading [OF _ before refl] that j(1,4) show ?thesis by simp
  qed
qed

lemma scan_bitmap_full:
  assumes "scan_bitmap BLOCK 0 bm = None" and "g < length bm * 8" and "g < 4096 div BLOCK"
  shows "bm_get bm g"
proof -
  have k: "g div 8 < length bm" using assms(2) by (simp add: less_mult_imp_div_less)
  from scan_bitmap_None [OF assms(1) k] show ?thesis
    by (intro byte_full_or_leading [OF k _ refl assms(3)]) simp
qed

lemma take_block_fresh:
  assumes "0 < SIZE" and "0 < BLOCK" and "BLOCK \<le> 4096"
  shows "scan_bitmap BLOCK 0 (replicate SIZE 0) \<noteq> None"
proof
  assume "scan_bitmap BLOCK 0 (replicate SIZE 0) = None"
  from scan_bitmap_full [OF this, of 0] assms show False by (simp add: div_greater_zero_iff)
qed

subsection \<open>The contract of the page allocator\<close>

text \<open>
  What the buckets rely on: blocks consist of fresh kernel pages, which stay live until they are
  given back.
\<close>

definition kernel_page :: "nat \<Rightarrow> bool" where
  "kernel_page a \<longleftrightarrow> 0 < a \<and> a mod 4096 = 0 \<and> canonical a \<and> canonical (a + 4095)"

locale page_allocator =
  fixes A :: "'p palloc" and pinv :: "'p \<Rightarrow> bool" and live :: "'p \<Rightarrow> nat set"
  assumes alloc_Ok: "pinv p \<Longrightarrow> 0 < sz \<Longrightarrow> pa_allocate A sz p = Ret (Ok (a, n), p') \<Longrightarrow>
      pinv p' \<and> n = sz \<and> kernel_page a \<and> page_span a sz \<inter> live p = {} \<and> live p' = live p \<union> page_span a sz"
    and alloc_Err: "pinv p \<Longrightarrow> 0 < sz \<Longrightarrow> pa_allocate A sz p = Ret (Err e, p') \<Longrightarrow> pinv p' \<and> live p \<subseteq> live p'"
    and dealloc: "pinv p \<Longrightarrow> 0 < sz \<Longrightarrow> a mod 4096 = 0 \<Longrightarrow> page_span a sz \<subseteq> live p \<Longrightarrow>
      pa_deallocate A a sz p = Ret p' \<Longrightarrow> pinv p' \<and> live p' = live p - page_span a sz"

lemma page_span_one: "0 < sz \<Longrightarrow> sz \<le> 4096 \<Longrightarrow> page_span a sz = {a}"
  by (simp add: page_span_def div_ceil_le_one)

text \<open>The page allocator of the kernel satisfies it: a page of the pool is live while it is mapped.\<close>

definition pool_pages :: "platform \<Rightarrow> nat set" where
  "pool_pages P = pool_addr P ` {0..<POOL_PAGES}"

definition fpa_inv :: "platform \<Rightarrow> 'pt mapper \<Rightarrow> FPAInner list \<times> 'pt kmem \<Rightarrow> bool" where
  "fpa_inv P M p \<longleftrightarrow> virt_doc P \<and> kmem_wf P M (snd p) \<and> (\<exists>k \<le> POOL_PAGES. fpa_at P (fst p) k)"

definition fpa_live :: "platform \<Rightarrow> 'pt mapper \<Rightarrow> FPAInner list \<times> 'pt kmem \<Rightarrow> nat set" where
  "fpa_live P M p = dom (kmap M (snd p)) \<inter> pool_pages P"

lemma pool_span:
  assumes "k + div_ceil sz 4096 \<le> POOL_PAGES"
  shows "page_span (pool_addr P k) sz \<subseteq> pool_pages P"
proof
  fix x assume "x \<in> page_span (pool_addr P k) sz"
  then obtain i where "i < div_ceil sz 4096" "x = pool_addr P (k + i)"
    by (auto simp: page_span_def pool_addr_def)
  with assms show "x \<in> pool_pages P" by (auto simp: pool_pages_def)
qed

lemma pool_kernel_page:
  assumes "virt_doc P" and "k < POOL_PAGES"
  shows "kernel_page (pool_addr P k)"
  using assms(2)
  by (auto simp: kernel_page_def pool_addr_def canonical_def layout_values [OF assms(1)] POOL_PAGES_def mod_simps)

lemma span_in_pool:
  assumes "virt_doc P" and "0 < sz" and "page_span a sz \<subseteq> pool_pages P"
  shows "\<exists>k. a = pool_addr P k \<and> k + div_ceil sz 4096 \<le> POOL_PAGES"
proof -
  let ?n = "div_ceil sz 4096"
  have n: "0 < ?n" using assms(2) by (rule div_ceil_pos) simp
  then have "a \<in> page_span a sz" by (force simp: page_span_def)
  with assms(3) obtain k where k: "a = pool_addr P k" "k < POOL_PAGES" by (auto simp: pool_pages_def)
  have "a + (?n - 1) * 4096 \<in> page_span a sz" using n by (auto simp: page_span_def)
  with assms(3) obtain j where "a + (?n - 1) * 4096 = pool_addr P j" "j < POOL_PAGES" by (auto simp: pool_pages_def)
  with k n have "k + (?n - 1) = j" by (auto simp: pool_addr_def)
  with \<open>j < POOL_PAGES\<close> n k(1) show ?thesis by auto
qed

interpretation fpa: page_allocator "PAGE_ALLOCATOR P (kernel_kpages P M)" "fpa_inv P M" "fpa_live P M" for P M
proof unfold_locales
  fix p p' :: "FPAInner list \<times> 'a kmem" and sz a n :: nat and e
  obtain c s c' s' where p: "p = (c, s)" "p' = (c', s')" by (cases p, cases p')
  assume inv: "fpa_inv P M p" and sz: "0 < sz"
  from inv obtain k where v: "virt_doc P" and wf: "kmem_wf P M s" and k: "k \<le> POOL_PAGES" "fpa_at P c k"
    by (auto simp: fpa_inv_def p)
  have pg: "page_containing P v = v" if "v mod 4096 = 0" for v using that by (simp add: virt_docD(6) [OF v])
  show "fpa_inv P M p' \<and> n = sz \<and> kernel_page a \<and> page_span a sz \<inter> fpa_live P M p = {} \<and>
      fpa_live P M p' = fpa_live P M p \<union> page_span a sz"
    if "pa_allocate (PAGE_ALLOCATOR P (kernel_kpages P M)) sz p = Ret (Ok (a, n), p')"
  proof -
    from that have al: "FPA_allocate P (kernel_kpages P M) sz c s = Ret (Ok (a, n), c', s')"
      by (auto simp: PAGE_ALLOCATOR_def outcome_simps p)
    from FPA_allocate_cases [OF v k(2) al k(1)] have a: "a = pool_addr P k" "n = sz"
      "k + div_ceil sz 4096 \<le> POOL_PAGES" "c' = bump_chain P (k + div_ceil sz 4096)" by auto
    have "0 < div_ceil sz 4096" using sz by (rule div_ceil_pos) simp
    then have "kernel_page a" using pool_kernel_page [OF v] a by simp
    moreover have "ALLOCATOR_START P \<notin> pool_pages P" by (auto simp: pool_pages_def pool_addr_def)
    ultimately show ?thesis using kpg.allocate_law [OF v pg wf k(2) al] pool_span [OF a(3), of P] a v
      by (auto simp: fpa_inv_def fpa_live_def p fpa_at_def)
  qed
  show "fpa_inv P M p' \<and> fpa_live P M p \<subseteq> fpa_live P M p'"
    if "pa_allocate (PAGE_ALLOCATOR P (kernel_kpages P M)) sz p = Ret (Err e, p')"
  proof -
    from that have al: "FPA_allocate P (kernel_kpages P M) sz c s = Ret (Err e, c', s')"
      by (auto simp: PAGE_ALLOCATOR_def outcome_simps p)
    from FPA_allocate_cases [OF v k(2) al k(1)] kpg.allocate_grows [OF v wf k(2) al] v show ?thesis
      by (auto simp: fpa_inv_def fpa_live_def p dest: map_le_implies_dom_le)
  qed
  show "fpa_inv P M p' \<and> fpa_live P M p' = fpa_live P M p - page_span a sz"
    if "a mod 4096 = 0" "page_span a sz \<subseteq> fpa_live P M p"
      "pa_deallocate (PAGE_ALLOCATOR P (kernel_kpages P M)) a sz p = Ret p'"
  proof -
    from that(3) have de: "FPA_deallocate P (kernel_kpages P M) a sz s = Ret s'" "c' = c"
      by (auto simp: PAGE_ALLOCATOR_def outcome_simps p)
    from that(2) have "page_span a sz \<subseteq> pool_pages P" by (auto simp: fpa_live_def)
    from span_in_pool [OF v sz this] obtain j where j: "a = pool_addr P j" "j + div_ceil sz 4096 \<le> POOL_PAGES"
      by blast
    from kpg.deallocate_law [OF v refl wf j(2)] de j(1) k v show ?thesis
      by (auto simp: fpa_inv_def fpa_live_def p)
  qed
qed

subsection \<open>Bucket lists\<close>

definition bucket_ok :: "nat \<Rightarrow> nat \<Rightarrow> Bucket \<Rightarrow> bool" where
  "bucket_ok SIZE BLOCK b \<longleftrightarrow> length (bk_bitmap b) = SIZE \<and> kernel_page (bk_page b) \<and>
     (\<forall>g. bm_get (bk_bitmap b) g \<longrightarrow> g < 4096 div BLOCK)"

text \<open>The blocks in use, and the pages a bucket list owns.\<close>

definition used_blocks :: "nat \<Rightarrow> Bucket \<Rightarrow> nat set" where
  "used_blocks BLOCK b = {bk_page b + g * BLOCK | g. bm_get (bk_bitmap b) g}"

definition blocks :: "nat \<Rightarrow> Bucket list \<Rightarrow> nat set" where
  "blocks BLOCK chain = (\<Union>b \<in> set chain. used_blocks BLOCK b)"

definition chain_pages :: "Bucket list \<Rightarrow> nat list" where
  "chain_pages chain = map bk_page chain @ map bk_box (tl chain)"

definition bchain_ok :: "nat \<Rightarrow> nat \<Rightarrow> Bucket list \<Rightarrow> bool" where
  "bchain_ok SIZE BLOCK chain \<longleftrightarrow> (\<forall>b \<in> set chain. bucket_ok SIZE BLOCK b) \<and>
     (\<forall>b \<in> set (tl chain). \<not> Bucket_is_empty b \<and> kernel_page (bk_box b)) \<and> distinct (chain_pages chain)"

definition block_size_ok :: "nat \<Rightarrow> nat \<Rightarrow> bool" where
  "block_size_ok SIZE BLOCK \<longleftrightarrow> 0 < SIZE \<and> 0 < BLOCK \<and> BLOCK dvd 4096 \<and> BLOCK < 4096 \<and> 4096 div BLOCK \<le> SIZE * 8"

lemma page_plus_canonical: "kernel_page a \<Longrightarrow> d \<le> 4095 \<Longrightarrow> canonical (a + d)"
  by (auto simp: kernel_page_def canonical_def)

lemma block_offset_bound:
  assumes "block_size_ok SIZE BLOCK" and "g < 4096 div BLOCK"
  shows "g * BLOCK + BLOCK \<le> 4096"
proof -
  have "(g + 1) * BLOCK \<le> 4096 div BLOCK * BLOCK" using assms(2) by (intro mult_le_mono1) simp
  also have "\<dots> = 4096" using assms(1) by (simp add: block_size_ok_def)
  finally show ?thesis by simp
qed

lemma Bucket_is_empty_iff: "Bucket_is_empty b \<longleftrightarrow> (\<forall>g. \<not> bm_get (bk_bitmap b) g)"
proof
  assume "Bucket_is_empty b"
  then show "\<forall>g. \<not> bm_get (bk_bitmap b) g"
    by (auto simp: Bucket_is_empty_def bm_get_def list_all_length less_mult_imp_div_less)
next
  assume "\<forall>g. \<not> bm_get (bk_bitmap b) g"
  then have "bk_bitmap b = replicate (length (bk_bitmap b)) 0" by (intro bm_ext) auto
  from arg_cong [OF this, of set] show "Bucket_is_empty b"
    by (auto simp: Bucket_is_empty_def list_all_iff set_replicate_conv_if split: if_splits)
qed

lemma take_block_cases:
  assumes "virt_doc P" and "block_size_ok SIZE BLOCK" and "bucket_ok SIZE BLOCK b"
  shows "(\<exists>off bm. take_block P BLOCK b = Ret (Some (bk_page b + off * BLOCK, b\<lparr>bk_bitmap := bm\<rparr>)) \<and>
      off < 4096 div BLOCK \<and> \<not> bm_get (bk_bitmap b) off \<and> length bm = SIZE \<and>
      (\<forall>g. bm_get bm g \<longleftrightarrow> g = off \<or> bm_get (bk_bitmap b) g) \<and> (\<forall>g < off. bm_get (bk_bitmap b) g)) \<or>
    take_block P BLOCK b = Ret None \<and> (\<forall>g < 4096 div BLOCK. bm_get (bk_bitmap b) g)"
proof (cases "scan_bitmap BLOCK 0 (bk_bitmap b)")
  case None
  have "bm_get (bk_bitmap b) g" if "g < 4096 div BLOCK" for g
    using scan_bitmap_full [OF None _ that] that assms(2,3) by (simp add: block_size_ok_def bucket_ok_def)
  with None show ?thesis by (simp add: take_block_def)
next
  case (Some x)
  obtain off bm where x: "x = (off, bm)" by (cases x)
  note spec = scan_bitmap_spec [OF Some [unfolded x]]
  have kp: "kernel_page (bk_page b)" and B: "0 < BLOCK" using assms(2,3) by (simp_all add: bucket_ok_def block_size_ok_def)
  have bd: "off * BLOCK \<le> 4095" using block_offset_bound [OF assms(2) spec(1)] B by simp
  have "canonical (bk_page b)" "canonical (bk_page b + off * BLOCK)"
    using page_plus_canonical [OF kp bd] kp by (simp_all add: kernel_page_def)
  then have "take_block P BLOCK b = Ret (Some (bk_page b + off * BLOCK, b\<lparr>bk_bitmap := bm\<rparr>))"
    using Some x bd by (simp add: take_block_def virt_docD(2) [OF assms(1)])
  with spec assms(3) show ?thesis by (auto simp: bucket_ok_def)
qed

lemma take_block_ok:
  assumes "virt_doc P" and "block_size_ok SIZE BLOCK" and "bucket_ok SIZE BLOCK b"
    and "take_block P BLOCK b = Ret (Some (a, b'))"
  shows "bucket_ok SIZE BLOCK b'" "bk_page b' = bk_page b" "bk_box b' = bk_box b" "\<not> Bucket_is_empty b'"
    "a \<notin> used_blocks BLOCK b" "used_blocks BLOCK b' = insert a (used_blocks BLOCK b)"
    "\<exists>off < 4096 div BLOCK. a = bk_page b + off * BLOCK"
proof -
  obtain off bm where o: "a = bk_page b + off * BLOCK" "b' = b\<lparr>bk_bitmap := bm\<rparr>" "off < 4096 div BLOCK"
    "\<not> bm_get (bk_bitmap b) off" "length bm = SIZE" "\<And>g. bm_get bm g \<longleftrightarrow> g = off \<or> bm_get (bk_bitmap b) g"
    using take_block_cases [OF assms(1-3)] assms(4) by auto
  have B: "0 < BLOCK" using assms(2) by (simp add: block_size_ok_def)
  show "bk_page b' = bk_page b" "bk_box b' = bk_box b" "\<exists>off < 4096 div BLOCK. a = bk_page b + off * BLOCK"
    using o by auto
  show "bucket_ok SIZE BLOCK b'" using o assms(3) by (auto simp: bucket_ok_def)
  show "\<not> Bucket_is_empty b'" using o by (auto simp: Bucket_is_empty_iff)
  show "a \<notin> used_blocks BLOCK b" using o B by (auto simp: used_blocks_def)
  show "used_blocks BLOCK b' = insert a (used_blocks BLOCK b)" using o by (auto simp: used_blocks_def)
qed

text \<open>What \<open>allocate_block\<close> does to a list: it takes a block of one bucket, or appends a new bucket.\<close>

lemma allocate_block_cases:
  assumes "allocate_block P A bytes SIZE BLOCK chain p = Ret (r, chain', p')"
  obtains (own) i a b' where "i < length chain" "take_block P BLOCK (chain ! i) = Ret (Some (a, b'))"
      "r = Ok a" "chain' = chain[i := b']" "p' = p"
  | (none) e where "Bucket_new P A SIZE p = Ret (Err e, p')" "r = Err e" "chain' = chain"
  | (grow) nb p1 box n a b' where "Bucket_new P A SIZE p = Ret (Ok nb, p1)"
      "pa_allocate A bytes p1 = Ret (Ok (box, n), p')"
      "take_block P BLOCK (nb\<lparr>bk_box := box\<rparr>) = Ret (Some (a, b'))" "r = Ok a" "chain' = chain @ [b']"
proof -
  have "(\<exists>i a b'. i < length chain \<and> take_block P BLOCK (chain ! i) = Ret (Some (a, b')) \<and>
      r = Ok a \<and> chain' = chain[i := b'] \<and> p' = p) \<or>
    (\<exists>e. Bucket_new P A SIZE p = Ret (Err e, p') \<and> r = Err e \<and> chain' = chain) \<or>
    (\<exists>nb p1 box n a b'. Bucket_new P A SIZE p = Ret (Ok nb, p1) \<and> pa_allocate A bytes p1 = Ret (Ok (box, n), p') \<and>
      take_block P BLOCK (nb\<lparr>bk_box := box\<rparr>) = Ret (Some (a, b')) \<and> r = Ok a \<and> chain' = chain @ [b'])"
    using assms
  proof (induction chain arbitrary: chain')
    case (Cons b bs)
    from Cons.prems obtain own where own: "take_block P BLOCK b = Ret own" by (auto simp: outcome_simps)
    show ?case
    proof (cases own)
      case (Some x)
      with own Cons.prems show ?thesis by (cases x) (rule disjI1, rule exI [of _ 0], auto)
    next
      case None
      show ?thesis
      proof (cases "bs = []")
        case True
        with own None Cons.prems show ?thesis
          by (auto simp: outcome_simps case_result_Ret case_option_Ret)
      next
        case False
        with own None Cons.prems obtain bs' where bs': "chain' = b # bs'"
          "allocate_block P A bytes SIZE BLOCK bs p = Ret (r, bs', p')" by (auto simp: outcome_simps)
        from Cons.IH [OF bs'(2)] show ?thesis
        proof (elim disjE exE conjE)
          fix i a b' assume "i < length bs" "take_block P BLOCK (bs ! i) = Ret (Some (a, b'))" "r = Ok a"
            "bs' = bs[i := b']" "p' = p"
          then show ?thesis using bs'(1) by (intro disjI1 exI [of _ "Suc i"] exI [of _ a]) auto
        qed (use bs'(1) in auto)
      qed
    qed
  qed simp
  then show thesis using own none grow by blast
qed

text \<open>What \<open>free_block\<close> does: it clears one bit, and drops a boxed bucket that becomes empty.\<close>

lemma free_block_cases:
  assumes "free_block P A bytes BLOCK chain addr p = Ret (chain', p')"
    and "\<forall>b \<in> set (tl chain). \<not> Bucket_is_empty b"
  obtains (foreign) "virt_align_down P addr 4096 \<notin> bk_page ` set chain" "chain' = chain" "p' = p"
  | (clear) i b' where "i < length chain" "bk_page (chain ! i) = virt_align_down P addr 4096"
      "clear_block P BLOCK (chain ! i) addr = Ret b'" "i = 0 \<or> \<not> Bucket_is_empty b'"
      "chain' = chain[i := b']" "p' = p"
  | (drop) i b' where "i < length chain" "bk_page (chain ! i) = virt_align_down P addr 4096"
      "clear_block P BLOCK (chain ! i) addr = Ret b'" "0 < i" "Bucket_is_empty b'"
      "Box_drop A bytes b' p = Ret p'" "chain' = take i chain @ List.drop (Suc i) chain"
proof -
  let ?pg = "virt_align_down P addr 4096"
  have "?pg \<notin> bk_page ` set chain \<and> chain' = chain \<and> p' = p \<or>
    (\<exists>i b'. i < length chain \<and> bk_page (chain ! i) = ?pg \<and> clear_block P BLOCK (chain ! i) addr = Ret b' \<and>
      (if 0 < i \<and> Bucket_is_empty b' then Box_drop A bytes b' p = Ret p' \<and> chain' = take i chain @ List.drop (Suc i) chain
       else chain' = chain[i := b'] \<and> p' = p))"
    using assms
  proof (induction chain arbitrary: chain' p')
    case (Cons b bs)
    show ?case
    proof (cases "?pg = bk_page b")
      case True
      with Cons.prems(1) show ?thesis by (intro disjI2 exI [of _ 0]) (auto simp: outcome_simps)
    next
      case ne: False
      show ?thesis
      proof (cases "bs = []")
        case True
        with ne Cons.prems(1) show ?thesis by auto
      next
        case False
        with ne Cons.prems(1) obtain bs' q where rec: "free_block P A bytes BLOCK bs addr p = Ret (bs', q)"
          and tail: "(if Bucket_is_empty (hd bs') then obind (Box_drop A bytes (hd bs') q) (\<lambda>p. Ret (b # tl bs', p))
            else Ret (b # bs', q)) = Ret (chain', p')" by (auto simp: outcome_simps)
        have tl: "\<not> Bucket_is_empty c" if "c \<in> set bs" for c using Cons.prems(2) that by simp
        then have "\<forall>c \<in> set (tl bs). \<not> Bucket_is_empty c" by (cases bs) auto
        from Cons.IH [OF rec this] show ?thesis
        proof (elim disjE exE conjE)
          assume "?pg \<notin> bk_page ` set bs" "bs' = bs" "q = p"
          with tail tl [of "hd bs"] False ne show ?thesis by auto
        next
          fix i b' assume i: "i < length bs" "bk_page (bs ! i) = ?pg" "clear_block P BLOCK (bs ! i) addr = Ret b'"
            and res: "if 0 < i \<and> Bucket_is_empty b' then Box_drop A bytes b' p = Ret q \<and> bs' = take i bs @ List.drop (Suc i) bs
              else bs' = bs[i := b'] \<and> q = p"
          show ?thesis
          proof (cases i)
            case 0
            with res tail i False show ?thesis
              by (intro disjI2 exI [of _ 1]) (cases bs; auto simp: outcome_simps split: if_splits)
          next
            case (Suc j)
            with res tl [of "hd bs"] False have "\<not> Bucket_is_empty (hd bs')"
              by (cases bs) (auto split: if_splits)
            with res tail i Suc show ?thesis by (intro disjI2 exI [of _ "Suc i"]) (auto split: if_splits)
          qed
        qed
      qed
    qed
  qed simp
  then show thesis using foreign clear drop by (auto split: if_splits)
qed

lemma clear_block_ok:
  assumes "virt_doc P" and "block_size_ok SIZE BLOCK" and "bucket_ok SIZE BLOCK b"
    and "off < 4096 div BLOCK" and "a = bk_page b + off * BLOCK"
  shows "\<exists>bm. clear_block P BLOCK b a = Ret (b\<lparr>bk_bitmap := bm\<rparr>) \<and> length bm = length (bk_bitmap b) \<and>
    (\<forall>g. bm_get bm g \<longleftrightarrow> g \<noteq> off \<and> bm_get (bk_bitmap b) g)"
proof -
  have B: "0 < BLOCK" "off < length (bk_bitmap b) * 8"
    using assms(2-4) by (simp_all add: block_size_ok_def bucket_ok_def)
  let ?bm = "(bk_bitmap b)[off div 8 := (bk_bitmap b ! (off div 8)) AND NOT (push_bit (7 - off mod 8) 1)]"
  have "clear_block P BLOCK b a = Ret (b\<lparr>bk_bitmap := ?bm\<rparr>)"
    using B by (simp add: clear_block_def virt_docD(3) [OF assms(1)] assms(5) Let_def less_mult_imp_div_less)
  moreover have "bm_get ?bm g \<longleftrightarrow> g \<noteq> off \<and> bm_get (bk_bitmap b) g" for g
    using bm_get_clear [of off "bk_bitmap b" g] B(2) by simp
  ultimately show ?thesis by (intro exI [of _ ?bm]) simp
qed

lemma blocks_nth: "blocks BLOCK chain = (\<Union>j < length chain. used_blocks BLOCK (chain ! j))"
  by (auto simp: blocks_def set_conv_nth)

lemma used_block_page:
  assumes "block_size_ok SIZE BLOCK" and "bucket_ok SIZE BLOCK b" and "x \<in> used_blocks BLOCK b"
  obtains off where "off < 4096 div BLOCK" "x = bk_page b + off * BLOCK" "x - x mod 4096 = bk_page b"
    "bm_get (bk_bitmap b) off"
proof -
  from assms(2,3) obtain g where g: "g < 4096 div BLOCK" "x = bk_page b + g * BLOCK" "bm_get (bk_bitmap b) g"
    by (auto simp: used_blocks_def bucket_ok_def)
  have "g * BLOCK < 4096" using block_offset_bound [OF assms(1) g(1)] assms(1) by (auto simp: block_size_ok_def)
  moreover have "bk_page b mod 4096 = 0" using assms(2) by (simp add: bucket_ok_def kernel_page_def)
  ultimately have "x mod 4096 = g * BLOCK" using g(2) by (metis add.left_neutral mod_add_left_eq mod_less)
  with g that show thesis by simp
qed

lemma block_page:
  assumes "block_size_ok SIZE BLOCK" and "kernel_page q" and "off < 4096 div BLOCK"
  shows "(q + off * BLOCK) - (q + off * BLOCK) mod 4096 = q"
proof -
  have "off * BLOCK < 4096" using block_offset_bound [OF assms(1,3)] assms(1) by (auto simp: block_size_ok_def)
  moreover have "q mod 4096 = 0" using assms(2) by (simp add: kernel_page_def)
  ultimately have "(q + off * BLOCK) mod 4096 = off * BLOCK" by (metis add.left_neutral mod_add_left_eq mod_less)
  then show ?thesis by simp
qed

lemma chain_pages_update:
  assumes "i < length chain" and "bk_page b = bk_page (chain ! i)" and "bk_box b = bk_box (chain ! i)"
  shows "chain_pages (chain[i := b]) = chain_pages chain"
proof -
  have "map bk_page (chain[i := b]) = map bk_page chain" "map bk_box (chain[i := b]) = map bk_box chain"
    using assms by (simp_all add: map_update list_update_same_conv)
  moreover from this(2) have "map bk_box (tl (chain[i := b])) = map bk_box (tl chain)" by (metis map_tl)
  ultimately show ?thesis by (simp add: chain_pages_def)
qed

lemma set_tl_update: "x \<in> set (tl (xs[i := y])) \<Longrightarrow> x \<in> set (tl xs) \<or> x = y \<and> 0 < i"
  by (cases xs; cases i) (auto dest: set_update_subset_insert [THEN subsetD])

text \<open>Replacing one bucket by another of the same page.\<close>

lemma bchain_update:
  assumes "bchain_ok SIZE BLOCK chain" and "block_size_ok SIZE BLOCK" and "i < length chain"
    and "bucket_ok SIZE BLOCK b" and "bk_page b = bk_page (chain ! i)" and "bk_box b = bk_box (chain ! i)"
    and "i = 0 \<or> \<not> Bucket_is_empty b"
  shows "bchain_ok SIZE BLOCK (chain[i := b])"
proof -
  have "kernel_page (bk_box b)" if "0 < i"
  proof -
    have "chain ! i \<in> set (tl chain)" using that assms(3) by (cases chain; cases i) auto
    with assms(1,6) show ?thesis by (simp add: bchain_ok_def)
  qed
  then have "\<not> Bucket_is_empty c \<and> kernel_page (bk_box c)" if "c \<in> set (tl (chain[i := b]))" for c
    using set_tl_update [OF that] assms(1,7) by (auto simp: bchain_ok_def)
  moreover have "bucket_ok SIZE BLOCK c" if "c \<in> set (chain[i := b])" for c
    using that assms(1,4) by (auto simp: bchain_ok_def dest: set_update_subset_insert [THEN subsetD])
  ultimately show ?thesis using assms(1) chain_pages_update [OF assms(3,5,6)] by (simp add: bchain_ok_def)
qed

lemma bchain_page_inj:
  assumes "bchain_ok SIZE BLOCK chain" and "i < length chain" and "j < length chain"
    and "bk_page (chain ! i) = bk_page (chain ! j)"
  shows "i = j"
proof -
  have "distinct (map bk_page chain)" using assms(1) by (simp add: bchain_ok_def chain_pages_def)
  with assms(2-4) show ?thesis by (metis length_map nth_eq_iff_index_eq nth_map)
qed

lemma blocks_other:
  assumes "bchain_ok SIZE BLOCK chain" and "block_size_ok SIZE BLOCK" and "i < length chain"
    and "off < 4096 div BLOCK" and "j < length chain"
    and "bk_page (chain ! i) + off * BLOCK \<in> used_blocks BLOCK (chain ! j)"
  shows "i = j"
proof -
  have ok: "bucket_ok SIZE BLOCK (chain ! i)" "bucket_ok SIZE BLOCK (chain ! j)"
    using assms(1,3,5) by (simp_all add: bchain_ok_def)
  let ?x = "bk_page (chain ! i) + off * BLOCK"
  have "?x - ?x mod 4096 = bk_page (chain ! j)" by (rule used_block_page [OF assms(2) ok(2) assms(6)])
  moreover have "?x - ?x mod 4096 = bk_page (chain ! i)"
    using ok(1) by (intro block_page [OF assms(2) _ assms(4)]) (simp add: bucket_ok_def)
  ultimately have "bk_page (chain ! i) = bk_page (chain ! j)" by simp
  then show ?thesis by (rule bchain_page_inj [OF assms(1,3,5)])
qed

lemma blocks_update:
  assumes "i < length chain"
  shows "blocks BLOCK (chain[i := b]) = (\<Union>j \<in> {..<length chain} - {i}. used_blocks BLOCK (chain ! j)) \<union> used_blocks BLOCK b"
  using assms by (auto simp: blocks_nth nth_list_update split: if_splits)

lemma blocks_split:
  assumes "i < length chain"
  shows "blocks BLOCK chain = (\<Union>j \<in> {..<length chain} - {i}. used_blocks BLOCK (chain ! j)) \<union> used_blocks BLOCK (chain ! i)"
  using blocks_update [OF assms, of BLOCK "chain ! i"] by simp

lemma blocks_take:
  assumes "virt_doc P" and "block_size_ok SIZE BLOCK" and "bchain_ok SIZE BLOCK chain" and "i < length chain"
    and "take_block P BLOCK (chain ! i) = Ret (Some (a, b))"
  shows "a \<notin> blocks BLOCK chain \<and> blocks BLOCK (chain[i := b]) = insert a (blocks BLOCK chain)"
proof -
  have ok: "bucket_ok SIZE BLOCK (chain ! i)" using assms(3,4) by (simp add: bchain_ok_def)
  note t = take_block_ok [OF assms(1,2) ok assms(5)]
  from t(7) obtain off where off: "off < 4096 div BLOCK" "a = bk_page (chain ! i) + off * BLOCK" by blast
  have "a \<notin> used_blocks BLOCK (chain ! j)" if "j < length chain" for j
    using t(5) blocks_other [OF assms(3,2,4) off(1) that] off(2) by blast
  then have "a \<notin> blocks BLOCK chain" by (simp add: blocks_nth)
  moreover have "blocks BLOCK (chain[i := b]) = insert a (blocks BLOCK chain)"
    unfolding blocks_split [OF assms(4)] blocks_update [OF assms(4)] t(6) by blast
  ultimately show ?thesis by blast
qed

lemma blocks_clear:
  assumes "virt_doc P" and "block_size_ok SIZE BLOCK" and "bchain_ok SIZE BLOCK chain" and "i < length chain"
    and "a \<in> blocks BLOCK chain" and "bk_page (chain ! i) = a - a mod 4096"
    and "clear_block P BLOCK (chain ! i) a = Ret b"
  shows "bucket_ok SIZE BLOCK b \<and> bk_page b = bk_page (chain ! i) \<and> bk_box b = bk_box (chain ! i) \<and>
    blocks BLOCK (chain[i := b]) = blocks BLOCK chain - {a}"
proof -
  from assms(5) obtain j where j: "j < length chain" "a \<in> used_blocks BLOCK (chain ! j)" by (auto simp: blocks_nth)
  have ok: "bucket_ok SIZE BLOCK (chain ! j)" using assms(3) j(1) by (simp add: bchain_ok_def)
  obtain off where off: "off < 4096 div BLOCK" "a = bk_page (chain ! j) + off * BLOCK"
    "a - a mod 4096 = bk_page (chain ! j)" by (rule used_block_page [OF assms(2) ok j(2)])
  have i: "i = j" using bchain_page_inj [OF assms(3,4) j(1)] off(3) assms(6) by simp
  obtain bm where cl: "clear_block P BLOCK (chain ! j) a = Ret ((chain ! j)\<lparr>bk_bitmap := bm\<rparr>)"
    and len: "length bm = length (bk_bitmap (chain ! j))"
    and get: "\<forall>g. bm_get bm g \<longleftrightarrow> g \<noteq> off \<and> bm_get (bk_bitmap (chain ! j)) g"
    using clear_block_ok [OF assms(1,2) ok off(1,2)] by blast
  from cl assms(7) i have b: "b = (chain ! j)\<lparr>bk_bitmap := bm\<rparr>" by simp
  have B: "0 < BLOCK" using assms(2) by (simp add: block_size_ok_def)
  have "used_blocks BLOCK b = used_blocks BLOCK (chain ! i) - {a}"
  proof -
    let ?f = "\<lambda>g. bk_page (chain ! j) + g * BLOCK"
    have inj: "inj ?f" using B by (simp add: inj_on_def)
    have "used_blocks BLOCK b = ?f ` ({g. bm_get (bk_bitmap (chain ! j)) g} - {off})"
      using get by (auto simp: used_blocks_def b)
    also have "\<dots> = used_blocks BLOCK (chain ! j) - {a}"
      unfolding image_set_diff [OF inj] using off(2) by (auto simp: used_blocks_def)
    finally show ?thesis using i by simp
  qed
  moreover have "a \<notin> used_blocks BLOCK (chain ! k)" if "k < length chain" "k \<noteq> i" for k
    using blocks_other [OF assms(3,2) j(1) off(1) that(1)] off(2) i that(2) by blast
  ultimately have "blocks BLOCK (chain[i := b]) = blocks BLOCK chain - {a}"
    unfolding blocks_split [OF assms(4)] blocks_update [OF assms(4)] by auto
  moreover have "bucket_ok SIZE BLOCK b" using ok len get unfolding b bucket_ok_def by auto
  ultimately show ?thesis using b i by simp
qed

text \<open>Taking a bucket out of a list.\<close>

lemma chain_pages_split:
  assumes "xs \<noteq> []"
  shows "chain_pages (xs @ b # ys) = map bk_page xs @ bk_page b # map bk_page ys @ map bk_box (tl xs) @ bk_box b # map bk_box ys"
    and "chain_pages (xs @ ys) = map bk_page xs @ map bk_page ys @ map bk_box (tl xs) @ map bk_box ys"
  using assms by (simp_all add: chain_pages_def)

lemma bchain_remove:
  assumes "bchain_ok SIZE BLOCK (xs @ b # ys)" and "xs \<noteq> []"
  shows "bchain_ok SIZE BLOCK (xs @ ys)"
    and "set (chain_pages (xs @ ys)) = set (chain_pages (xs @ b # ys)) - {bk_page b, bk_box b}"
    and "bk_page b \<noteq> bk_box b" and "{bk_page b, bk_box b} \<subseteq> set (chain_pages (xs @ b # ys))"
    and "kernel_page (bk_page b) \<and> kernel_page (bk_box b)"
proof -
  have d: "distinct (map bk_page xs @ bk_page b # map bk_page ys @ map bk_box (tl xs) @ bk_box b # map bk_box ys)"
    using assms(1) unfolding bchain_ok_def chain_pages_split(1) [OF assms(2)] by blast
  from d show "set (chain_pages (xs @ ys)) = set (chain_pages (xs @ b # ys)) - {bk_page b, bk_box b}"
    unfolding chain_pages_split [OF assms(2)] by auto
  from d show "bk_page b \<noteq> bk_box b" by auto
  show "{bk_page b, bk_box b} \<subseteq> set (chain_pages (xs @ b # ys))"
    unfolding chain_pages_split [OF assms(2)] by auto
  have "b \<in> set (tl (xs @ b # ys))" using assms(2) by simp
  with assms(1) show "kernel_page (bk_page b) \<and> kernel_page (bk_box b)"
    by (auto simp: bchain_ok_def bucket_ok_def)
  from d have "distinct (chain_pages (xs @ ys))" unfolding chain_pages_split [OF assms(2)] by auto
  with assms show "bchain_ok SIZE BLOCK (xs @ ys)" by (auto simp: bchain_ok_def)
qed

subsection \<open>Bucket lists over the contract\<close>

context page_allocator
begin

lemma Bucket_new_Ok:
  assumes "virt_doc P" and "pinv p" and "Bucket_new P A SIZE p = Ret (Ok b, p')"
  shows "pinv p' \<and> kernel_page (bk_page b) \<and> bk_page b \<notin> live p \<and> live p' = insert (bk_page b) (live p) \<and>
    b = \<lparr>bk_page = bk_page b, bk_bitmap = replicate SIZE 0, bk_box = 0\<rparr>"
proof -
  from assms(3) obtain a n where al: "pa_allocate A 1 p = Ret (Ok (a, n), p')"
    and b: "obind (virt_from_ptr P a) (\<lambda>x. Ret (Ok \<lparr>bk_page = page_containing P x,
      bk_bitmap = replicate SIZE 0, bk_box = 0\<rparr>, p')) = Ret (Ok b, p')"
    by (auto simp: Bucket_new_def outcome_simps case_result_Ret)
  note law = alloc_Ok [OF assms(2) _ al]
  have "page_span a 1 = {a}" by (rule page_span_one) simp_all
  moreover have "virt_from_ptr P a = Ret a" "page_containing P a = a"
    using law by (simp_all add: kernel_page_def virt_docD [OF assms(1)])
  moreover from this b have eq: "b = \<lparr>bk_page = a, bk_bitmap = replicate SIZE 0, bk_box = 0\<rparr>" by simp
  ultimately show ?thesis using law unfolding eq by auto
qed

lemma Bucket_new_Err:
  assumes "pinv p" and "Bucket_new P A SIZE p = Ret (Err e, p')"
  shows "pinv p' \<and> live p \<subseteq> live p'"
proof -
  from assms(2) have "pa_allocate A 1 p = Ret (Err e, p')"
    by (auto simp: Bucket_new_def outcome_simps case_result_Ret)
  from alloc_Err [OF assms(1) _ this] show ?thesis by simp
qed

lemma allocate_block_grow:
  assumes "virt_doc P" and "block_size_ok SIZE BLOCK" and "0 < bytes" and "bytes \<le> 4096" and "pinv p"
    and "bchain_ok SIZE BLOCK chain" and "chain \<noteq> []" and "set (chain_pages chain) \<subseteq> live p"
    and "Bucket_new P A SIZE p = Ret (Ok nb, p1)" and "pa_allocate A bytes p1 = Ret (Ok (box, n), p')"
    and "take_block P BLOCK (nb\<lparr>bk_box := box\<rparr>) = Ret (Some (a, b))"
  shows "pinv p' \<and> bchain_ok SIZE BLOCK (chain @ [b]) \<and> live p' = {bk_page b, bk_box b} \<union> live p \<and>
    {bk_page b, bk_box b} \<inter> live p = {} \<and> a \<notin> blocks BLOCK chain \<and>
    blocks BLOCK (chain @ [b]) = insert a (blocks BLOCK chain)"
proof -
  note nb = Bucket_new_Ok [OF assms(1,5,9)]
  then have p1: "pinv p1" by blast
  have box: "pinv p'" "kernel_page box" "box \<notin> live p1" "live p' = insert box (live p1)"
    using alloc_Ok [OF p1 assms(3,10)] page_span_one [OF assms(3,4), of box] by auto
  let ?nb = "nb\<lparr>bk_box := box\<rparr>"
  from nb obtain q where q: "nb = \<lparr>bk_page = q, bk_bitmap = replicate SIZE 0, bk_box = 0\<rparr>" by blast
  have ok: "bucket_ok SIZE BLOCK ?nb" using nb unfolding q by (simp add: bucket_ok_def)
  note t = take_block_ok [OF assms(1,2) ok assms(11)]
  have empty: "used_blocks BLOCK ?nb = {}" unfolding q by (simp add: used_blocks_def)
  have pages: "bk_page b = q" "bk_box b = box" using t(2,3) q by simp_all
  have "bk_page c \<in> live p" if "c \<in> set chain" for c using that assms(8) by (auto simp: chain_pages_def)
  have "a \<notin> used_blocks BLOCK c" if c: "c \<in> set chain" for c
  proof
    assume u: "a \<in> used_blocks BLOCK c"
    have cok: "bucket_ok SIZE BLOCK c" using c assms(6) by (simp add: bchain_ok_def)
    have "a - a mod 4096 = bk_page c" by (rule used_block_page [OF assms(2) cok u])
    moreover obtain off where "off < 4096 div BLOCK" "a = q + off * BLOCK" using t(7) q by auto
    then have "a - a mod 4096 = q" using block_page [OF assms(2)] nb q by simp
    ultimately have "q = bk_page c" by simp
    with c assms(8) nb q show False by (auto simp: chain_pages_def)
  qed
  then have "a \<notin> blocks BLOCK chain" by (simp add: blocks_def)
  moreover have "blocks BLOCK (chain @ [b]) = insert a (blocks BLOCK chain)"
    using t(6) empty by (simp add: blocks_def)
  moreover have "bchain_ok SIZE BLOCK (chain @ [b])"
  proof -
    have "distinct (chain_pages (chain @ [b]))"
      using assms(6,8) nb box pages q unfolding bchain_ok_def chain_pages_split(2) [OF assms(7)]
      by (auto simp: chain_pages_def)
    then show ?thesis using assms(6,7) t(1,4) box(2) pages(2) by (auto simp: bchain_ok_def)
  qed
  ultimately show ?thesis using nb box pages q by auto
qed

text \<open>The law of \<open>allocate_block\<close>: the block is new, the list stays well-formed, and every page it
  gains was not live before.\<close>

lemma allocate_block_law:
  assumes "virt_doc P" and "block_size_ok SIZE BLOCK" and "0 < bytes" and "bytes \<le> 4096" and "pinv p"
    and "bchain_ok SIZE BLOCK chain" and "chain \<noteq> []" and "set (chain_pages chain) \<subseteq> live p"
    and "allocate_block P A bytes SIZE BLOCK chain p = Ret (r, chain', p')"
  shows "pinv p' \<and> bchain_ok SIZE BLOCK chain' \<and> chain' \<noteq> [] \<and> live p \<subseteq> live p' \<and>
    set (chain_pages chain) \<subseteq> set (chain_pages chain') \<and>
    set (chain_pages chain') \<subseteq> set (chain_pages chain) \<union> (live p' - live p) \<and>
    (case r of Ok a \<Rightarrow> a \<notin> blocks BLOCK chain \<and> blocks BLOCK chain' = insert a (blocks BLOCK chain)
     | Err _ \<Rightarrow> blocks BLOCK chain' = blocks BLOCK chain)"
  using assms(9)
proof (cases rule: allocate_block_cases)
  case (own i a b')
  have ok: "bucket_ok SIZE BLOCK (chain ! i)" using assms(6) own(1) by (simp add: bchain_ok_def)
  note t = take_block_ok [OF assms(1,2) ok own(2)]
  have "bchain_ok SIZE BLOCK chain'" unfolding own(4)
    by (rule bchain_update [OF assms(6,2) own(1) t(1,2,3)]) (simp add: t(4))
  with blocks_take [OF assms(1,2,6) own(1,2)] chain_pages_update [OF own(1) t(2,3)] own assms(5,7) show ?thesis
    by auto
next
  case (none e)
  with Bucket_new_Err [OF assms(5)] assms(6,7) show ?thesis by auto
next
  case (grow nb p1 box n a b')
  from allocate_block_grow [OF assms(1-8) grow(1-3)]
  have g: "pinv p'" "bchain_ok SIZE BLOCK (chain @ [b'])" "live p' = {bk_page b', bk_box b'} \<union> live p"
    "{bk_page b', bk_box b'} \<inter> live p = {}" "a \<notin> blocks BLOCK chain"
    "blocks BLOCK (chain @ [b']) = insert a (blocks BLOCK chain)" by auto
  have "set (chain_pages (chain @ [b'])) = {bk_page b', bk_box b'} \<union> set (chain_pages chain)"
    unfolding chain_pages_split(2) [OF assms(7)] by (auto simp: chain_pages_def)
  with g grow(4,5) assms(7) show ?thesis by auto
qed

lemma allocate_in_law:
  assumes "virt_doc P" and "block_size_ok SIZE BLOCK" and "0 < bytes" and "bytes \<le> 4096" and "pinv p"
    and "bchain_ok SIZE BLOCK chain" and "set (chain_pages chain) \<subseteq> live p"
    and "allocate_in P A bytes SIZE BLOCK chain p = Ret (r, chain', p')"
  shows "pinv p' \<and> bchain_ok SIZE BLOCK chain' \<and> live p \<subseteq> live p' \<and>
    set (chain_pages chain) \<subseteq> set (chain_pages chain') \<and>
    set (chain_pages chain') \<subseteq> set (chain_pages chain) \<union> (live p' - live p) \<and>
    (case r of Ok a \<Rightarrow> a \<notin> blocks BLOCK chain \<and> blocks BLOCK chain' = insert a (blocks BLOCK chain)
     | Err _ \<Rightarrow> blocks BLOCK chain' = blocks BLOCK chain)"
proof (cases "chain = []")
  case False
  with assms(8) have "allocate_block P A bytes SIZE BLOCK chain p = Ret (r, chain', p')"
    by (simp add: allocate_in_def)
  from allocate_block_law [OF assms(1-6) False assms(7) this] show ?thesis by blast
next
  case True
  from assms(8) True obtain q p1 where new: "Bucket_new P A SIZE p = Ret (q, p1)" by (auto simp: allocate_in_def outcome_simps)
  show ?thesis
  proof (cases q)
    case (Err e)
    with assms(8) True new Bucket_new_Err [OF assms(5), of P SIZE e p1] show ?thesis
      by (auto simp: allocate_in_def bchain_ok_def chain_pages_def)
  next
    case (Ok b)
    note nb = Bucket_new_Ok [OF assms(1,5) new [unfolded Ok]]
    then obtain pg where b: "b = \<lparr>bk_page = pg, bk_bitmap = replicate SIZE 0, bk_box = 0\<rparr>" by blast
    have ok: "bucket_ok SIZE BLOCK b" using nb unfolding b by (simp add: bucket_ok_def)
    have "0 < 4096 div BLOCK" using assms(2) by (auto simp: block_size_ok_def div_greater_zero_iff)
    then obtain a b' where t: "take_block P BLOCK b = Ret (Some (a, b'))"
      using take_block_cases [OF assms(1,2) ok] unfolding b by auto
    then have ab: "allocate_block P A bytes SIZE BLOCK [b] p1 = Ret (Ok a, [b'], p1)" by simp
    with assms(8) True new Ok have res: "r = Ok a" "chain' = [b']" "p' = p1" by (auto simp: allocate_in_def)
    have e: "used_blocks BLOCK b = {}" unfolding b by (simp add: used_blocks_def)
    note tk = take_block_ok [OF assms(1,2) ok t]
    show ?thesis using nb tk e res True by (auto simp: bchain_ok_def chain_pages_def blocks_def)
  qed
qed

lemma Box_drop_law:
  assumes "0 < bytes" and "bytes \<le> 4096" and "pinv p" and "kernel_page (bk_page b) \<and> kernel_page (bk_box b)"
    and "bk_page b \<noteq> bk_box b" and "{bk_page b, bk_box b} \<subseteq> live p" and "Box_drop A bytes b p = Ret p'"
  shows "pinv p' \<and> live p' = live p - {bk_page b, bk_box b}"
proof -
  from assms(7) obtain p1 where p1: "pa_deallocate A (bk_page b) 1 p = Ret p1" "pa_deallocate A (bk_box b) bytes p1 = Ret p'"
    by (auto simp: Box_drop_def Bucket_drop_def outcome_simps)
  have l1: "pinv p1" "live p1 = live p - {bk_page b}"
    using dealloc [OF assms(3) _ _ _ p1(1)] assms(4,6) by (auto simp: page_span_one kernel_page_def)
  with dealloc [OF l1(1) assms(1) _ _ p1(2)] assms(4,5,6) show ?thesis
    by (auto simp: page_span_one [OF assms(1,2)] kernel_page_def)
qed

text \<open>The law of \<open>free_block\<close> for a block in use: exactly that block is given back, and the pages the
  list loses are no longer live.\<close>

lemma free_block_law:
  assumes "virt_doc P" and "block_size_ok SIZE BLOCK" and "0 < bytes" and "bytes \<le> 4096" and "pinv p"
    and "bchain_ok SIZE BLOCK chain" and "set (chain_pages chain) \<subseteq> live p" and "a \<in> blocks BLOCK chain"
    and "free_block P A bytes BLOCK chain a p = Ret (chain', p')"
  shows "pinv p' \<and> bchain_ok SIZE BLOCK chain' \<and> blocks BLOCK chain' = blocks BLOCK chain - {a} \<and>
    set (chain_pages chain') \<subseteq> set (chain_pages chain) \<and>
    live p' = live p - (set (chain_pages chain) - set (chain_pages chain'))"
proof -
  have down: "virt_align_down P a 4096 = a - a mod 4096" by (simp add: virt_docD [OF assms(1)])
  have full: "\<forall>b \<in> set (tl chain). \<not> Bucket_is_empty b" using assms(6) by (simp add: bchain_ok_def)
  show ?thesis using assms(9) full
  proof (cases rule: free_block_cases)
    case foreign
    obtain b where b: "b \<in> set chain" "a \<in> used_blocks BLOCK b" using assms(8) by (auto simp: blocks_def)
    have "bucket_ok SIZE BLOCK b" using b(1) assms(6) by (simp add: bchain_ok_def)
    then have "a - a mod 4096 = bk_page b" using b(2) by (rule used_block_page [OF assms(2)])
    with foreign(1) b(1) down show ?thesis by auto
  next
    case (clear i b')
    note c = blocks_clear [OF assms(1,2,6) clear(1) assms(8) clear(2) [unfolded down] clear(3)]
    then have "bchain_ok SIZE BLOCK (chain[i := b'])"
      by (intro bchain_update [OF assms(6,2) clear(1)]) (use clear(4) in auto)
    with c chain_pages_update [OF clear(1), of b'] clear(5,6) assms(5) show ?thesis by simp
  next
    case (drop i b')
    note c = blocks_clear [OF assms(1,2,6) drop(1) assms(8) drop(2) [unfolded down] drop(3)]
    define xs ys where "xs = take i chain" and "ys = List.drop (Suc i) chain"
    have ch: "chain = xs @ chain ! i # ys" using drop(1) by (simp add: xs_def ys_def id_take_nth_drop [symmetric])
    have ne: "xs \<noteq> []" using drop(1,4) by (auto simp: xs_def)
    have upd: "chain[i := b'] = xs @ b' # ys" using drop(1) by (simp add: xs_def ys_def upd_conv_take_nth_drop)
    have rm: "bchain_ok SIZE BLOCK (xs @ ys)"
      "set (chain_pages (xs @ ys)) = set (chain_pages chain) - {bk_page b', bk_box b'}"
      "bk_page b' \<noteq> bk_box b'" "{bk_page b', bk_box b'} \<subseteq> set (chain_pages chain)"
      "kernel_page (bk_page b') \<and> kernel_page (bk_box b')"
      using bchain_remove [of SIZE BLOCK xs "chain ! i" ys] ch ne assms(6) c by auto
    have "used_blocks BLOCK b' = {}" using drop(5) by (simp add: Bucket_is_empty_iff used_blocks_def)
    then have "blocks BLOCK (xs @ ys) = blocks BLOCK chain - {a}" using c upd by (simp add: blocks_def)
    moreover from Box_drop_law [OF assms(3,4,5) rm(5,3) _ drop(6)] rm(4) assms(7)
    have "pinv p'" "live p' = live p - {bk_page b', bk_box b'}" by auto
    moreover have "chain' = xs @ ys" using drop(7) by (simp add: xs_def ys_def)
    ultimately show ?thesis using rm by auto
  qed
qed

end

subsection \<open>The invariant of the kernel allocator\<close>

abbreviation SIZE_of :: "nat \<Rightarrow> nat" where
  "SIZE_of i \<equiv> fst (BUCKETS ! i)"

abbreviation BLOCK_of :: "nat \<Rightarrow> nat" where
  "BLOCK_of i \<equiv> snd (BUCKETS ! i)"

lemma less_9: "i < 9 \<longleftrightarrow> i \<in> {0, 1, 2, 3, 4, 5, 6, 7, 8 :: nat}"
  by auto

lemma BUCKETS_ok: "i < 9 \<Longrightarrow> block_size_ok (SIZE_of i) (BLOCK_of i)"
  unfolding less_9 by (auto simp: BUCKETS_def block_size_ok_def)

lemma BUCKETS_pow: "i < 9 \<Longrightarrow> BLOCK_of i = 2 ^ (i + 3)"
  unfolding less_9 by (auto simp: BUCKETS_def)

lemma bucket_index_Some: "bucket_index m = Some i \<Longrightarrow> i < 9 \<and> m \<le> BLOCK_of i"
  by (auto simp: bucket_index_def BUCKETS_def split: if_splits)

lemma bucket_index_None: "bucket_index m = None \<longleftrightarrow> 2048 < m"
  by (auto simp: bucket_index_def)

definition K_ok :: "Bucket list list \<Rightarrow> bool" where
  "K_ok buckets \<longleftrightarrow> length buckets = 9 \<and>
     (\<forall>i < 9. bchain_ok (SIZE_of i) (BLOCK_of i) (buckets ! i)) \<and>
     (\<forall>i < 9. \<forall>j < 9. i \<noteq> j \<longrightarrow> set (chain_pages (buckets ! i)) \<inter> set (chain_pages (buckets ! j)) = {})"

definition K_pages :: "Bucket list list \<Rightarrow> nat set" where
  "K_pages buckets = (\<Union>i < 9. set (chain_pages (buckets ! i)))"

text \<open>
  The allocations a client holds are triples of address, size and alignment.  \<open>held_in i\<close> are the
  addresses it holds from bucket list \<open>i\<close>, \<open>held_pages\<close> the pages of its larger allocations.
\<close>

type_synonym held = "(nat \<times> nat \<times> nat) list"

definition held_in :: "nat \<Rightarrow> held \<Rightarrow> nat list" where
  "held_in i h = map fst (filter (\<lambda>(a, sz, align). bucket_index (max sz align) = Some i) h)"

definition held_pages :: "held \<Rightarrow> nat list" where
  "held_pages h = concat (map (\<lambda>(a, sz, align). map (\<lambda>k. a + k * 4096) [0..<div_ceil sz 4096])
     (filter (\<lambda>(a, sz, align). bucket_index (max sz align) = None) h))"

definition K_held :: "held \<Rightarrow> Bucket list list \<Rightarrow> nat set \<Rightarrow> bool" where
  "K_held h buckets L \<longleftrightarrow> K_ok buckets \<and> K_pages buckets \<subseteq> L \<and>
     (\<forall>i < 9. distinct (held_in i h) \<and> set (held_in i h) = blocks (BLOCK_of i) (buckets ! i)) \<and>
     distinct (held_pages h) \<and> set (held_pages h) \<subseteq> L - K_pages buckets \<and>
     (\<forall>(a, sz, align) \<in> set h. 0 < sz \<and> 0 < align \<and> (bucket_index (max sz align) = None \<longrightarrow> kernel_page a))"

lemma held_in_append [simp]: "held_in i (xs @ ys) = held_in i xs @ held_in i ys"
  by (simp add: held_in_def)

lemma held_in_Cons [simp]:
  "held_in i ((a, sz, align) # h) = (if bucket_index (max sz align) = Some i then a # held_in i h else held_in i h)"
  by (simp add: held_in_def)

lemma held_pages_append [simp]: "held_pages (xs @ ys) = held_pages xs @ held_pages ys"
  by (simp add: held_pages_def)

lemma held_pages_Cons [simp]:
  "held_pages ((a, sz, align) # h) =
     (if bucket_index (max sz align) = None then map (\<lambda>k. a + k * 4096) [0..<div_ceil sz 4096] else []) @ held_pages h"
  by (simp add: held_pages_def)

lemma held_empty: "held_in i [] = []" "held_pages [] = []"
  by (simp_all add: held_in_def held_pages_def)

lemma set_span: "set (map (\<lambda>k. a + k * 4096) [0..<div_ceil sz 4096]) = page_span a sz"
  by (simp add: page_span_def)

lemma distinct_span: "distinct (map (\<lambda>k. a + k * 4096 :: nat) [0..<n])"
  by (simp add: distinct_map inj_on_def)

text \<open>Replacing one bucket list of a well-formed allocator.\<close>

lemma K_ok_update:
  assumes "K_ok buckets" and "i < 9" and "bchain_ok (SIZE_of i) (BLOCK_of i) chain"
    and "set (chain_pages chain) \<inter> (K_pages buckets - set (chain_pages (buckets ! i))) = {}"
  shows "K_ok (buckets[i := chain])"
proof -
  have len: "length buckets = 9" using assms(1) by (simp add: K_ok_def)
  have "set (chain_pages chain) \<inter> set (chain_pages (buckets ! j)) = {}" if j: "j < 9" "j \<noteq> i" for j
  proof -
    have "set (chain_pages (buckets ! i)) \<inter> set (chain_pages (buckets ! j)) = {}"
      using assms(1,2) j by (auto simp: K_ok_def)
    moreover have "set (chain_pages (buckets ! j)) \<subseteq> K_pages buckets" using j by (auto simp: K_pages_def)
    ultimately show ?thesis using assms(4) by auto
  qed
  with assms(1-3) len show ?thesis by (auto simp: K_ok_def nth_list_update)
qed

lemma K_pages_update:
  assumes "K_ok buckets" and "i < 9"
  shows "K_pages (buckets[i := chain]) = (K_pages buckets - set (chain_pages (buckets ! i))) \<union> set (chain_pages chain)"
proof -
  have len: "length buckets = 9" using assms(1) by (simp add: K_ok_def)
  have "K_pages (buckets[i := chain]) = (\<Union>j \<in> {..<9} - {i}. set (chain_pages (buckets ! j))) \<union> set (chain_pages chain)"
    using assms(2) len by (auto simp: K_pages_def nth_list_update split: if_splits)
  moreover have "(\<Union>j \<in> {..<9} - {i}. set (chain_pages (buckets ! j))) = K_pages buckets - set (chain_pages (buckets ! i))"
    using assms by (auto simp: K_pages_def K_ok_def)
  ultimately show ?thesis by simp
qed

text \<open>A boxed bucket fits a page.\<close>

definition bytes_ok :: "(nat \<Rightarrow> nat) \<Rightarrow> bool" where
  "bytes_ok bytes \<longleftrightarrow> (\<forall>i < 9. 0 < bytes (SIZE_of i) \<and> bytes (SIZE_of i) \<le> 4096)"

lemma block_address:
  assumes "bchain_ok SIZE BLOCK chain" and "block_size_ok SIZE BLOCK" and "a \<in> blocks BLOCK chain"
  shows "canonical a" and "0 < a" and "a - a mod 4096 \<in> set (chain_pages chain)" and "a mod BLOCK = 0"
    and "a mod 4096 + BLOCK \<le> 4096"
proof -
  from assms(3) obtain b where b: "b \<in> set chain" "a \<in> used_blocks BLOCK b" by (auto simp: blocks_def)
  have ok: "bucket_ok SIZE BLOCK b" using b(1) assms(1) by (simp add: bchain_ok_def)
  then have kp: "kernel_page (bk_page b)" by (simp add: bucket_ok_def)
  obtain off where off: "off < 4096 div BLOCK" "a = bk_page b + off * BLOCK" "a - a mod 4096 = bk_page b"
    by (rule used_block_page [OF assms(2) ok b(2)])
  note bd = block_offset_bound [OF assms(2) off(1)]
  have B: "0 < BLOCK" "BLOCK dvd 4096" using assms(2) by (simp_all add: block_size_ok_def)
  show "canonical a" using page_plus_canonical [OF kp, of "off * BLOCK"] bd B off(2) by simp
  show "0 < a" using kp off(2) by (simp add: kernel_page_def)
  show "a - a mod 4096 \<in> set (chain_pages chain)" using b(1) off(3) by (simp add: chain_pages_def)
  have "BLOCK dvd bk_page b" using kp B(2) by (meson dvd_trans kernel_page_def mod_0_imp_dvd)
  then show "a mod BLOCK = 0" using off(2) by simp
  have "a mod 4096 = off * BLOCK" using off(2,3) mod_less_eq_dividend [of a 4096] by linarith
  with bd show "a mod 4096 + BLOCK \<le> 4096" by simp
qed

context page_allocator
begin

lemma K_allocate_small:
  assumes "virt_doc P" and "bytes_ok bytes" and "pinv p" and "K_held h buckets (live p)" and "0 < sz" and "0 < align"
    and "bucket_index (max sz align) = Some i" and "K_allocate P A bytes sz align buckets p = Ret (r, buckets', p')"
  shows "pinv p' \<and> (case r of Ok (a, n) \<Rightarrow> n = sz \<and> K_held ((a, sz, align) # h) buckets' (live p')
    | Err _ \<Rightarrow> K_held h buckets' (live p'))"
proof -
  have i: "i < 9" using bucket_index_Some [OF assms(7)] by simp
  note bs = BUCKETS_ok [OF i]
  have K: "K_ok buckets" "K_pages buckets \<subseteq> live p" using assms(4) by (simp_all add: K_held_def)
  have ch: "bchain_ok (SIZE_of i) (BLOCK_of i) (buckets ! i)" "set (chain_pages (buckets ! i)) \<subseteq> K_pages buckets"
    using K(1) i by (auto simp: K_ok_def K_pages_def)
  have bt: "0 < bytes (SIZE_of i)" "bytes (SIZE_of i) \<le> 4096" using assms(2) i by (simp_all add: bytes_ok_def)
  from assms(7,8) obtain q chain where al: "allocate_in P A (bytes (SIZE_of i)) (SIZE_of i) (BLOCK_of i) (buckets ! i) p = Ret (q, chain, p')"
    and res: "(case q of Err e \<Rightarrow> Ret (Err e, buckets[i := chain], p')
      | Ok addr \<Rightarrow> if addr = 0 then Ret (Err AllocError, buckets[i := chain], p')
          else Ret (Ok (addr, sz), buckets[i := chain], p')) = Ret (r, buckets', p')"
    by (auto simp: K_allocate_def case_prod_beta Let_def outcome_simps case_result_Ret split: if_splits)
  have sub: "set (chain_pages (buckets ! i)) \<subseteq> live p" using ch(2) K(2) by blast
  note law = allocate_in_law [OF assms(1) bs bt assms(3) ch(1) sub al]
  then have ok': "bchain_ok (SIZE_of i) (BLOCK_of i) chain" and new: "live p \<subseteq> live p'"
    "set (chain_pages chain) \<subseteq> set (chain_pages (buckets ! i)) \<union> (live p' - live p)"
    "set (chain_pages (buckets ! i)) \<subseteq> set (chain_pages chain)" by blast+
  have K': "K_ok (buckets[i := chain])" using new K(2) by (intro K_ok_update [OF K(1) i ok']) auto
  note pages = K_pages_update [OF K(1) i, of chain]
  have len: "length buckets = 9" using K(1) by (simp add: K_ok_def)
  have hp: "set (held_pages h) \<subseteq> live p - K_pages buckets" using assms(4) by (simp add: K_held_def)
  have common: "K_pages (buckets[i := chain]) \<subseteq> live p'" "set (held_pages h) \<subseteq> live p' - K_pages (buckets[i := chain])"
    using K(2) new hp ch(2) unfolding pages by blast+
  have upd: "(buckets[i := chain]) ! j = (if j = i then chain else buckets ! j)" if "j < 9" for j
    using that len i by simp
  show ?thesis
  proof (cases q)
    case (Ok a)
    with law have a: "a \<notin> blocks (BLOCK_of i) (buckets ! i)" "blocks (BLOCK_of i) chain = insert a (blocks (BLOCK_of i) (buckets ! i))"
      by simp_all
    then have "0 < a" using block_address(2) [OF ok' bs] by blast
    with res Ok have r: "r = Ok (a, sz)" "buckets' = buckets[i := chain]" by auto
    have "K_held ((a, sz, align) # h) buckets' (live p')"
      using assms(4-7) K' common a upd i unfolding K_held_def r(2) by auto
    with law r show ?thesis by simp
  next
    case (Err e)
    with res have r: "r = Err e" "buckets' = buckets[i := chain]" by auto
    have "K_held h buckets' (live p')"
      using assms(4) K' common law Err upd i unfolding K_held_def r(2) by auto
    with law r show ?thesis by simp
  qed
qed

lemma K_allocate_large:
  assumes "pinv p" and "K_held h buckets (live p)" and "0 < sz" and "0 < align"
    and "bucket_index (max sz align) = None" and "K_allocate P A bytes sz align buckets p = Ret (r, buckets', p')"
  shows "pinv p' \<and> (case r of Ok (a, n) \<Rightarrow> n = sz \<and> K_held ((a, sz, align) # h) buckets' (live p')
    | Err _ \<Rightarrow> K_held h buckets' (live p'))"
proof -
  from assms(5,6) have al: "pa_allocate A sz p = Ret (r, p')" "buckets' = buckets"
    by (auto simp: K_allocate_def outcome_simps)
  show ?thesis
  proof (cases r)
    case (Ok x)
    obtain a n where x: "x = (a, n)" by (cases x)
    note law = alloc_Ok [OF assms(1,3) al(1) [unfolded Ok x]]
    have "K_held ((a, sz, align) # h) buckets (live p')"
      using assms(2-5) law unfolding K_held_def
      by (auto simp: set_span [symmetric] distinct_span simp del: upt_Suc)
    with law al Ok x show ?thesis by simp
  next
    case (Err e)
    with alloc_Err [OF assms(1,3)] al assms(2) show ?thesis by (auto simp: K_held_def)
  qed
qed

lemma K_deallocate_small:
  assumes "virt_doc P" and "bytes_ok bytes" and "pinv p" and "K_held (xs @ (a, sz, align) # ys) buckets (live p)"
    and "bucket_index (max sz align) = Some i" and "K_deallocate P A bytes a sz align buckets p = Ret (buckets', p')"
  shows "pinv p' \<and> K_held (xs @ ys) buckets' (live p')"
proof -
  have i: "i < 9" using bucket_index_Some [OF assms(5)] by simp
  note bs = BUCKETS_ok [OF i]
  have K: "K_ok buckets" "K_pages buckets \<subseteq> live p" using assms(4) by (simp_all add: K_held_def)
  have ch: "bchain_ok (SIZE_of i) (BLOCK_of i) (buckets ! i)" "set (chain_pages (buckets ! i)) \<subseteq> K_pages buckets"
    using K(1) i by (auto simp: K_ok_def K_pages_def)
  have bt: "0 < bytes (SIZE_of i)" "bytes (SIZE_of i) \<le> 4096" using assms(2) i by (simp_all add: bytes_ok_def)
  have "set (held_in i (xs @ (a, sz, align) # ys)) = blocks (BLOCK_of i) (buckets ! i)"
    using assms(4) i unfolding K_held_def by blast
  then have mem: "a \<in> blocks (BLOCK_of i) (buckets ! i)" using assms(5) by auto
  from assms(5,6) block_address(1) [OF ch(1) bs mem] obtain chain where
    fr: "free_block P A (bytes (SIZE_of i)) (BLOCK_of i) (buckets ! i) a p = Ret (chain, p')" "buckets' = buckets[i := chain]"
    by (auto simp: K_deallocate_def virt_docD(7) [OF assms(1)] case_prod_beta Let_def outcome_simps split: if_splits)
  have sub: "set (chain_pages (buckets ! i)) \<subseteq> live p" using ch(2) K(2) by blast
  from free_block_law [OF assms(1) bs bt assms(3) ch(1) sub mem fr(1)]
  have law: "pinv p'" "bchain_ok (SIZE_of i) (BLOCK_of i) chain"
    "blocks (BLOCK_of i) chain = blocks (BLOCK_of i) (buckets ! i) - {a}"
    "set (chain_pages chain) \<subseteq> set (chain_pages (buckets ! i))"
    "live p' = live p - (set (chain_pages (buckets ! i)) - set (chain_pages chain))" by blast+
  have K': "K_ok (buckets[i := chain])" using law(4) by (intro K_ok_update [OF K(1) i law(2)]) auto
  note pages = K_pages_update [OF K(1) i, of chain]
  have hp: "set (held_pages (xs @ ys)) \<subseteq> live p - K_pages buckets" "distinct (held_pages (xs @ ys))"
    using assms(4,5) by (auto simp: K_held_def)
  have common: "K_pages (buckets[i := chain]) \<subseteq> live p'" "set (held_pages (xs @ ys)) \<subseteq> live p' - K_pages (buckets[i := chain])"
    using K(2) law(4,5) hp(1) ch(2) unfolding pages by blast+
  have "distinct (held_in j (xs @ ys)) \<and> set (held_in j (xs @ ys)) = blocks (BLOCK_of j) ((buckets[i := chain]) ! j)"
    if j: "j < 9" for j
  proof -
    have d: "distinct (held_in j (xs @ (a, sz, align) # ys))"
      "set (held_in j (xs @ (a, sz, align) # ys)) = blocks (BLOCK_of j) (buckets ! j)"
      using assms(4) j unfolding K_held_def by blast+
    have len: "length buckets = 9" using K(1) by (simp add: K_ok_def)
    show ?thesis using d law(3) assms(5) i len j by (cases "j = i") auto
  qed
  with K' common hp(2) assms(4) law(1) show ?thesis unfolding K_held_def fr(2) by auto
qed

lemma K_deallocate_large:
  assumes "virt_doc P" and "pinv p" and "K_held (xs @ (a, sz, align) # ys) buckets (live p)"
    and "bucket_index (max sz align) = None" and "K_deallocate P A bytes a sz align buckets p = Ret (buckets', p')"
  shows "pinv p' \<and> K_held (xs @ ys) buckets' (live p')"
proof -
  have a: "kernel_page a" "0 < sz" using assms(3,4) by (auto simp: K_held_def)
  have span: "page_span a sz \<subseteq> live p - K_pages buckets"
    "page_span a sz \<inter> set (held_pages (xs @ ys)) = {}"
    using assms(3,4) unfolding K_held_def set_span [symmetric] by auto
  from assms(4,5) a(1) have de: "pa_deallocate A a sz p = Ret p'" "buckets' = buckets"
    by (auto simp: K_deallocate_def virt_docD(7) [OF assms(1)] kernel_page_def outcome_simps)
  have law: "pinv p'" "live p' = live p - page_span a sz"
    using dealloc [OF assms(2) a(2) _ _ de(1)] a(1) span(1) by (auto simp: kernel_page_def)
  have "K_held (xs @ ys) buckets (live p')"
    using assms(3,4) span law(2) unfolding K_held_def by auto
  with law(1) de(2) show ?thesis by simp
qed

end

subsection \<open>Clients\<close>

text \<open>
  A client obeys the rules of the allocator traits: it asks for a positive size with a power of two
  as alignment, and frees only what it holds, with the layout it asked for.
\<close>

inductive k_step ::
  "platform \<Rightarrow> 'p palloc \<Rightarrow> (nat \<Rightarrow> nat) \<Rightarrow> held \<times> Bucket list list \<times> 'p \<Rightarrow> held \<times> Bucket list list \<times> 'p \<Rightarrow> bool"
  for P A bytes where
  k_alloc: "0 < sz \<Longrightarrow> K_allocate P A bytes sz (2 ^ e) buckets p = Ret (Ok (a, n), buckets', p') \<Longrightarrow>
    k_step P A bytes (h, buckets, p) ((a, sz, 2 ^ e) # h, buckets', p')"
| k_fail: "0 < sz \<Longrightarrow> K_allocate P A bytes sz (2 ^ e) buckets p = Ret (Err err, buckets', p') \<Longrightarrow>
    k_step P A bytes (h, buckets, p) (h, buckets', p')"
| k_free: "K_deallocate P A bytes a sz align buckets p = Ret (buckets', p') \<Longrightarrow>
    k_step P A bytes (xs @ (a, sz, align) # ys, buckets, p) (xs @ ys, buckets', p')"

inductive k_run ::
  "platform \<Rightarrow> 'p palloc \<Rightarrow> (nat \<Rightarrow> nat) \<Rightarrow> held \<times> Bucket list list \<times> 'p \<Rightarrow> held \<times> Bucket list list \<times> 'p \<Rightarrow> bool"
  for P A bytes x where
  k_run_start: "k_run P A bytes x x"
| k_run_step: "k_run P A bytes x y \<Longrightarrow> k_step P A bytes y z \<Longrightarrow> k_run P A bytes x z"

lemma K_held_start: "K_held [] KAllocator_new L"
proof -
  have "KAllocator_new ! i = []" if "i < 9" for i using that by (simp add: KAllocator_new_def)
  then show ?thesis
    by (auto simp: K_held_def K_ok_def K_pages_def held_empty blocks_def bchain_ok_def chain_pages_def)
      (simp add: KAllocator_new_def)
qed

context page_allocator
begin

lemma k_step_keeps:
  assumes "k_step P A bytes (h, buckets, p) (h', buckets', p')" and "virt_doc P" and "bytes_ok bytes"
    and "pinv p" and "K_held h buckets (live p)"
  shows "pinv p' \<and> K_held h' buckets' (live p')"
  using assms(1)
proof cases
  case (k_alloc sz e a n)
  show ?thesis
  proof (cases "bucket_index (max sz (2 ^ e))")
    case None
    from K_allocate_large [OF assms(4,5) k_alloc(2) _ None k_alloc(3)] k_alloc(1) show ?thesis by simp
  next
    case (Some i)
    from K_allocate_small [OF assms(2-5) k_alloc(2) _ Some k_alloc(3)] k_alloc(1) show ?thesis by simp
  qed
next
  case (k_fail sz e err)
  show ?thesis
  proof (cases "bucket_index (max sz (2 ^ e))")
    case None
    from K_allocate_large [OF assms(4,5) k_fail(2) _ None k_fail(3)] k_fail(1) show ?thesis by simp
  next
    case (Some i)
    from K_allocate_small [OF assms(2-5) k_fail(2) _ Some k_fail(3)] k_fail(1) show ?thesis by simp
  qed
next
  case (k_free a sz align xs ys)
  show ?thesis
  proof (cases "bucket_index (max sz align)")
    case None
    from K_deallocate_large [OF assms(2,4) assms(5) [unfolded k_free(1)] None k_free(3)] k_free(2) show ?thesis by simp
  next
    case (Some i)
    from K_deallocate_small [OF assms(2-4) assms(5) [unfolded k_free(1)] Some k_free(3)] k_free(2) show ?thesis by simp
  qed
qed

lemma k_run_keeps:
  assumes "k_run P A bytes (h, buckets, p) y" and "virt_doc P" and "bytes_ok bytes"
    and "pinv p" and "K_held h buckets (live p)"
  shows "case y of (h', buckets', p') \<Rightarrow> pinv p' \<and> K_held h' buckets' (live p')"
  using assms(1)
proof (induction rule: k_run.induct)
  case k_run_start
  show ?case using assms(4,5) by simp
next
  case (k_run_step y z)
  obtain h1 b1 p1 where y: "y = (h1, b1, p1)" by (cases y)
  obtain h2 b2 p2 where z: "z = (h2, b2, p2)" by (cases z)
  from k_step_keeps [OF k_run_step.hyps(2) [unfolded y z] assms(2,3)] k_run_step.IH show ?case by (simp add: y z)
qed

end

subsection \<open>Held allocations do not overlap\<close>

lemma sorted_wrt_split:
  assumes "\<And>xs x ys y. l = xs @ x # ys \<Longrightarrow> y \<in> set ys \<Longrightarrow> R x y"
  shows "sorted_wrt R l"
  using assms
proof (induction l)
  case (Cons a l)
  have "R a y" if "y \<in> set l" for y using Cons.prems [of "[]" a l y] that by simp
  moreover have "sorted_wrt R l"
  proof (rule Cons.IH)
    fix xs x ys y assume "l = xs @ x # ys" "y \<in> set ys"
    then show "R x y" using Cons.prems [of "a # xs" x ys y] by simp
  qed
  ultimately show ?case by simp
qed simp

definition extent :: "nat \<times> nat \<times> nat \<Rightarrow> nat set" where
  "extent = (\<lambda>(a, sz, align). {a..<a + sz})"

lemma page_of_eq: "(x :: nat) - x mod 4096 = x div 4096 * 4096"
  by (simp add: minus_mod_eq_div_mult)

text \<open>Where the bytes of a held allocation lie.\<close>

lemma small_extent:
  assumes "K_held h buckets L" and "(a, sz, align) \<in> set h" and "bucket_index (max sz align) = Some i"
    and "x \<in> {a..<a + sz}"
  shows "x div BLOCK_of i * BLOCK_of i = a" and "x - x mod 4096 \<in> set (chain_pages (buckets ! i))"
proof -
  have i: "i < 9" "sz \<le> BLOCK_of i" using bucket_index_Some [OF assms(3)] by auto
  note bs = BUCKETS_ok [OF i(1)]
  have "a \<in> set (held_in i h)" using assms(2,3) by (force simp: held_in_def)
  then have mem: "a \<in> blocks (BLOCK_of i) (buckets ! i)" using assms(1) i(1) unfolding K_held_def by blast
  have ch: "bchain_ok (SIZE_of i) (BLOCK_of i) (buckets ! i)" using assms(1) i(1) by (simp add: K_held_def K_ok_def)
  note ba = block_address [OF ch bs mem]
  obtain d where d: "x = a + d" "d < BLOCK_of i" using assms(4) i(2) by (auto simp: le_iff_add)
  have B: "0 < BLOCK_of i" using bs by (simp add: block_size_ok_def)
  obtain q where q: "a = q * BLOCK_of i" using ba(4) by (auto simp: mod_eq_0_iff_dvd dvd_def mult.commute)
  show "x div BLOCK_of i * BLOCK_of i = a" using B d unfolding q by simp
  have "a mod 4096 + d < 4096" using ba(5) d(2) by linarith
  moreover have "x mod 4096 = (a mod 4096 + d) mod 4096" unfolding d(1) by (simp add: mod_simps)
  ultimately have "x mod 4096 = a mod 4096 + d" by simp
  then have "x - x mod 4096 = a - a mod 4096" using d(1) by simp
  then show "x - x mod 4096 \<in> set (chain_pages (buckets ! i))" using ba(3) by simp
qed

lemma large_extent:
  assumes "kernel_page a" and "x \<in> {a..<a + sz}"
  shows "x - x mod 4096 \<in> page_span a sz"
proof -
  obtain d where d: "x = a + d" "d < sz" using assms(2) by (auto simp: le_iff_add)
  let ?k = "d div 4096"
  obtain q where q: "a = q * 4096" using assms(1) by (auto simp: kernel_page_def mod_eq_0_iff_dvd dvd_def mult.commute)
  have "x div 4096 = q + ?k" by (simp add: d(1) q)
  then have "x - x mod 4096 = a + ?k * 4096" by (simp add: page_of_eq q algebra_simps)
  moreover have "?k < div_ceil sz 4096"
  proof -
    have "d < div_ceil sz 4096 * 4096" using d(2) div_ceil_bounds(1) [of 4096 sz] by simp
    then show ?thesis by (simp add: less_mult_imp_div_less)
  qed
  ultimately show ?thesis by (auto simp: page_span_def)
qed

lemma held_kernel_page:
  assumes "K_held h buckets L" and "(a, sz, align) \<in> set h" and "bucket_index (max sz align) = None"
  shows "kernel_page a"
proof -
  have "case (a, sz, align) of (a, sz, align) \<Rightarrow> 0 < sz \<and> 0 < align \<and> (bucket_index (max sz align) = None \<longrightarrow> kernel_page a)"
    using assms(1,2) unfolding K_held_def by fast
  with assms(3) show ?thesis by simp
qed

lemma held_disjoint:
  assumes "K_held h buckets L"
  shows "sorted_wrt (\<lambda>x y. extent x \<inter> extent y = {}) h"
proof (rule sorted_wrt_split)
  fix xs x ys y assume h: "h = xs @ x # ys" and y: "y \<in> set ys"
  obtain a sz al b n bl where xy: "x = (a, sz, al)" "y = (b, n, bl)" by (cases x, cases y)
  obtain us vs where ys: "ys = us @ y # vs" using y by (auto simp: in_set_conv_decomp)
  have mem: "(a, sz, al) \<in> set h" "(b, n, bl) \<in> set h" using h y xy by auto
  have kp: "bucket_index (max sz al) = None \<Longrightarrow> kernel_page a" "bucket_index (max n bl) = None \<Longrightarrow> kernel_page b"
    using held_kernel_page [OF assms] mem by blast+
  have dp: "distinct (held_pages h)" "set (held_pages h) \<inter> K_pages buckets = {}"
    and di: "\<And>i. i < 9 \<Longrightarrow> distinct (held_in i h)" using assms unfolding K_held_def by blast+
  have pages: "page_span c m \<subseteq> set (held_pages h)"
    if "(c, m, k) \<in> set h" "bucket_index (max m k) = None" for c m k
    using that unfolding set_span [symmetric] held_pages_def by force
  show "extent x \<inter> extent y = {}"
  proof (rule ccontr)
    assume "extent x \<inter> extent y \<noteq> {}"
    then obtain z where "z \<in> extent x" "z \<in> extent y" by blast
    then have z: "z \<in> {a..<a + sz}" "z \<in> {b..<b + n}" by (simp_all add: extent_def xy)
    let ?q = "z - z mod 4096"
    have small: "?q \<in> K_pages buckets \<and> i < 9 \<and> ?q \<in> set (chain_pages (buckets ! i))"
      if "(c, m, k) \<in> set h" "bucket_index (max m k) = Some i" "z \<in> {c..<c + m}" for c m k i
      using small_extent(2) [OF assms that] bucket_index_Some [OF that(2)] by (auto simp: K_pages_def)
    show False
    proof (cases "bucket_index (max sz al)"; cases "bucket_index (max n bl)")
      fix i j assume ij: "bucket_index (max sz al) = Some i" "bucket_index (max n bl) = Some j"
      have "i = j"
      proof (rule ccontr)
        assume "i \<noteq> j"
        with small [OF mem(1) ij(1) z(1)] small [OF mem(2) ij(2) z(2)] assms show False
          by (auto simp: K_held_def K_ok_def)
      qed
      then have "a = b" using small_extent(1) [OF assms mem(1) ij(1) z(1)] small_extent(1) [OF assms mem(2) ij(2) z(2)]
        by simp
      with di [of i] small [OF mem(1) ij(1) z(1)] ij \<open>i = j\<close> h ys xy show False by auto
    next
      assume n: "bucket_index (max sz al) = None" "bucket_index (max n bl) = None"
      have "?q \<in> page_span a sz" "?q \<in> page_span b n"
        using large_extent [OF kp(1) [OF n(1)] z(1)] large_extent [OF kp(2) [OF n(2)] z(2)] by auto
      with dp(1) n h ys xy show False unfolding set_span [symmetric] by auto
    next
      fix i assume n: "bucket_index (max sz al) = Some i" "bucket_index (max n bl) = None"
      have "?q \<in> page_span b n" by (rule large_extent [OF kp(2) [OF n(2)] z(2)])
      with pages [OF mem(2) n(2)] small [OF mem(1) n(1) z(1)] dp(2) show False by blast
    next
      fix j assume n: "bucket_index (max sz al) = None" "bucket_index (max n bl) = Some j"
      have "?q \<in> page_span a sz" by (rule large_extent [OF kp(1) [OF n(1)] z(1)])
      with pages [OF mem(1) n(1)] small [OF mem(2) n(2) z(2)] dp(2) show False by blast
    qed
  qed
qed

lemma held_mapped:
  assumes "K_held h buckets L" and "(a, sz, align) \<in> set h" and "x \<in> {a..<a + sz}"
  shows "x - x mod 4096 \<in> L"
proof (cases "bucket_index (max sz align)")
  case None
  have "page_span a sz \<subseteq> set (held_pages h)"
    using assms(2) None unfolding set_span [symmetric] held_pages_def by force
  moreover have "set (held_pages h) \<subseteq> L" using assms(1) unfolding K_held_def by blast
  ultimately show ?thesis using large_extent [OF held_kernel_page [OF assms(1,2) None] assms(3)] by blast
next
  case (Some i)
  have "set (chain_pages (buckets ! i)) \<subseteq> L"
    using assms(1) bucket_index_Some [OF Some] unfolding K_held_def K_pages_def by blast
  with small_extent(2) [OF assms(1,2) Some assms(3)] show ?thesis by blast
qed

lemma pow2_le_dvd: "(2 :: nat) ^ e \<le> 2 ^ k \<Longrightarrow> 2 ^ e dvd (2 :: nat) ^ k"
  by (rule le_imp_power_dvd) (rule power_le_imp_le_exp [of "2 :: nat"], simp_all)

subsection \<open>Properties\<close>


text \<open>C13: Every allocation is aligned as asked and reports the size asked for.\<close>

theorem K_allocate_aligned:
  assumes "virt_doc P" and "bytes_ok bytes" and "fpa_inv P M p" and "K_held h buckets (fpa_live P M p)" and "0 < sz"
    and "K_allocate P (PAGE_ALLOCATOR P (kernel_kpages P M)) bytes sz (2 ^ e) buckets p = Ret (Ok (a, n), buckets', p')"
  shows "a mod 2 ^ e = 0 \<and> n = sz"
proof (cases "bucket_index (max sz (2 ^ e))")
  case None
  from fpa.K_allocate_large [OF assms(3,4,5) _ None assms(6)]
  have "n = sz" "kernel_page a" by (auto simp: None intro: held_kernel_page)
  moreover have "(2 :: nat) ^ e dvd 4096"
  proof -
    from None assms(6) have "2 ^ e \<le> (4096 :: nat)" by (auto simp: K_allocate_def outcome_simps rust_assert_def split: if_splits)
    then show ?thesis using pow2_le_dvd [of e 12] by simp
  qed
  ultimately show ?thesis by (auto simp: kernel_page_def intro: dvd_trans)
next
  case (Some i)
  have i: "i < 9" "2 ^ e \<le> BLOCK_of i" using bucket_index_Some [OF Some] by auto
  from fpa.K_allocate_small [OF assms(1-5) _ Some assms(6)]
  have n: "n = sz" and K: "K_held ((a, sz, 2 ^ e) # h) buckets' (fpa_live P M p')" by auto
  then have ch: "bchain_ok (SIZE_of i) (BLOCK_of i) (buckets' ! i)" using i(1) by (simp add: K_held_def K_ok_def)
  have "set (held_in i ((a, sz, 2 ^ e) # h)) = blocks (BLOCK_of i) (buckets' ! i)"
    using K i(1) unfolding K_held_def by blast
  then have "a \<in> blocks (BLOCK_of i) (buckets' ! i)" using Some by auto
  from block_address(4) [OF ch BUCKETS_ok [OF i(1)] this] have "BLOCK_of i dvd a" by auto
  moreover have "2 ^ e dvd BLOCK_of i" using i BUCKETS_pow [OF i(1)] pow2_le_dvd [of e "i + 3"] by simp
  ultimately show ?thesis using n by (auto intro: dvd_trans)
qed

text \<open>
  C14: While the first bucket of a list has a free block, an allocation is served from it without the
  page allocator, and freeing the block restores the allocator exactly.
\<close>

theorem K_alloc_free_roundtrip:
  assumes "virt_doc P" and "K_ok buckets" and "bucket_index (max sz align) = Some i" and "buckets ! i = b # bs"
    and "g < 4096 div BLOCK_of i" and "\<not> bm_get (bk_bitmap b) g"
  shows "\<exists>a buckets'. K_allocate P A bytes sz align buckets p = Ret (Ok (a, sz), buckets', p) \<and>
    K_deallocate P A bytes a sz align buckets' p = Ret (buckets, p)"
proof -
  have i: "i < 9" using bucket_index_Some [OF assms(3)] by simp
  note bs = BUCKETS_ok [OF i]
  have len: "i < length buckets" using assms(2) i by (simp add: K_ok_def)
  have ok: "bucket_ok (SIZE_of i) (BLOCK_of i) b"
    using assms(2,4) i by (auto simp: K_ok_def bchain_ok_def dest: spec [of _ i])
  then have kp: "kernel_page (bk_page b)" by (simp add: bucket_ok_def)
  obtain off bm where t: "take_block P (BLOCK_of i) b = Ret (Some (bk_page b + off * BLOCK_of i, b\<lparr>bk_bitmap := bm\<rparr>))"
    and off: "off < 4096 div BLOCK_of i" "\<not> bm_get (bk_bitmap b) off" and bm: "length bm = SIZE_of i"
    "\<forall>g. bm_get bm g \<longleftrightarrow> g = off \<or> bm_get (bk_bitmap b) g"
    using take_block_cases [OF assms(1) bs ok] assms(5,6) by blast
  let ?a = "bk_page b + off * BLOCK_of i" and ?b = "b\<lparr>bk_bitmap := bm\<rparr>"
  have pos: "0 < ?a" using kp by (simp add: kernel_page_def)
  have al: "K_allocate P A bytes sz align buckets p = Ret (Ok (?a, sz), buckets[i := ?b # bs], p)"
    using assms(3,4) t pos by (simp add: K_allocate_def allocate_in_def case_prod_beta Let_def)
  have ok': "bucket_ok (SIZE_of i) (BLOCK_of i) ?b" using ok bm off(1) by (auto simp: bucket_ok_def)
  obtain bm' where cl: "clear_block P (BLOCK_of i) ?b ?a = Ret (?b\<lparr>bk_bitmap := bm'\<rparr>)" and "length bm' = length bm"
    "\<forall>g. bm_get bm' g \<longleftrightarrow> g \<noteq> off \<and> bm_get bm g" using clear_block_ok [OF assms(1) bs ok' off(1)] by auto
  then have "bm' = bk_bitmap b" using bm off(2) ok by (intro bm_ext) (auto simp: bucket_ok_def)
  then have cl: "clear_block P (BLOCK_of i) ?b ?a = Ret b" using cl by simp
  have "canonical ?a" using page_plus_canonical [OF kp, of "off * BLOCK_of i"] block_offset_bound [OF bs off(1)] bs
    by (simp add: block_size_ok_def)
  moreover have "virt_align_down P ?a 4096 = bk_page b"
    using block_page [OF bs kp off(1)] by (simp add: virt_docD(5) [OF assms(1)])
  ultimately have "K_deallocate P A bytes ?a sz align (buckets[i := ?b # bs]) p = Ret (buckets[i := b # bs], p)"
    using assms(3) len cl by (simp add: K_deallocate_def virt_docD(7) [OF assms(1)] case_prod_beta Let_def)
  then have "K_deallocate P A bytes ?a sz align (buckets[i := ?b # bs]) p = Ret (buckets, p)"
    using assms(4) by (metis list_update_id)
  with al show ?thesis by blast
qed

text \<open>
  Invalid frees: freeing into a size class that has no bucket panics; freeing an address outside
  the pages of the class is ignored, whatever its layout claims.
\<close>

theorem K_deallocate_invalid:
  assumes "virt_from_ptr P ptr = Ret addr" and "bucket_index (max sz align) = Some i" and "K_ok buckets"
    and "virt_align_down P addr 4096 \<notin> bk_page ` set (buckets ! i)"
  shows "K_deallocate P A bytes ptr sz align buckets p = (if buckets ! i = [] then Panic else Ret (buckets, p))"
proof -
  have i: "i < 9" using bucket_index_Some [OF assms(2)] by simp
  then have "\<forall>b \<in> set (tl (buckets ! i)). \<not> Bucket_is_empty b" using assms(3) by (auto simp: K_ok_def bchain_ok_def)
  then have "free_block P A n BLOCK chain addr p = Ret (chain, p)"
    if "chain \<noteq> []" "virt_align_down P addr 4096 \<notin> bk_page ` set chain" "\<forall>b \<in> set (tl chain). \<not> Bucket_is_empty b"
    for n BLOCK chain
    using that
  proof (induction chain)
    case (Cons b cs)
    then show ?case by (cases cs) auto
  qed simp
  with assms i \<open>\<forall>b \<in> set (tl (buckets ! i)). \<not> Bucket_is_empty b\<close> show ?thesis
    by (auto simp: K_deallocate_def case_prod_beta Let_def K_ok_def)
qed

subsection \<open>Witnesses\<close>

abbreviation demo_A :: "(FPAInner list \<times> (nat \<Rightarrow> nat option) kmem) palloc" where
  "demo_A \<equiv> PAGE_ALLOCATOR (doc_platform Dev) demo_K"

abbreviation demo_bytes :: "nat \<Rightarrow> nat" where
  "demo_bytes \<equiv> (\<lambda>n. n + 24)"

definition demo_bucket :: Bucket where
  "demo_bucket = \<lparr>bk_page = pool_addr (doc_platform Dev) 0, bk_bitmap = replicate 16 0, bk_box = 0\<rparr>"

definition demo_buckets :: "Bucket list list" where
  "demo_buckets = KAllocator_new[2 := [demo_bucket]]"

lemma demo_bytes_ok: "bytes_ok demo_bytes"
  unfolding bytes_ok_def less_9 by (auto simp: BUCKETS_def)

lemma demo_bucket_ok: "bucket_ok 16 32 demo_bucket"
  using pool_kernel_page [OF virt_doc_doc_platform, of 0] by (simp add: bucket_ok_def demo_bucket_def POOL_PAGES_def)

lemma demo_K_ok: "K_ok demo_buckets"
proof -
  have "bchain_ok 16 32 [demo_bucket]" using demo_bucket_ok by (simp add: bchain_ok_def chain_pages_def)
  moreover have "BUCKETS ! 2 = (16, 32)" by (simp add: BUCKETS_def)
  moreover have "K_ok KAllocator_new" "K_pages KAllocator_new = {}"
    using K_held_start [of "{}"] by (auto simp: K_held_def)
  ultimately show ?thesis unfolding demo_buckets_def by (intro K_ok_update) simp_all
qed

lemma demo_k_allocate:
  "\<exists>b' c' s'. K_allocate (doc_platform Dev) demo_A demo_bytes 24 (2 ^ 3) KAllocator_new
     (bump_chain (doc_platform Dev) 0, demo_s) = Ret (Ok (pool_addr (doc_platform Dev) 0, 24), b', (c', s'))"
proof -
  let ?P = "doc_platform Dev" and ?p = "(bump_chain (doc_platform Dev) 0, demo_s)"
  have one: "div_ceil 1 4096 = 1" by (simp add: div_ceil_def)
  have "\<exists>c' s'. FPA_allocate ?P demo_K 1 (bump_chain ?P 0) demo_s = Ret (Ok (pool_addr ?P 0, 1), c', s') \<and> kmem_ready ?P demo_mapper s'"
    by (rule kpl.allocate_returns [OF virt_doc_doc_platform _ demo_ready])
      (simp_all only: one, simp_all add: virt_docD(6) [OF virt_doc_doc_platform] demo_kmap POOL_PAGES_def)
  then obtain c' s' where f: "pa_allocate demo_A 1 ?p = Ret (Ok (pool_addr ?P 0, 1), (c', s'))"
    by (auto simp: PAGE_ALLOCATOR_def)
  have kp: "kernel_page (pool_addr ?P 0)" by (rule pool_kernel_page [OF virt_doc_doc_platform]) (simp add: POOL_PAGES_def)
  have new: "Bucket_new ?P demo_A 16 ?p = Ret (Ok demo_bucket, (c', s'))"
    using f kp by (simp add: Bucket_new_def demo_bucket_def kernel_page_def virt_docD [OF virt_doc_doc_platform])
  have "block_size_ok 16 32" by (simp add: block_size_ok_def)
  from take_block_cases [OF virt_doc_doc_platform this demo_bucket_ok, of Dev] obtain off bm where
    t: "take_block ?P 32 demo_bucket = Ret (Some (bk_page demo_bucket + off * 32, demo_bucket\<lparr>bk_bitmap := bm\<rparr>))"
    and off: "\<forall>g < off. bm_get (bk_bitmap demo_bucket) g" by (auto simp: demo_bucket_def dest: spec [of _ 0])
  have "off = 0" using off by (cases off) (auto simp: demo_bucket_def)
  with t have t: "take_block ?P 32 demo_bucket = Ret (Some (pool_addr ?P 0, demo_bucket\<lparr>bk_bitmap := bm\<rparr>))"
    by (simp add: demo_bucket_def)
  have pos: "pool_addr ?P 0 \<noteq> 0" by (simp add: pool_addr_def)
  have "bucket_index (max 24 (2 ^ 3)) = Some 2" "BUCKETS ! 2 = (16, 32)" "KAllocator_new ! 2 = []"
    by (simp_all add: bucket_index_def BUCKETS_def KAllocator_new_def)
  with new t pos show ?thesis by (simp add: K_allocate_def allocate_in_def)
qed


theorem K_allocate_aligned_witness:
  "\<exists>a b' p'. K_allocate (doc_platform Dev) demo_A demo_bytes 24 (2 ^ 3) KAllocator_new
     (bump_chain (doc_platform Dev) 0, demo_s) = Ret (Ok (a, 24), b', p') \<and> a mod 2 ^ 3 = 0"
proof -
  let ?P = "doc_platform Dev"
  obtain b' c' s' where k: "K_allocate ?P demo_A demo_bytes 24 (2 ^ 3) KAllocator_new
     (bump_chain ?P 0, demo_s) = Ret (Ok (pool_addr ?P 0, 24), b', (c', s'))" using demo_k_allocate by blast
  have "fpa_inv ?P demo_mapper (bump_chain ?P 0, demo_s)"
    by (auto simp: fpa_inv_def demo_kmem_wf fpa_at_def intro: exI [of _ 0])
  from K_allocate_aligned [OF virt_doc_doc_platform demo_bytes_ok this K_held_start _ k] k show ?thesis by auto
qed

theorem K_alloc_free_roundtrip_witness:
  "\<exists>a buckets'. K_allocate (doc_platform Dev) demo_A demo_bytes 24 8 demo_buckets ([], demo_s) =
       Ret (Ok (a, 24), buckets', ([], demo_s)) \<and>
     K_deallocate (doc_platform Dev) demo_A demo_bytes a 24 8 buckets' ([], demo_s) = Ret (demo_buckets, ([], demo_s))"
  by (rule K_alloc_free_roundtrip [OF virt_doc_doc_platform demo_K_ok, where i = 2 and b = demo_bucket and bs = "[]" and g = 0])
    (simp_all add: bucket_index_def BUCKETS_def demo_buckets_def KAllocator_new_def demo_bucket_def)

theorem K_deallocate_invalid_witness:
  "K_deallocate (doc_platform Dev) demo_A demo_bytes 4096 24 8 demo_buckets ([], demo_s) = Ret (demo_buckets, ([], demo_s))"
proof -
  have i: "bucket_index (max 24 8) = Some 2" "demo_buckets ! 2 = [demo_bucket]"
    by (simp_all add: bucket_index_def demo_buckets_def KAllocator_new_def)
  have "virt_from_ptr (doc_platform Dev) 4096 = Ret 4096"
    by (simp add: virt_docD(7) [OF virt_doc_doc_platform] canonical_def)
  moreover have "virt_align_down (doc_platform Dev) 4096 4096 \<notin> bk_page ` set (demo_buckets ! 2)"
    by (simp add: i virt_docD(5) [OF virt_doc_doc_platform] demo_bucket_def pool_addr_def layout_values [OF virt_doc_doc_platform])
  ultimately show ?thesis using K_deallocate_invalid [OF _ i(1) demo_K_ok, where A = demo_A and p = "([], demo_s)"] i(2) by simp
qed

end
