(* ===== verification/Vfs.thy ===== *)
theory Vfs
  imports Kernel_Prelude
begin

text \<open>
  \<open>fs/vfs/mod.rs\<close>, \<open>fs/vfs/error.rs\<close> and \<open>fs/mount.rs\<close>: what every file system shares.  The private
  data of an inode is \<open>Box<dyn Any>\<close>; \<open>None\<close> stands for data of another file system, on which a
  downcast fails.
\<close>

datatype FSError =
    BadPath
  | NoEntry
  | NoMount
  | MissingInode
  | WrongInode
  | NotDirectory
  | Exists
  | Unimplemented
  | NotSupported

type_synonym 'a FSResult = "(FSError, 'a) result"

datatype MountType = NoDevice

type_synonym Mode = "8 word"
type_synonym Permission = "16 word"

definition FIFO :: Mode where "FIFO = push_bit 0 1"
definition CHARACTER_DEVICE :: Mode where "CHARACTER_DEVICE = push_bit 1 1"
definition DIRECTORY :: Mode where "DIRECTORY = push_bit 2 1"
definition BLOCK_DEVICE :: Mode where "BLOCK_DEVICE = push_bit 3 1"
definition REGULAR_FILE :: Mode where "REGULAR_FILE = push_bit 4 1"
definition SYMBOLIC_LINK :: Mode where "SYMBOLIC_LINK = push_bit 5 1"
definition SOCKET :: Mode where "SOCKET = push_bit 6 1"

definition OTHER_EXECUTE :: Permission where "OTHER_EXECUTE = push_bit 0 1"
definition OTHER_WRITE :: Permission where "OTHER_WRITE = push_bit 1 1"
definition OTHER_READ :: Permission where "OTHER_READ = push_bit 2 1"
definition GROUP_EXECUTE :: Permission where "GROUP_EXECUTE = push_bit 3 1"
definition GROUP_WRITE :: Permission where "GROUP_WRITE = push_bit 4 1"
definition GROUP_READ :: Permission where "GROUP_READ = push_bit 5 1"
definition USER_EXECUTE :: Permission where "USER_EXECUTE = push_bit 6 1"
definition USER_WRITE :: Permission where "USER_WRITE = push_bit 7 1"
definition USER_READ :: Permission where "USER_READ = push_bit 8 1"
definition STICKY :: Permission where "STICKY = push_bit 9 1"

record 'p Inode =
  i_mode :: Mode
  i_permission :: Permission
  i_user_id :: "16 word"
  i_group_id :: "16 word"
  i_num :: nat
  i_size :: nat
  i_nlink :: "16 word"
  i_blocks :: nat
  i_last_access_time :: nat
  i_creation_time :: nat
  i_last_modification_time :: nat
  i_private :: "'p option"

definition is_dir :: "'p Inode \<Rightarrow> bool" where
  "is_dir i \<longleftrightarrow> i_mode i AND DIRECTORY = DIRECTORY"

text \<open>
  The trait \<open>InodeOps\<close> as a record of functions, and the methods of \<open>Inode\<close> that dispatch on it.  The
  directory entries an operation locks are given by the inodes they hold; \<open>'w\<close> is the state of the
  file system, \<open>'c\<close> a path component and \<open>'i\<close> an iterator over a directory.
\<close>

type_synonym ('p, 'w) inode_result = "(unit FSResult \<times> 'p Inode \<times> 'p Inode \<times> 'w) outcome"

record ('p, 'c, 'w, 'i) InodeOps =
  op_create :: "'p Inode \<Rightarrow> 'p Inode \<Rightarrow> 'c \<Rightarrow> 'w \<Rightarrow> ('p, 'w) inode_result"
  op_link :: "'p Inode \<Rightarrow> 'p Inode \<Rightarrow> 'c \<Rightarrow> 'w \<Rightarrow> ('p, 'w) inode_result"
  op_symlink :: "'p Inode \<Rightarrow> string \<Rightarrow> 'p Inode \<Rightarrow> 'c \<Rightarrow> 'w \<Rightarrow> ('p, 'w) inode_result"
  op_unlink :: "'p Inode \<Rightarrow> 'p Inode \<Rightarrow> unit FSResult"
  op_rename :: "'p Inode \<Rightarrow> 'p Inode \<Rightarrow> 'p Inode \<Rightarrow> 'c \<Rightarrow> unit FSResult"
  op_mkdir :: "'p Inode \<Rightarrow> 'p Inode \<Rightarrow> 'c \<Rightarrow> 'w \<Rightarrow> ('p, 'w) inode_result"
  op_list :: "'w \<Rightarrow> 'p Inode \<Rightarrow> 'i FSResult"

definition Inode_create :: "('p, 'c, 'w, 'i) InodeOps \<Rightarrow> 'p Inode \<Rightarrow> 'p Inode \<Rightarrow> 'c \<Rightarrow> 'w \<Rightarrow> ('p, 'w) inode_result" where
  "Inode_create ops i par cp w = op_create ops i par cp w"

definition Inode_link :: "('p, 'c, 'w, 'i) InodeOps \<Rightarrow> 'p Inode \<Rightarrow> 'p Inode \<Rightarrow> 'c \<Rightarrow> 'w \<Rightarrow> ('p, 'w) inode_result" where
  "Inode_link ops i par cp w = op_link ops i par cp w"

definition Inode_symlink :: "('p, 'c, 'w, 'i) InodeOps \<Rightarrow> 'p Inode \<Rightarrow> string \<Rightarrow> 'p Inode \<Rightarrow> 'c \<Rightarrow> 'w \<Rightarrow> ('p, 'w) inode_result" where
  "Inode_symlink ops i src par cp w = op_symlink ops i src par cp w"

definition Inode_unlink :: "('p, 'c, 'w, 'i) InodeOps \<Rightarrow> 'p Inode \<Rightarrow> 'p Inode \<Rightarrow> unit FSResult" where
  "Inode_unlink ops i par = op_unlink ops i par"

definition Inode_rename :: "('p, 'c, 'w, 'i) InodeOps \<Rightarrow> 'p Inode \<Rightarrow> 'p Inode \<Rightarrow> 'p Inode \<Rightarrow> 'c \<Rightarrow> unit FSResult" where
  "Inode_rename ops i src_p dst_p cp = op_rename ops i src_p dst_p cp"

definition Inode_mkdir :: "('p, 'c, 'w, 'i) InodeOps \<Rightarrow> 'p Inode \<Rightarrow> 'p Inode \<Rightarrow> 'c \<Rightarrow> 'w \<Rightarrow> ('p, 'w) inode_result" where
  "Inode_mkdir ops i par cp w = op_mkdir ops i par cp w"

definition Inode_list :: "('p, 'c, 'w, 'i) InodeOps \<Rightarrow> 'w \<Rightarrow> 'p Inode \<Rightarrow> 'i FSResult" where
  "Inode_list ops w i = op_list ops w i"

lemma Mode_distinct [simp]:
  "REGULAR_FILE \<noteq> DIRECTORY" "DIRECTORY \<noteq> REGULAR_FILE" "SYMBOLIC_LINK \<noteq> DIRECTORY" "DIRECTORY \<noteq> 0"
  by (simp_all add: REGULAR_FILE_def DIRECTORY_def SYMBOLIC_LINK_def)

lemma is_dir_DIRECTORY: "i_mode i = DIRECTORY \<Longrightarrow> is_dir i"
  by (simp add: is_dir_def)

end
