(* ===== verification/Iterators.thy ===== *)
theory Iterators
  imports Kernel_Prelude "HOL-Library.Sublist"
begin

text \<open>
  The iterator protocol the kernel's loops rely on: what an iterator promises (\<open>iterator\<close>, \<open>double_ended\<close>)
  and the loops written against that promise alone.  A loop is a partial function whose value \<open>None\<close>
  means that it does not end; the contract is what makes it end.
\<close>

subsection \<open>Contracts\<close>

text \<open>
  An iterator delivers a list front to back; a double-ended one delivers the same list from both
  ends.  The reversed iterator (\<open>rev()\<close> in the source) is an iterator of the reversed list.
\<close>

locale iterator =
  fixes nx :: "'i \<Rightarrow> ('c option \<times> 'i) outcome" and inv :: "'i \<Rightarrow> bool" and elems :: "'i \<Rightarrow> 'c list"
  assumes next_law: "inv i \<Longrightarrow> \<exists>i'. inv i' \<and> elems i' = tl (elems i) \<and>
      nx i = Ret (if elems i = [] then None else Some (hd (elems i)), i')"

locale double_ended = iterator +
  fixes nb :: "'a \<Rightarrow> ('b option \<times> 'a) outcome"
  assumes next_back_law: "inv i \<Longrightarrow> \<exists>i'. inv i' \<and> elems i' = butlast (elems i) \<and>
      nb i = Ret (if elems i = [] then None else Some (last (elems i)), i')"

sublocale double_ended \<subseteq> backward: iterator nb inv "\<lambda>i. rev (elems i)"
proof unfold_locales
  fix i assume "inv i"
  from next_back_law [OF this] obtain i' where "inv i'" "elems i' = butlast (elems i)"
    "nb i = Ret (if elems i = [] then None else Some (last (elems i)), i')" by blast
  then show "\<exists>i'. inv i' \<and> rev (elems i') = tl (rev (elems i)) \<and>
      nb i = Ret (if rev (elems i) = [] then None else Some (hd (rev (elems i))), i')"
    by (intro exI [of _ i']) (simp add: butlast_rev [symmetric] hd_rev, metis butlast_rev rev_rev_ident)
qed

text \<open>Any sequence of calls to both ends, on an iterator and on the list it stands for.\<close>

datatype end_of = Front | Back

fun drain :: "('i \<Rightarrow> ('c option \<times> 'i) outcome) \<Rightarrow> ('i \<Rightarrow> ('c option \<times> 'i) outcome) \<Rightarrow>
    end_of list \<Rightarrow> 'i \<Rightarrow> ('c option list \<times> 'i) outcome" where
  "drain nx nb [] i = Ret ([], i)"
| "drain nx nb (d # ds) i =
     obind (case d of Front \<Rightarrow> nx i | Back \<Rightarrow> nb i) (\<lambda>(x, i).
     obind (drain nx nb ds i) (\<lambda>(xs, i). Ret (x # xs, i)))"

fun drain_list :: "end_of list \<Rightarrow> 'c list \<Rightarrow> 'c option list \<times> 'c list" where
  "drain_list [] l = ([], l)"
| "drain_list (d # ds) l =
     (let x = (if l = [] then None else Some (case d of Front \<Rightarrow> hd l | Back \<Rightarrow> last l));
          (xs, r) = drain_list ds (case d of Front \<Rightarrow> tl l | Back \<Rightarrow> butlast l)
      in (x # xs, r))"

context double_ended
begin

lemma drain_law:
  assumes "inv i"
  shows "\<exists>i'. inv i' \<and> drain nx nb ds i = Ret (fst (drain_list ds (elems i)), i') \<and> elems i' = snd (drain_list ds (elems i))"
  using assms
proof (induction ds arbitrary: i)
  case (Cons d ds)
  obtain j where j: "inv j" "elems j = (case d of Front \<Rightarrow> tl (elems i) | Back \<Rightarrow> butlast (elems i))"
    "(case d of Front \<Rightarrow> nx i | Back \<Rightarrow> nb i) =
       Ret (if elems i = [] then None else Some (case d of Front \<Rightarrow> hd (elems i) | Back \<Rightarrow> last (elems i)), j)"
    using next_law [OF Cons.prems] next_back_law [OF Cons.prems] by (cases d) auto
  from Cons.IH [OF j(1)] j show ?case by (auto simp: Let_def case_prod_beta)
qed auto

end

subsection \<open>The prefix loop\<close>

text \<open>The loop of \<open>iter_after\<close>, over any two iterators.\<close>

partial_function (option) iter_after ::
    "('i \<Rightarrow> ('c option \<times> 'i) outcome) \<Rightarrow> ('j \<Rightarrow> ('c option \<times> 'j) outcome) \<Rightarrow> 'i \<Rightarrow> 'j \<Rightarrow> 'i option outcome option" where
  "iter_after nx ny iter pre =
     (case nx iter of
        Panic \<Rightarrow> Some Panic
      | Spin \<Rightarrow> Some Spin
      | Ret (x, iter_next) \<Rightarrow>
          (case ny pre of
             Panic \<Rightarrow> Some Panic
           | Spin \<Rightarrow> Some Spin
           | Ret (y, pre) \<Rightarrow>
               (case y of
                  None \<Rightarrow> Some (Ret (Some iter))
                | Some b \<Rightarrow> if x = Some b then iter_after nx ny iter_next pre else Some (Ret None))))"

locale iterator_pair = hay: iterator nx inv elems + needle: iterator ny jnv jelems
  for nx :: "'i \<Rightarrow> ('c option \<times> 'i) outcome" and inv elems
    and ny :: "'j \<Rightarrow> ('c option \<times> 'j) outcome" and jnv jelems
begin

lemma iter_after_law:
  assumes "inv i" and "jnv j"
  shows "\<exists>r. iter_after nx ny i j = Some (Ret r) \<and>
    (if prefix (jelems j) (elems i)
     then \<exists>i'. r = Some i' \<and> inv i' \<and> elems i' = drop (length (jelems j)) (elems i)
     else r = None)"
  using assms
proof (induction "jelems j" arbitrary: i j)
  case Nil
  obtain x i' where "nx i = Ret (x, i')" using hay.next_law [OF Nil.prems(1)] by blast
  moreover obtain j' where "ny j = Ret (None, j')" using needle.next_law [OF Nil.prems(2)] Nil.hyps [symmetric] by auto
  ultimately have "iter_after nx ny i j = Some (Ret (Some i))" by (subst iter_after.simps) simp
  with Nil.hyps [symmetric] Nil.prems(1) show ?case by simp
next
  case (Cons y ys)
  note js = Cons.hyps(2) [symmetric]
  obtain i' where i': "inv i'" "elems i' = tl (elems i)"
    "nx i = Ret (if elems i = [] then None else Some (hd (elems i)), i')"
    using hay.next_law [OF Cons.prems(1)] by blast
  obtain j' where j': "jnv j'" "jelems j' = ys" "ny j = Ret (Some y, j')"
    using needle.next_law [OF Cons.prems(2)] js by auto
  show ?case
  proof (cases "elems i \<noteq> [] \<and> hd (elems i) = y")
    case True
    then have e: "elems i = y # elems i'" using i'(2) by (cases "elems i") auto
    have "iter_after nx ny i j = iter_after nx ny i' j'"
      using True i'(3) j'(3) by (subst iter_after.simps) simp
    with Cons.hyps(1) [OF j'(2) [symmetric] i'(1) j'(1)] j'(2) show ?thesis
      unfolding js e by (cases "prefix ys (elems i')") auto
  next
    case False
    then have "\<not> prefix (jelems j) (elems i)" unfolding js by (cases "elems i") auto
    moreover have "iter_after nx ny i j = Some (Ret None)"
      using False i'(3) j'(3) by (subst iter_after.simps) auto
    ultimately show ?thesis by simp
  qed
qed

end

subsection \<open>The search loop\<close>

text \<open>\<open>for x in iter { if P x { return x } }\<close>.\<close>

partial_function (option) iter_find ::
    "('i \<Rightarrow> ('c option \<times> 'i) outcome) \<Rightarrow> ('c \<Rightarrow> bool) \<Rightarrow> 'i \<Rightarrow> 'c option outcome option" where
  "iter_find nx P iter =
     (case nx iter of
        Panic \<Rightarrow> Some Panic
      | Spin \<Rightarrow> Some Spin
      | Ret (x, iter) \<Rightarrow>
          (case x of
             None \<Rightarrow> Some (Ret None)
           | Some c \<Rightarrow> if P c then Some (Ret (Some c)) else iter_find nx P iter))"

text \<open>\<open>iter.collect()\<close>.\<close>

partial_function (option) iter_collect ::
    "('i \<Rightarrow> ('c option \<times> 'i) outcome) \<Rightarrow> 'i \<Rightarrow> 'c list \<Rightarrow> 'c list outcome option" where
  "iter_collect nx iter acc =
     (case nx iter of
        Panic \<Rightarrow> Some Panic
      | Spin \<Rightarrow> Some Spin
      | Ret (x, iter) \<Rightarrow>
          (case x of
             None \<Rightarrow> Some (Ret (rev acc))
           | Some c \<Rightarrow> iter_collect nx iter (c # acc)))"

context iterator
begin

lemma iter_collect_law: "inv i \<Longrightarrow> iter_collect nx i acc = Some (Ret (rev acc @ elems i))"
proof (induction "elems i" arbitrary: i acc)
  case Nil
  with next_law [OF Nil.prems] obtain i' where "nx i = Ret (None, i')" by auto
  with Nil.hyps [symmetric] show ?case by (subst iter_collect.simps) simp
next
  case (Cons x xs)
  note es = Cons.hyps(2) [symmetric]
  obtain i' where i': "inv i'" "elems i' = xs" "nx i = Ret (Some x, i')"
    using next_law [OF Cons.prems] es by auto
  with Cons.hyps(1) [OF i'(2) [symmetric] i'(1)] es show ?case by (subst iter_collect.simps) simp
qed

lemma iter_find_law: "inv i \<Longrightarrow> iter_find nx P i = Some (Ret (find P (elems i)))"
proof (induction "elems i" arbitrary: i)
  case Nil
  with next_law [OF Nil.prems] obtain i' where "nx i = Ret (None, i')" by auto
  with Nil.hyps [symmetric] show ?case by (subst iter_find.simps) simp
next
  case (Cons x xs)
  note es = Cons.hyps(2) [symmetric]
  obtain i' where i': "inv i'" "elems i' = xs" "nx i = Ret (Some x, i')"
    using next_law [OF Cons.prems] es by auto
  with Cons.hyps(1) [OF i'(2) [symmetric] i'(1)] es show ?case by (subst iter_find.simps) simp
qed

end

end
