(* ===== verification/Path_Components.thy ===== *)
theory Path_Components
  imports Iterators
begin

text \<open>
  \<open>fs/path/components.rs\<close>: the double-ended iterator over the components of a path.  A string is
  its list of bytes.  Slicing out of range is a panic, as in the source; one result of the theory
  is that it never happens.
\<close>

subsection \<open>Slices and searches\<close>

definition slice_from :: "nat \<Rightarrow> 'a list \<Rightarrow> 'a list outcome" where
  "slice_from i xs = (if i \<le> length xs then Ret (drop i xs) else Panic)"

definition slice_to :: "nat \<Rightarrow> 'a list \<Rightarrow> 'a list outcome" where
  "slice_to i xs = (if i \<le> length xs then Ret (take i xs) else Panic)"

text \<open>\<open>&xs[..xs.len() - n]\<close>: the subtraction wraps around without overflow checks, and then the
  slice is out of range.\<close>

definition slice_cut :: "nat \<Rightarrow> 'a list \<Rightarrow> 'a list outcome" where
  "slice_cut n xs = (if n \<le> length xs then slice_to (length xs - n) xs else Panic)"

fun position :: "('a \<Rightarrow> bool) \<Rightarrow> 'a list \<Rightarrow> nat option" where
  "position P [] = None"
| "position P (x # xs) = (if P x then Some 0 else map_option Suc (position P xs))"

definition rposition :: "('a \<Rightarrow> bool) \<Rightarrow> 'a list \<Rightarrow> nat option" where
  "rposition P xs = map_option (\<lambda>i. length xs - 1 - i) (position P (rev xs))"

definition debug_assert :: "profile \<Rightarrow> bool \<Rightarrow> unit outcome" where
  "debug_assert pr b = (case pr of Dev \<Rightarrow> rust_assert b | Release \<Rightarrow> Ret ())"

lemma debug_assert_True [simp]: "debug_assert pr True = Ret ()"
  by (cases pr) (simp_all add: debug_assert_def)

lemma slice_simps [simp]:
  "i \<le> length xs \<Longrightarrow> slice_from i xs = Ret (drop i xs)"
  "i \<le> length xs \<Longrightarrow> slice_to i xs = Ret (take i xs)"
  "n \<le> length xs \<Longrightarrow> slice_cut n xs = Ret (take (length xs - n) xs)"
  by (simp_all add: slice_from_def slice_to_def slice_cut_def)

lemma position_None: "position P xs = None \<longleftrightarrow> (\<forall>x \<in> set xs. \<not> P x)"
  by (induction xs) auto

lemma position_Some:
  "position P xs = Some i \<Longrightarrow> i < length xs \<and> P (xs ! i) \<and> (\<forall>x \<in> set (take i xs). \<not> P x)"
proof (induction xs arbitrary: i)
  case (Cons x xs)
  then show ?case by (cases i) (auto split: if_splits)
qed simp

lemma position_takeWhile: "position P xs = Some i \<Longrightarrow> takeWhile (\<lambda>x. \<not> P x) xs = take i xs"
proof (induction xs arbitrary: i)
  case (Cons x xs)
  then show ?case by (cases i) (auto split: if_splits)
qed simp

lemma rposition_None: "rposition P xs = None \<longleftrightarrow> (\<forall>x \<in> set xs. \<not> P x)"
  by (simp add: rposition_def position_None)

lemma rposition_Some:
  assumes "rposition P xs = Some i"
  shows "i < length xs \<and> P (xs ! i) \<and> (\<forall>x \<in> set (drop (Suc i) xs). \<not> P x)"
proof -
  from assms obtain j where j: "position P (rev xs) = Some j" "i = length xs - 1 - j"
    by (auto simp: rposition_def)
  from position_Some [OF j(1)] have p: "j < length xs" "P (rev xs ! j)" "\<forall>x \<in> set (take j (rev xs)). \<not> P x" by auto
  have "take j (rev xs) = rev (drop (Suc i) xs)" using p(1) j(2) by (simp add: take_rev Suc_diff_Suc)
  with p j(2) show ?thesis by (auto simp: rev_nth)
qed

subsection \<open>The iterator\<close>

definition SEPERATOR :: char where
  "SEPERATOR = CHR ''/''"

definition is_sep :: "char \<Rightarrow> bool" where
  "is_sep b \<longleftrightarrow> b = SEPERATOR"

definition has_physical_root :: "string \<Rightarrow> bool" where
  "has_physical_root s \<longleftrightarrow> s \<noteq> [] \<and> hd s = SEPERATOR"

datatype Component = RootDir | CurDir | ParentDir | Normal string

definition parse_single_component :: "string \<Rightarrow> Component option" where
  "parse_single_component cp =
     (if cp = ''.'' \<or> cp = [] then None
      else if cp = ''..'' then Some ParentDir
      else Some (Normal cp))"

datatype State = StartDir | Body | Done

fun State_rank :: "State \<Rightarrow> nat" where
  "State_rank StartDir = 0"
| "State_rank Body = 1"
| "State_rank Done = 2"

text \<open>The derived order of the enumeration.\<close>

instantiation State :: linorder
begin

definition less_eq_State :: "State \<Rightarrow> State \<Rightarrow> bool" where
  "less_eq_State a b \<longleftrightarrow> State_rank a \<le> State_rank b"

definition less_State :: "State \<Rightarrow> State \<Rightarrow> bool" where
  "less_State a b \<longleftrightarrow> State_rank a < State_rank b"

instance
proof
  fix x y :: State
  show "x \<le> y \<Longrightarrow> y \<le> x \<Longrightarrow> x = y" by (cases x; cases y) (simp_all add: less_eq_State_def)
qed (auto simp: less_eq_State_def less_State_def)

end

record Components =
  path :: string
  root :: bool
  front :: State
  back_st :: State

definition Components_new :: "string \<Rightarrow> Components" where
  "Components_new p = \<lparr>path = p, root = has_physical_root p, front = StartDir, back_st = Body\<rparr>"

definition finished :: "Components \<Rightarrow> bool" where
  "finished c \<longleftrightarrow> front c = Done \<or> back_st c = Done \<or> front c > back_st c"

definition include_cur_dir :: "Components \<Rightarrow> bool" where
  "include_cur_dir c =
     (if root c then False
      else case path c of
        [b] \<Rightarrow> b = CHR ''.''
      | b # b' # _ \<Rightarrow> b = CHR ''.'' \<and> is_sep b'
      | [] \<Rightarrow> False)"

definition len_before_body :: "Components \<Rightarrow> nat" where
  "len_before_body c =
     of_bool (front c \<le> StartDir \<and> root c) + of_bool (front c \<le> StartDir \<and> include_cur_dir c)"

definition parse_next_component :: "profile \<Rightarrow> Components \<Rightarrow> (nat \<times> Component option) outcome" where
  "parse_next_component pr c =
     obind (debug_assert pr (front c = Body)) (\<lambda>_.
     (let (extra, cp) =
        (case position is_sep (path c) of None \<Rightarrow> (0, path c) | Some i \<Rightarrow> (1, take i (path c)))
      in Ret (length cp + extra, parse_single_component cp)))"

definition parse_next_component_back :: "profile \<Rightarrow> Components \<Rightarrow> (nat \<times> Component option) outcome" where
  "parse_next_component_back pr c =
     obind (debug_assert pr (back_st c = Body)) (\<lambda>_.
     (let start = len_before_body c in
      obind (slice_from start (path c)) (\<lambda>tail.
      obind (case rposition is_sep tail of
               None \<Rightarrow> Ret (0, tail)
             | Some i \<Rightarrow> obind (slice_from (start + i + 1) (path c)) (\<lambda>cp. Ret (1, cp))) (\<lambda>(extra, cp).
      Ret (length cp + extra, parse_single_component cp)))))"

text \<open>A component that parses to nothing still consumes a byte, so every loop below makes progress.\<close>

lemma parse_next_size:
  assumes "parse_next_component pr c = Ret (sz, cp)" and "path c \<noteq> []"
  shows "0 < sz" and "sz \<le> length (path c)"
  using assms by (auto simp: parse_next_component_def outcome_simps Let_def split: option.splits dest: position_Some)

lemma parse_next_back_size:
  assumes "parse_next_component_back pr c = Ret (sz, cp)" and "len_before_body c < length (path c)"
  shows "0 < sz" and "sz \<le> length (path c) - len_before_body c"
  using assms
  by (auto simp: parse_next_component_back_def outcome_simps Let_def slice_from_def split: option.splits if_splits
      dest: rposition_Some)

function trim_left :: "profile \<Rightarrow> Components \<Rightarrow> Components outcome" where
  "trim_left pr c =
     (if path c = [] then Ret c
      else obind (parse_next_component pr c) (\<lambda>(sz, cp).
           if cp \<noteq> None then Ret c
           else obind (slice_from sz (path c)) (\<lambda>p. trim_left pr (c\<lparr>path := p\<rparr>))))"
  by pat_completeness auto

termination
  by (relation "measure (\<lambda>(pr, c). length (path c))")
    (auto simp: slice_from_def split: if_splits dest: parse_next_size)

function trim_right :: "profile \<Rightarrow> Components \<Rightarrow> Components outcome" where
  "trim_right pr c =
     (if length (path c) \<le> len_before_body c then Ret c
      else obind (parse_next_component_back pr c) (\<lambda>(sz, cp).
           if cp \<noteq> None then Ret c
           else obind (slice_cut sz (path c)) (\<lambda>p. trim_right pr (c\<lparr>path := p\<rparr>))))"
  by pat_completeness auto

termination
proof (relation "measure (\<lambda>(pr, c). length (path c))", goal_cases)
  case (2 pr c x sz cp p)
  then have "0 < sz" using parse_next_back_size(1) [of pr c sz cp] by simp
  with 2 show ?case by (auto simp: slice_cut_def slice_to_def split: if_splits)
qed simp

definition as_path :: "profile \<Rightarrow> Components \<Rightarrow> string outcome" where
  "as_path pr c =
     obind (if front c = Body then trim_left pr c else Ret c) (\<lambda>c.
     obind (if back_st c = Body then trim_right pr c else Ret c) (\<lambda>c.
     Ret (path c)))"

text \<open>\<open>Iterator::next\<close> and \<open>DoubleEndedIterator::next_back\<close>.\<close>

function Components_next :: "profile \<Rightarrow> Components \<Rightarrow> (Component option \<times> Components) outcome" where
  "Components_next pr c =
     (if finished c then Ret (None, c)
      else case front c of
        StartDir \<Rightarrow>
          (let c = c\<lparr>front := Body\<rparr> in
           if root c then
             obind (debug_assert pr (path c \<noteq> [])) (\<lambda>_.
             obind (slice_from 1 (path c)) (\<lambda>p. Ret (Some RootDir, c\<lparr>path := p\<rparr>)))
           else if include_cur_dir c then
             obind (debug_assert pr (path c \<noteq> [])) (\<lambda>_.
             obind (slice_from 1 (path c)) (\<lambda>p. Ret (Some CurDir, c\<lparr>path := p\<rparr>)))
           else Components_next pr c)
      | Body \<Rightarrow>
          if path c \<noteq> [] then
            obind (parse_next_component pr c) (\<lambda>(sz, cp).
            obind (slice_from sz (path c)) (\<lambda>p.
            if cp \<noteq> None then Ret (cp, c\<lparr>path := p\<rparr>) else Components_next pr (c\<lparr>path := p\<rparr>)))
          else Components_next pr (c\<lparr>front := Done\<rparr>)
      | Done \<Rightarrow> Panic)"
  by pat_completeness auto

termination
proof (relation "measure (\<lambda>(pr, c). length (path c) + (2 - State_rank (front c)))", goal_cases)
  case (3 pr c x sz cp p)
  then have "0 < sz" using parse_next_size(1) [of pr c sz cp] by simp
  with 3 show ?case by (auto simp: slice_from_def split: if_splits)
qed auto

fun back_weight :: "State \<Rightarrow> nat" where
  "back_weight Body = 2"
| "back_weight StartDir = 1"
| "back_weight Done = 0"

function Components_next_back :: "profile \<Rightarrow> Components \<Rightarrow> (Component option \<times> Components) outcome" where
  "Components_next_back pr c =
     (if finished c then Ret (None, c)
      else case back_st c of
        Body \<Rightarrow>
          if len_before_body c < length (path c) then
            obind (parse_next_component_back pr c) (\<lambda>(sz, cp).
            obind (slice_cut sz (path c)) (\<lambda>p.
            if cp \<noteq> None then Ret (cp, c\<lparr>path := p\<rparr>) else Components_next_back pr (c\<lparr>path := p\<rparr>)))
          else Components_next_back pr (c\<lparr>back_st := StartDir\<rparr>)
      | StartDir \<Rightarrow>
          (let c = c\<lparr>back_st := Done\<rparr> in
           if root c then obind (slice_cut 1 (path c)) (\<lambda>p. Ret (Some RootDir, c\<lparr>path := p\<rparr>))
           else if include_cur_dir c then obind (slice_cut 1 (path c)) (\<lambda>p. Ret (Some CurDir, c\<lparr>path := p\<rparr>))
           else Components_next_back pr c)
      | Done \<Rightarrow> Panic)"
  by pat_completeness auto

termination
proof (relation "measure (\<lambda>(pr, c). length (path c) + back_weight (back_st c))", goal_cases)
  case (3 pr c x sz cp p)
  then have "0 < sz" using parse_next_back_size(1) [of pr c sz cp] by simp
  with 3 show ?case by (auto simp: slice_cut_def slice_to_def split: if_splits)
qed auto

declare trim_left.simps [simp del] trim_right.simps [simp del] Components_next.simps [simp del]
  Components_next_back.simps [simp del]

fun Component_as_ref :: "Component \<Rightarrow> string" where
  "Component_as_ref RootDir = [SEPERATOR]"
| "Component_as_ref CurDir = ''.''"
| "Component_as_ref ParentDir = ''..''"
| "Component_as_ref (Normal s) = s"

subsection \<open>The components of a path\<close>

text \<open>
  The specification: split the string at the separators, drop the empty and the \<open>.\<close> pieces, and put
  the root or a leading \<open>.\<close> in front.
\<close>

fun split_sep :: "string \<Rightarrow> string list" where
  "split_sep [] = [[]]"
| "split_sep (c # cs) =
     (if is_sep c then [] # split_sep cs
      else case split_sep cs of [] \<Rightarrow> [[c]] | w # ws \<Rightarrow> (c # w) # ws)"

definition body_comps :: "string \<Rightarrow> Component list" where
  "body_comps s = List.map_filter parse_single_component (split_sep s)"

definition components :: "string \<Rightarrow> Component list" where
  "components s =
     (if has_physical_root s then RootDir # body_comps s
      else if hd (split_sep s) = ''.'' then CurDir # body_comps s
      else body_comps s)"

definition option_list :: "'a option \<Rightarrow> 'a list" where
  "option_list x = (case x of None \<Rightarrow> [] | Some y \<Rightarrow> [y])"

lemma option_list_simps [simp]: "option_list None = []" "option_list (Some x) = [x]"
  by (simp_all add: option_list_def)

lemma split_sep_not_Nil: "split_sep s \<noteq> []"
  by (induction s) (auto split: list.splits)

lemma split_sep_append: "is_sep c \<Longrightarrow> split_sep (xs @ c # ys) = split_sep xs @ split_sep ys"
proof (induction xs)
  case (Cons x xs)
  then show ?case using split_sep_not_Nil [of xs] by (auto split: list.splits)
qed simp

lemma split_sep_word: "\<forall>x \<in> set w. \<not> is_sep x \<Longrightarrow> split_sep w = [w]"
  by (induction w) auto

lemma body_comps_Nil [simp]: "body_comps [] = []"
  by (simp add: body_comps_def map_filter_def parse_single_component_def)

lemma body_comps_append: "is_sep c \<Longrightarrow> body_comps (xs @ c # ys) = body_comps xs @ body_comps ys"
  by (simp add: body_comps_def split_sep_append map_filter_def)

lemma body_comps_word: "\<forall>x \<in> set w. \<not> is_sep x \<Longrightarrow> body_comps w = option_list (parse_single_component w)"
  by (simp add: body_comps_def split_sep_word map_filter_def option_list_def split: option.splits)

lemma parse_next_component_law:
  assumes "front c = Body" and "path c \<noteq> []"
  obtains w sz where "parse_next_component pr c = Ret (sz, parse_single_component w)" "0 < sz" "sz \<le> length (path c)"
    "body_comps (path c) = option_list (parse_single_component w) @ body_comps (drop sz (path c))"
    "w = takeWhile (\<lambda>c. \<not> is_sep c) (path c)"
proof (cases "position is_sep (path c)")
  case None
  then have "\<forall>x \<in> set (path c). \<not> is_sep x" by (simp add: position_None)
  with None assms show thesis
    by (intro that [of "length (path c)" "path c"])
      (simp_all add: parse_next_component_def body_comps_word takeWhile_eq_all_conv [THEN iffD2])
next
  case (Some i)
  from position_Some [OF this] have i: "i < length (path c)" "is_sep (path c ! i)"
    "\<forall>x \<in> set (take i (path c)). \<not> is_sep x" by auto
  have "path c = take i (path c) @ path c ! i # drop (Suc i) (path c)" using i(1) by (rule id_take_nth_drop)
  then have "body_comps (path c) = body_comps (take i (path c)) @ body_comps (drop (Suc i) (path c))"
    using body_comps_append [OF i(2)] by metis
  with Some assms i show thesis
    by (intro that [of "Suc i" "take i (path c)"])
      (simp_all add: parse_next_component_def body_comps_word position_takeWhile)
qed

lemma parse_next_component_back_law:
  assumes "back_st c = Body" and "len_before_body c < length (path c)"
  obtains w sz where "parse_next_component_back pr c = Ret (sz, parse_single_component w)" "0 < sz"
    "len_before_body c + sz \<le> length (path c)"
    "body_comps (drop (len_before_body c) (path c)) =
       body_comps (drop (len_before_body c) (take (length (path c) - sz) (path c))) @ option_list (parse_single_component w)"
    "length (path c) - sz = len_before_body c \<or> is_sep (path c ! (length (path c) - sz))"
proof -
  let ?n = "len_before_body c" and ?t = "drop (len_before_body c) (path c)"
  show thesis
  proof (cases "rposition is_sep ?t")
    case None
    then have "\<forall>x \<in> set ?t. \<not> is_sep x" by (simp add: rposition_None)
    with None assms show thesis
      by (intro that [of "length ?t" ?t]) (simp_all add: parse_next_component_back_def body_comps_word Let_def)
  next
    case (Some i)
    from rposition_Some [OF this] have i: "i < length ?t" "is_sep (?t ! i)"
      "\<forall>x \<in> set (drop (Suc i) ?t). \<not> is_sep x" by auto
    let ?w = "drop (Suc i) ?t"
    have "?t = take i ?t @ ?t ! i # ?w" using i(1) by (rule id_take_nth_drop)
    then have split: "body_comps ?t = body_comps (take i ?t) @ body_comps ?w"
      using body_comps_append [OF i(2)] by metis
    have len: "?n + i < length (path c)" using i(1) assms(2) by simp
    have cut: "length (path c) - (length ?w + 1) = ?n + i" using i(1) by simp
    have "drop ?n (take (?n + i) (path c)) = take i ?t" by (simp add: take_drop add.commute)
    moreover have "parse_next_component_back pr c = Ret (length ?w + 1, parse_single_component ?w)"
      using Some assms len by (simp add: parse_next_component_back_def add.commute Let_def)
    ultimately show thesis using split i len cut
      by (intro that [of "length ?w + 1" ?w]) (simp_all add: body_comps_word add.commute [of i])
  qed
qed

subsection \<open>The iterator refines the list of components\<close>

text \<open>What the iterator still has to deliver, and its invariant.\<close>

definition head_comps :: "Components \<Rightarrow> Component list" where
  "head_comps c = (if root c then [RootDir] else if include_cur_dir c then [CurDir] else [])"

definition items :: "Components \<Rightarrow> Component list" where
  "items c =
     (if finished c then []
      else (if front c = StartDir then head_comps c else []) @
           (if back_st c = Body then body_comps (drop (len_before_body c) (path c)) else []))"

definition Components_inv :: "Components \<Rightarrow> bool" where
  "Components_inv c =
     (case (front c, back_st c) of
        (StartDir, Body) \<Rightarrow> root c = has_physical_root (path c)
      | (StartDir, StartDir) \<Rightarrow> root c = has_physical_root (path c) \<and> length (path c) = len_before_body c
      | (Body, Body) \<Rightarrow> True
      | (StartDir, Done) \<Rightarrow> path c = []
      | (Body, StartDir) \<Rightarrow> path c = []
      | (Done, Body) \<Rightarrow> path c = []
      | _ \<Rightarrow> False)"

lemma State_order [simp]:
  "\<not> StartDir > s" "Body > s \<longleftrightarrow> s = StartDir" "s \<le> StartDir \<longleftrightarrow> s = StartDir"
  by (cases s; simp add: less_State_def less_eq_State_def)+

lemma include_cur_dir_iff: "include_cur_dir c \<longleftrightarrow>
    \<not> root c \<and> path c \<noteq> [] \<and> hd (path c) = CHR ''.'' \<and> (tl (path c) = [] \<or> is_sep (hd (tl (path c))))"
  by (auto simp: include_cur_dir_def split: list.splits)

lemma include_cur_dir_path: "include_cur_dir c \<Longrightarrow> path c \<noteq> []"
  by (simp add: include_cur_dir_iff)

lemma include_cur_dir_upd [simp]:
  "include_cur_dir (c\<lparr>front := f\<rparr>) = include_cur_dir c" "include_cur_dir (c\<lparr>back_st := f\<rparr>) = include_cur_dir c"
  by (simp_all add: include_cur_dir_iff)

lemma len_before_body_simps [simp]:
  "front c = StartDir \<Longrightarrow> len_before_body c = length (head_comps c)"
  "front c \<noteq> StartDir \<Longrightarrow> len_before_body c = 0"
  by (auto simp: len_before_body_def head_comps_def include_cur_dir_iff)

lemma head_comps_upd [simp]:
  "head_comps (c\<lparr>front := f\<rparr>) = head_comps c" "head_comps (c\<lparr>back_st := f\<rparr>) = head_comps c"
  by (simp_all add: head_comps_def)

lemma head_comps_length:
  "root c = has_physical_root (path c) \<Longrightarrow> length (head_comps c) \<le> length (path c)"
  by (auto simp: head_comps_def has_physical_root_def Suc_le_eq dest: include_cur_dir_path)

lemma items_simps:
  "finished c \<Longrightarrow> items c = []"
  "front c = Body \<Longrightarrow> back_st c = Body \<Longrightarrow> items c = body_comps (path c)"
  "front c = StartDir \<Longrightarrow> back_st c = Body \<Longrightarrow> items c = head_comps c @ body_comps (drop (length (head_comps c)) (path c))"
  "front c = StartDir \<Longrightarrow> back_st c = StartDir \<Longrightarrow> items c = head_comps c"
  by (auto simp: items_def finished_def)

lemma finished_simps [simp]:
  "finished c \<longleftrightarrow> front c = Done \<or> back_st c = Done \<or> front c = Body \<and> back_st c = StartDir"
  by (cases "front c"; cases "back_st c") (simp_all add: finished_def less_State_def)

text \<open>One round of \<open>next\<close>: it returns the first item, or it goes on with an iterator of the same items.\<close>

definition next_returns :: "profile \<Rightarrow> Components \<Rightarrow> bool" where
  "next_returns pr c \<longleftrightarrow> (\<exists>c'. Components_inv c' \<and> items c' = tl (items c) \<and>
     Components_next pr c = Ret (if items c = [] then None else Some (hd (items c)), c'))"

definition next_skips :: "profile \<Rightarrow> Components \<Rightarrow> Components \<Rightarrow> bool" where
  "next_skips pr c d \<longleftrightarrow> Components_next pr c = Components_next pr d \<and> Components_inv d \<and> items d = items c"

lemma next_skips_returns: "next_skips pr c d \<Longrightarrow> next_returns pr d \<Longrightarrow> next_returns pr c"
  unfolding next_skips_def next_returns_def by metis

lemma next_start:
  assumes "Components_inv c" and "\<not> finished c" and "front c = StartDir"
  shows "next_returns pr c \<or> \<not> root c \<and> \<not> include_cur_dir c \<and> next_skips pr c (c\<lparr>front := Body\<rparr>)"
proof (cases "head_comps c")
  case (Cons x xs)
  let ?d = "c\<lparr>front := Body, path := drop 1 (path c)\<rparr>"
  have r: "root c = has_physical_root (path c)" using assms by (cases "back_st c") (auto simp: Components_inv_def)
  have ne: "path c \<noteq> []"
    using Cons r by (auto simp: head_comps_def has_physical_root_def split: if_splits dest: include_cur_dir_path)
  then have x: "xs = []" "Components_next pr c = Ret (Some x, ?d)"
    using Cons assms(2,3) by (auto simp: head_comps_def Components_next.simps [of pr c] Suc_le_eq split: if_splits)
  have "Components_inv ?d" "items ?d = tl (items c)"
    using assms Cons x(1) ne by (cases "back_st c"; auto simp: Components_inv_def items_simps)+
  moreover have "items c \<noteq> []" "hd (items c) = x"
    using assms(2,3) Cons by (cases "back_st c"; auto simp: items_simps)+
  ultimately have "next_returns pr c" unfolding next_returns_def using x(2) by (intro exI [of _ ?d]) simp
  then show ?thesis ..
next
  case Nil
  then have h: "\<not> root c" "\<not> include_cur_dir c" by (auto simp: head_comps_def split: if_splits)
  have "Components_next pr c = Components_next pr (c\<lparr>front := Body\<rparr>)"
    using assms(2,3) h by (simp add: Components_next.simps [of pr c])
  moreover have "Components_inv (c\<lparr>front := Body\<rparr>)" "items (c\<lparr>front := Body\<rparr>) = items c"
    using assms Nil by (cases "back_st c"; auto simp: Components_inv_def items_simps)+
  ultimately show ?thesis using h by (simp add: next_skips_def)
qed

lemma next_body:
  assumes "\<not> finished c" and "front c = Body"
  shows "next_returns pr c \<or> (\<exists>sz. path c \<noteq> [] \<and> parse_next_component pr c = Ret (sz, None) \<and> sz \<le> length (path c) \<and>
    next_skips pr c (c\<lparr>path := drop sz (path c)\<rparr>))"
proof (cases "path c = []")
  case True
  let ?c = "c\<lparr>front := Done\<rparr>"
  have bk: "back_st c = Body" using assms by (cases "back_st c") auto
  have "Components_next pr c = Ret (None, ?c)"
    using assms True by (simp add: Components_next.simps [of pr c] Components_next.simps [of pr ?c])
  with assms(2) bk True have "next_returns pr c"
    unfolding next_returns_def by (intro exI [of _ ?c]) (simp add: items_simps Components_inv_def)
  then show ?thesis ..
next
  case False
  have bk: "back_st c = Body" using assms by (cases "back_st c") auto
  obtain w sz where w: "parse_next_component pr c = Ret (sz, parse_single_component w)" "0 < sz" "sz \<le> length (path c)"
    "body_comps (path c) = option_list (parse_single_component w) @ body_comps (drop sz (path c))"
    by (rule parse_next_component_law [OF assms(2) False])
  let ?c = "c\<lparr>path := drop sz (path c)\<rparr>"
  have inv: "Components_inv ?c" "items ?c = body_comps (drop sz (path c))"
    using assms(2) bk by (simp_all add: Components_inv_def items_simps)
  show ?thesis
  proof (cases "parse_single_component w")
    case None
    have "Components_next pr c = Components_next pr ?c" using assms False w None by (simp add: Components_next.simps [of pr c])
    moreover have "items ?c = items c" using inv(2) w(4) None assms(2) bk by (simp add: items_simps)
    ultimately have "next_skips pr c ?c" using inv(1) by (simp add: next_skips_def)
    with False w(1,3) None show ?thesis by auto
  next
    case (Some x)
    with assms False w bk inv have "next_returns pr c"
      unfolding next_returns_def by (intro exI [of _ ?c]) (simp add: Components_next.simps [of pr c] items_simps)
    then show ?thesis ..
  qed
qed

lemma Components_next_returns: "Components_inv c \<Longrightarrow> next_returns pr c"
proof (induction pr c rule: Components_next.induct)
  case (1 pr c)
  show ?case
  proof (cases "finished c")
    case True
    with "1.prems" show ?thesis
      unfolding next_returns_def by (intro exI [of _ c]) (simp add: items_simps Components_next.simps [of pr c])
  next
    case nf: False
    show ?thesis
    proof (cases "front c")
      case StartDir
      from next_start [OF "1.prems" nf StartDir, of pr] show ?thesis
      proof
        assume skip: "\<not> root c \<and> \<not> include_cur_dir c \<and> next_skips pr c (c\<lparr>front := Body\<rparr>)"
        then have "next_returns pr (c\<lparr>front := Body\<rparr>)" using "1.IH"(1) [OF nf StartDir refl] by (simp add: next_skips_def)
        with skip show ?thesis by (blast intro: next_skips_returns)
      qed
    next
      case Body
      from next_body [OF nf Body, of pr] show ?thesis
      proof
        assume "\<exists>sz. path c \<noteq> [] \<and> parse_next_component pr c = Ret (sz, None) \<and> sz \<le> length (path c) \<and>
          next_skips pr c (c\<lparr>path := drop sz (path c)\<rparr>)"
        then obtain sz where sz: "path c \<noteq> []" "parse_next_component pr c = Ret (sz, None)" "sz \<le> length (path c)"
          "next_skips pr c (c\<lparr>path := drop sz (path c)\<rparr>)" by blast
        have "next_returns pr (c\<lparr>path := drop sz (path c)\<rparr>)"
          using "1.IH"(2) [OF nf Body sz(1,2) refl] sz(3,4) by (simp add: next_skips_def)
        with sz(4) show ?thesis by (rule next_skips_returns)
      qed
    next
      case Done
      with nf show ?thesis by simp
    qed
  qed
qed

lemmas Components_next_law = Components_next_returns [unfolded next_returns_def]

text \<open>Cutting a path at a separator behind its head keeps the head.\<close>

lemma head_comps_cut:
  assumes "root c = has_physical_root (path c)" and "length (head_comps c) \<le> n" and "n \<le> length (path c)"
    and "n = length (head_comps c) \<or> n < length (path c) \<and> is_sep (path c ! n)"
  shows "head_comps (c\<lparr>path := take n (path c)\<rparr>) = head_comps c"
    and "root c = has_physical_root (take n (path c))"
proof -
  show root: "root c = has_physical_root (take n (path c))"
    using assms(1-3) by (cases "path c"; cases n) (auto simp: has_physical_root_def head_comps_def split: if_splits)
  have "include_cur_dir (c\<lparr>path := take n (path c)\<rparr>) = include_cur_dir c" if r: "\<not> root c"
  proof (cases "include_cur_dir c")
    case True
    then have "1 \<le> n" using r assms(2) by (simp add: head_comps_def)
    with True show ?thesis by (cases "path c"; cases n; cases "tl (path c)") (auto simp: include_cur_dir_iff take_Cons')
  next
    case False
    then have hc: "head_comps c = []" using r by (simp add: head_comps_def)
    show ?thesis
    proof (rule ccontr)
      assume "\<not> ?thesis"
      with False have inc: "include_cur_dir (c\<lparr>path := take n (path c)\<rparr>)" by simp
      then have "0 < n" by (cases n) (auto simp: include_cur_dir_iff)
      with assms(4) hc have n: "n < length (path c)" "is_sep (path c ! n)" by auto
      from inc obtain d rest where d: "path c = CHR ''.'' # rest" "n \<noteq> 1 \<longrightarrow> is_sep (hd rest)"
        using \<open>0 < n\<close> n(1) by (cases "path c"; cases n; cases "tl (path c)")
          (auto simp: include_cur_dir_iff take_Cons' split: if_splits)
      have "is_sep (hd rest)" using d n by (cases "n = 1"; cases rest) auto
      with d(1) r False show False by (simp add: include_cur_dir_iff)
    qed
  qed
  then show "head_comps (c\<lparr>path := take n (path c)\<rparr>) = head_comps c" by (simp add: head_comps_def)
qed

lemma cut_law:
  assumes "Components_inv c" and "\<not> finished c" and "back_st c = Body" and "len_before_body c < length (path c)"
  obtains w sz where "parse_next_component_back pr c = Ret (sz, parse_single_component w)"
    "sz \<le> length (path c)" "length (path c) - sz = len_before_body c \<or> is_sep (path c ! (length (path c) - sz))"
    "Components_inv (c\<lparr>path := take (length (path c) - sz) (path c)\<rparr>)"
    "items c = items (c\<lparr>path := take (length (path c) - sz) (path c)\<rparr>) @ option_list (parse_single_component w)"
    "len_before_body (c\<lparr>path := take (length (path c) - sz) (path c)\<rparr>) = len_before_body c"
proof -
  obtain w sz where w: "parse_next_component_back pr c = Ret (sz, parse_single_component w)" "0 < sz"
    "len_before_body c + sz \<le> length (path c)"
    "body_comps (drop (len_before_body c) (path c)) =
       body_comps (drop (len_before_body c) (take (length (path c) - sz) (path c))) @ option_list (parse_single_component w)"
    "length (path c) - sz = len_before_body c \<or> is_sep (path c ! (length (path c) - sz))"
    by (rule parse_next_component_back_law [OF assms(3,4)])
  let ?n = "length (path c) - sz"
  let ?c = "c\<lparr>path := take ?n (path c)\<rparr>"
  show thesis
  proof (cases "front c")
    case StartDir
    with assms(1,3) have r: "root c = has_physical_root (path c)" by (simp add: Components_inv_def)
    have n: "length (head_comps c) \<le> ?n" "?n \<le> length (path c)"
      "?n = length (head_comps c) \<or> ?n < length (path c) \<and> is_sep (path c ! ?n)" using w StartDir by auto
    note cut = head_comps_cut [OF r n]
    have "Components_inv ?c" using cut(2) StartDir assms(3) by (simp add: Components_inv_def)
    moreover have "items c = items ?c @ option_list (parse_single_component w)"
      using w(4) cut(1) StartDir assms(3) by (simp add: items_simps)
    ultimately show thesis using w cut(1) StartDir by (intro that) auto
  next
    case Body
    then have "Components_inv ?c" "items c = items ?c @ option_list (parse_single_component w)"
      using assms(3) w(4) by (simp_all add: Components_inv_def items_simps)
    then show thesis using w Body by (intro that) auto
  next
    case Done
    with assms(2) show thesis by simp
  qed
qed

lemma next_back_at_start:
  assumes "Components_inv c" and "\<not> finished c" and "back_st c = StartDir"
  shows "\<exists>c'. Components_inv c' \<and> items c' = butlast (items c) \<and>
    Components_next_back pr c = Ret (if items c = [] then None else Some (last (items c)), c')"
proof -
  have st: "front c = StartDir" "length (path c) = length (head_comps c)" "root c = has_physical_root (path c)"
    using assms by (cases "front c"; auto simp: Components_inv_def)+
  let ?c = "c\<lparr>back_st := Done\<rparr>"
  have "Components_next_back pr c = Ret (if head_comps c = [] then None else Some (last (head_comps c)), ?c\<lparr>path := []\<rparr>)"
    using assms(2,3) st
    by (auto simp: Components_next_back.simps [of pr c] Components_next_back.simps [of pr ?c] head_comps_def Suc_le_eq)
  moreover have "Components_inv (?c\<lparr>path := []\<rparr>)" using st by (simp add: Components_inv_def)
  moreover have "butlast (head_comps c) = []" by (simp add: head_comps_def)
  ultimately show ?thesis using st assms(3) by (intro exI [of _ "?c\<lparr>path := []\<rparr>"]) (simp add: items_simps)
qed

lemma Components_next_back_law:
  assumes "Components_inv c"
  shows "\<exists>c'. Components_inv c' \<and> items c' = butlast (items c) \<and>
    Components_next_back pr c = Ret (if items c = [] then None else Some (last (items c)), c')"
  using assms
proof (induction pr c rule: Components_next_back.induct)
  case (1 pr c)
  show ?case
  proof (cases "finished c")
    case True
    with "1.prems" show ?thesis by (intro exI [of _ c]) (simp add: items_simps Components_next_back.simps [of pr c])
  next
    case nf: False
    show ?thesis
    proof (cases "back_st c")
      case Body
      show ?thesis
      proof (cases "len_before_body c < length (path c)")
        case True
        obtain w sz where w: "parse_next_component_back pr c = Ret (sz, parse_single_component w)" "sz \<le> length (path c)"
          and sep: "length (path c) - sz = len_before_body c \<or> is_sep (path c ! (length (path c) - sz))"
          and inv: "Components_inv (c\<lparr>path := take (length (path c) - sz) (path c)\<rparr>)"
            "items c = items (c\<lparr>path := take (length (path c) - sz) (path c)\<rparr>) @ option_list (parse_single_component w)"
          by (rule cut_law [OF "1.prems" nf Body True])
        let ?c = "c\<lparr>path := take (length (path c) - sz) (path c)\<rparr>"
        show ?thesis
        proof (cases "parse_single_component w")
          case None
          have "Components_next_back pr c = Components_next_back pr ?c"
            using nf Body True w None by (simp add: Components_next_back.simps [of pr c])
          moreover have "items ?c = items c" using inv(2) None by simp
          ultimately show ?thesis using "1.IH"(2) [OF nf Body True w(1) refl] w(2) None inv(1) by auto
        next
          case (Some x)
          with nf Body True w inv show ?thesis
            by (intro exI [of _ ?c]) (simp add: Components_next_back.simps [of pr c])
        qed
      next
        case False
        let ?c = "c\<lparr>back_st := StartDir\<rparr>"
        have eq: "Components_next_back pr c = Components_next_back pr ?c"
          using nf Body False by (simp add: Components_next_back.simps [of pr c])
        have "Components_inv ?c" "items ?c = items c"
          using nf Body False "1.prems" head_comps_length [of c]
          by (cases "front c"; auto simp: Components_inv_def items_simps)+
        then show ?thesis using "1.IH"(3) [OF nf Body False] eq by auto
      qed
    next
      case StartDir
      with nf "1.prems" show ?thesis by (intro next_back_at_start)
    next
      case Done
      with nf show ?thesis by simp
    qed
  qed
qed

subsection \<open>Back to a path\<close>

lemma hd_split_sep: "hd (split_sep s) = takeWhile (\<lambda>c. \<not> is_sep c) s"
proof (induction s)
  case (Cons c s)
  then show ?case using split_sep_not_Nil [of s] by (auto split: list.splits)
qed simp

lemma include_cur_dir_new: "include_cur_dir (Components_new s) \<longleftrightarrow> \<not> has_physical_root s \<and> hd (split_sep s) = ''.''"
proof (cases s)
  case (Cons c t)
  then show ?thesis
    by (cases t) (auto simp: include_cur_dir_iff Components_new_def hd_split_sep is_sep_def SEPERATOR_def has_physical_root_def
        simp del: split_sep.simps)
qed (simp add: include_cur_dir_iff Components_new_def)

lemma items_new: "items (Components_new s) = components s"
proof -
  have it: "items (Components_new s) = head_comps (Components_new s) @ body_comps (drop (length (head_comps (Components_new s))) s)"
    by (simp add: items_simps Components_new_def)
  consider (root) "has_physical_root s" | (cur) "include_cur_dir (Components_new s)"
    | (none) "\<not> has_physical_root s" "\<not> include_cur_dir (Components_new s)" by blast
  then show ?thesis
  proof cases
    case root
    then obtain t where s: "s = SEPERATOR # t" by (cases s) (auto simp: has_physical_root_def)
    have "body_comps s = body_comps t" unfolding s using body_comps_append [of SEPERATOR "[]" t] by (simp add: is_sep_def)
    with root s show ?thesis unfolding it by (simp add: head_comps_def Components_new_def components_def)
  next
    case cur
    then have nr: "\<not> has_physical_root s" "hd (split_sep s) = ''.''" by (simp_all add: include_cur_dir_new)
    from cur obtain t where s: "s = CHR ''.'' # t" "t = [] \<or> is_sep (hd t)"
      by (cases s) (auto simp: include_cur_dir_iff Components_new_def)
    have "body_comps s = body_comps t"
    proof (cases t)
      case Nil
      then show ?thesis unfolding s(1)
        by (simp add: body_comps_word parse_single_component_def is_sep_def SEPERATOR_def)
    next
      case (Cons d u)
      with s have d: "is_sep d" by simp
      have "body_comps s = body_comps ''.'' @ body_comps u" unfolding s(1) Cons
        using body_comps_append [OF d, of "''.''" u] by simp
      moreover have "body_comps t = body_comps u" unfolding Cons using body_comps_append [OF d, of "[]" u] by simp
      ultimately show ?thesis by (simp add: body_comps_word parse_single_component_def is_sep_def SEPERATOR_def)
    qed
    with cur nr s show ?thesis unfolding it by (simp add: head_comps_def Components_new_def components_def)
  next
    case none
    with include_cur_dir_new [of s] show ?thesis unfolding it
      by (auto simp: head_comps_def Components_new_def components_def)
  qed
qed

lemma path_new [simp]: "path (Components_new s) = s"
  by (simp add: Components_new_def)

lemma Components_inv_new: "Components_inv (Components_new s)"
  by (simp add: Components_inv_def Components_new_def)

text \<open>A string that starts with neither a separator nor a \<open>.\<close> component.\<close>

definition plain_start :: "string \<Rightarrow> bool" where
  "plain_start p \<longleftrightarrow> p = [] \<or> \<not> has_physical_root p \<and> hd (split_sep p) \<noteq> ''.''"

lemma components_plain: "plain_start p \<Longrightarrow> components p = body_comps p"
  by (auto simp: plain_start_def components_def has_physical_root_def)

lemma plain_start_cut: "plain_start p \<Longrightarrow> n \<le> length p \<Longrightarrow> n = 0 \<or> n = length p \<or> is_sep (p ! n) \<Longrightarrow> plain_start (take n p)"
proof (elim disjE)
  assume p: "plain_start p" "n \<le> length p" "is_sep (p ! n)"
  show "plain_start (take n p)"
  proof (cases "n = 0 \<or> n = length p")
    case False
    then have "p = take n p @ p ! n # drop (Suc n) p" using p(2) by (intro id_take_nth_drop) simp
    then have "split_sep p = split_sep (take n p) @ split_sep (drop (Suc n) p)"
      using split_sep_append [OF p(3)] by metis
    then have "hd (split_sep p) = hd (split_sep (take n p))" using split_sep_not_Nil by simp
    moreover have "has_physical_root (take n p) \<longleftrightarrow> has_physical_root p" using False by (auto simp: has_physical_root_def)
    ultimately show ?thesis using p(1) by (auto simp: plain_start_def)
  qed (use p in \<open>auto simp: plain_start_def\<close>)
qed (auto simp: plain_start_def)

lemma trim_left_law:
  assumes "front c = Body"
  shows "\<exists>p. trim_left pr c = Ret (c\<lparr>path := p\<rparr>) \<and> body_comps p = body_comps (path c) \<and> plain_start p \<and>
    (path c = [] \<longrightarrow> p = [])"
  using assms
proof (induction pr c rule: trim_left.induct)
  case (1 pr c)
  show ?case
  proof (cases "path c = []")
    case True
    then show ?thesis by (intro exI [of _ "[]"]) (simp add: trim_left.simps [of pr c] plain_start_def)
  next
    case False
    obtain w sz where w: "parse_next_component pr c = Ret (sz, parse_single_component w)" "0 < sz" "sz \<le> length (path c)"
      "body_comps (path c) = option_list (parse_single_component w) @ body_comps (drop sz (path c))"
      "w = takeWhile (\<lambda>c. \<not> is_sep c) (path c)"
      by (rule parse_next_component_law [OF "1.prems" False])
    show ?thesis
    proof (cases "parse_single_component w")
      case None
      with w False 1 have "\<exists>p. trim_left pr (c\<lparr>path := drop sz (path c)\<rparr>) = Ret (c\<lparr>path := p\<rparr>) \<and>
          body_comps p = body_comps (drop sz (path c)) \<and> plain_start p" by force
      with None w False show ?thesis by (auto simp: trim_left.simps [of pr c])
    next
      case (Some x)
      then have "parse_single_component (takeWhile (\<lambda>c. \<not> is_sep c) (path c)) \<noteq> None" using w(5) by simp
      then have "plain_start (path c)"
        by (cases "path c") (auto simp: plain_start_def hd_split_sep parse_single_component_def has_physical_root_def is_sep_def
            simp del: split_sep.simps split: if_splits)
      with Some w False show ?thesis by (intro exI [of _ "path c"]) (simp add: trim_left.simps [of pr c])
    qed
  qed
qed

lemma trim_right_law:
  assumes "Components_inv c" and "back_st c = Body"
  shows "\<exists>n \<le> length (path c). trim_right pr c = Ret (c\<lparr>path := take n (path c)\<rparr>) \<and>
    Components_inv (c\<lparr>path := take n (path c)\<rparr>) \<and> items (c\<lparr>path := take n (path c)\<rparr>) = items c \<and>
    (n = len_before_body c \<or> n = length (path c) \<or> is_sep (path c ! n))"
  using assms
proof (induction pr c rule: trim_right.induct)
  case (1 pr c)
  show ?case
  proof (cases "length (path c) \<le> len_before_body c")
    case True
    with "1.prems" show ?thesis by (intro exI [of _ "length (path c)"]) (simp add: trim_right.simps [of pr c])
  next
    case False
    then have nf: "\<not> finished c" and lt: "len_before_body c < length (path c)"
      using "1.prems" by (cases "front c"; auto simp: Components_inv_def)+
    obtain w sz where w: "parse_next_component_back pr c = Ret (sz, parse_single_component w)" "sz \<le> length (path c)"
      and sep: "length (path c) - sz = len_before_body c \<or> is_sep (path c ! (length (path c) - sz))"
      and inv: "Components_inv (c\<lparr>path := take (length (path c) - sz) (path c)\<rparr>)"
        "items c = items (c\<lparr>path := take (length (path c) - sz) (path c)\<rparr>) @ option_list (parse_single_component w)"
        "len_before_body (c\<lparr>path := take (length (path c) - sz) (path c)\<rparr>) = len_before_body c"
      by (rule cut_law [OF "1.prems"(1) nf "1.prems"(2) lt])
    let ?k = "length (path c) - sz"
    show ?thesis
    proof (cases "parse_single_component w")
      case None
      define d where "d = c\<lparr>path := take ?k (path c)\<rparr>"
      have d: "path d = take ?k (path c)" "back_st d = Body" "front d = front c" "items d = items c" "Components_inv d"
        "len_before_body d = len_before_body c"
        using inv None "1.prems"(2) by (simp_all add: d_def)
      have "\<exists>n \<le> length (path d). trim_right pr d = Ret (d\<lparr>path := take n (path d)\<rparr>) \<and>
          Components_inv (d\<lparr>path := take n (path d)\<rparr>) \<and> items (d\<lparr>path := take n (path d)\<rparr>) = items d \<and>
          (n = len_before_body d \<or> n = length (path d) \<or> is_sep (path d ! n))"
        unfolding d_def by (rule "1.IH" [OF False w(1) refl _ _]) (use w None d in \<open>simp_all add: d_def\<close>)
      then obtain n where n: "n \<le> ?k" "trim_right pr d = Ret (c\<lparr>path := take n (take ?k (path c))\<rparr>)"
        "Components_inv (c\<lparr>path := take n (take ?k (path c))\<rparr>)" "items (c\<lparr>path := take n (take ?k (path c))\<rparr>) = items c"
        "n = len_before_body c \<or> n = ?k \<or> is_sep (take ?k (path c) ! n)"
        using d w(2) by (auto simp: d_def simp del: take_take)
      have tk: "take n (take ?k (path c)) = take n (path c)" using n(1) by (simp add: min_def)
      have "n = len_before_body c \<or> n = length (path c) \<or> is_sep (path c ! n)"
        using n(1,5) sep by (cases "n < ?k") auto
      moreover have "trim_right pr c = trim_right pr d"
        using False w None by (simp add: trim_right.simps [of pr c] d_def)
      ultimately show ?thesis using n(1-4) w(2) unfolding tk by (intro exI [of _ n]) simp
    next
      case (Some x)
      with w False "1.prems" show ?thesis
        by (intro exI [of _ "length (path c)"]) (simp add: trim_right.simps [of pr c])
    qed
  qed
qed

text \<open>\<open>as_path\<close> gives a path whose components are those the iterator has left.\<close>

lemma as_path_body:
  assumes "Components_inv c" and "front c = Body"
  shows "\<exists>p. as_path pr c = Ret p \<and> components p = items c"
proof -
  obtain p where p: "trim_left pr c = Ret (c\<lparr>path := p\<rparr>)" "body_comps p = body_comps (path c)" "plain_start p"
    "path c = [] \<longrightarrow> p = []" using trim_left_law [OF assms(2)] by blast
  show ?thesis
  proof (cases "back_st c = Body")
    case True
    let ?c = "c\<lparr>path := p\<rparr>"
    have inv: "Components_inv ?c" using assms(2) True by (simp add: Components_inv_def)
    obtain n where n: "n \<le> length p" "trim_right pr ?c = Ret (?c\<lparr>path := take n p\<rparr>)"
      "items (?c\<lparr>path := take n p\<rparr>) = items ?c" "n = 0 \<or> n = length p \<or> is_sep (p ! n)"
      using trim_right_law [OF inv] assms(2) True by auto
    have "components (take n p) = body_comps (take n p)" by (rule components_plain [OF plain_start_cut [OF p(3) n(1,4)]])
    also have "\<dots> = items c" using n(3) p(2) assms(2) True by (simp add: items_simps)
    finally show ?thesis using p(1) n(2) assms(2) True by (simp add: as_path_def)
  next
    case False
    with assms have "path c = []" "finished c" by (cases "back_st c"; simp add: Components_inv_def)+
    with p assms(2) False show ?thesis by (simp add: as_path_def items_simps components_plain plain_start_def)
  qed
qed

lemma as_path_law:
  assumes "Components_inv c"
  shows "\<exists>p. as_path pr c = Ret p \<and> components p = items c"
proof (cases "front c")
  case StartDir
  show ?thesis
  proof (cases "back_st c = Body")
    case True
    obtain n where n: "trim_right pr c = Ret (c\<lparr>path := take n (path c)\<rparr>)"
      "Components_inv (c\<lparr>path := take n (path c)\<rparr>)" "items (c\<lparr>path := take n (path c)\<rparr>) = items c"
      using trim_right_law [OF assms True] by blast
    have "c\<lparr>path := take n (path c)\<rparr> = Components_new (take n (path c))"
      using n(2) StartDir True by (simp add: Components_inv_def Components_new_def)
    then show ?thesis using n StartDir True items_new [of "take n (path c)"] by (simp add: as_path_def)
  next
    case False
    have "components (path c) = items c"
    proof (cases "back_st c")
      case StartDir
      with False \<open>front c = StartDir\<close> assms have i: "root c = has_physical_root (path c)" "length (path c) = length (head_comps c)"
        by (simp_all add: Components_inv_def)
      have "head_comps (Components_new (path c)) = head_comps c"
        using i by (simp add: head_comps_def Components_new_def include_cur_dir_iff)
      then have "items (Components_new (path c)) = head_comps c"
        using i by (simp add: items_simps Components_new_def)
      with items_new [of "path c"] StartDir \<open>front c = StartDir\<close> show ?thesis by (simp add: items_simps)
    next
      case Done
      with StartDir assms show ?thesis by (simp add: Components_inv_def items_simps components_plain plain_start_def)
    qed (use False in simp)
    with False StartDir show ?thesis by (simp add: as_path_def)
  qed
next
  case Body
  with assms show ?thesis by (rule as_path_body)
next
  case Done
  with assms have d: "path c = []" "back_st c = Body" by (cases "back_st c"; simp add: Components_inv_def)+
  with Done show ?thesis by (simp add: as_path_def trim_right.simps [of pr c] items_simps components_plain plain_start_def)
qed

subsection \<open>The iterator contract\<close>

interpretation comps: double_ended "Components_next pr" Components_inv items "Components_next_back pr" for pr
  by unfold_locales (blast intro: Components_next_law, blast intro: Components_next_back_law)

subsection \<open>Properties\<close>

text \<open>
  C15: The iterator over a path never panics, always returns, and under any mixture of \<open>next\<close> and
  \<open>next_back\<close> delivers the components of the path as if they were taken from the two ends of a list.
\<close>

theorem Components_refine_list:
  "\<exists>c'. drain (Components_next pr) (Components_next_back pr) ds (Components_new s) =
     Ret (fst (drain_list ds (components s)), c') \<and> items c' = snd (drain_list ds (components s))"
  using comps.drain_law [OF Components_inv_new [of s], of pr ds] by (auto simp: items_new)

text \<open>
  C16: What an iterator has left can be turned back into a path with exactly these components, at every
  point of the iteration.
\<close>

theorem as_path_components:
  "obind (drain (Components_next pr) (Components_next_back pr) ds (Components_new s)) (\<lambda>(xs, c).
   obind (as_path pr c) (\<lambda>p. Ret (components p))) = Ret (snd (drain_list ds (components s)))"
proof -
  obtain c where c: "Components_inv c" "drain (Components_next pr) (Components_next_back pr) ds (Components_new s) =
      Ret (fst (drain_list ds (components s)), c)" "items c = snd (drain_list ds (components s))"
    using comps.drain_law [OF Components_inv_new [of s], of pr ds] by (auto simp: items_new)
  from as_path_law [OF c(1), of pr] c(2,3) show ?thesis by auto
qed

end
