(* ===== verification/Rust_Str.thy ===== *)
theory Rust_Str
  imports Kernel_Prelude
begin

text \<open>
  Strings of the source: byte strings with their UTF-8 structure.  Slicing or truncating a \<open>str\<close> inside
  a multi-byte character panics, and \<open>core::str::from_utf8\<close> rejects malformed bytes.
\<close>

subsection \<open>Character boundaries\<close>

definition is_cont :: "char \<Rightarrow> bool" where
  "is_cont b \<longleftrightarrow> 128 \<le> (of_char b :: nat) \<and> (of_char b :: nat) < 192"

definition is_ascii :: "char \<Rightarrow> bool" where
  "is_ascii b \<longleftrightarrow> (of_char b :: nat) < 128"

definition is_char_boundary :: "nat \<Rightarrow> string \<Rightarrow> bool" where
  "is_char_boundary i s \<longleftrightarrow> i = 0 \<or> i = length s \<or> i < length s \<and> \<not> is_cont (s ! i)"

definition str_from :: "nat \<Rightarrow> string \<Rightarrow> string outcome" where
  "str_from i s = (if is_char_boundary i s then Ret (drop i s) else Panic)"

definition str_to :: "nat \<Rightarrow> string \<Rightarrow> string outcome" where
  "str_to i s = (if is_char_boundary i s then Ret (take i s) else Panic)"

definition str_truncate :: "nat \<Rightarrow> string \<Rightarrow> string outcome" where
  "str_truncate n s = (if n \<le> length s then (if is_char_boundary n s then Ret (take n s) else Panic) else Ret s)"

text \<open>The first bytes of the characters of a string, one for each character.\<close>

definition lead_bytes :: "string \<Rightarrow> string" where
  "lead_bytes s = filter (\<lambda>b. \<not> is_cont b) s"

subsection \<open>Validation\<close>

definition byte_in :: "string \<Rightarrow> nat \<Rightarrow> nat \<Rightarrow> nat \<Rightarrow> bool" where
  "byte_in s i lo hi \<longleftrightarrow> i < length s \<and> lo \<le> (of_char (s ! i) :: nat) \<and> (of_char (s ! i) :: nat) \<le> hi"

definition cont_at :: "string \<Rightarrow> nat \<Rightarrow> bool" where
  "cont_at s i \<longleftrightarrow> byte_in s i 128 191"

definition starts2 :: "string \<Rightarrow> bool" where
  "starts2 s \<longleftrightarrow> byte_in s 0 194 223 \<and> cont_at s 1"

definition starts3 :: "string \<Rightarrow> bool" where
  "starts3 s \<longleftrightarrow>
     (byte_in s 0 224 224 \<and> byte_in s 1 160 191 \<or> byte_in s 0 225 236 \<and> cont_at s 1 \<or>
      byte_in s 0 237 237 \<and> byte_in s 1 128 159 \<or> byte_in s 0 238 239 \<and> cont_at s 1) \<and> cont_at s 2"

definition starts4 :: "string \<Rightarrow> bool" where
  "starts4 s \<longleftrightarrow>
     (byte_in s 0 240 240 \<and> byte_in s 1 144 191 \<or> byte_in s 0 241 243 \<and> cont_at s 1 \<or>
      byte_in s 0 244 244 \<and> byte_in s 1 128 143) \<and> cont_at s 2 \<and> cont_at s 3"

text \<open>The number of bytes of the first character, zero if it is malformed.\<close>

definition utf8_char :: "string \<Rightarrow> nat" where
  "utf8_char s = (if byte_in s 0 0 127 then 1 else if starts2 s then 2 else if starts3 s then 3 else if starts4 s then 4 else 0)"

function valid_utf8 :: "string \<Rightarrow> bool" where
  "valid_utf8 s =
     (if s = [] then True else if utf8_char s = 0 then False else valid_utf8 (drop (utf8_char s) s))"
  by pat_completeness auto

termination
  by (relation "measure length") auto

declare valid_utf8.simps [simp del]

definition from_utf8 :: "string \<Rightarrow> (unit, string) result" where
  "from_utf8 s = (if valid_utf8 s then Ok s else Err ())"

lemma valid_utf8_Nil [simp]: "valid_utf8 []"
  by (simp add: valid_utf8.simps)

lemma starts_law:
  "starts2 s \<Longrightarrow> \<not> is_cont (s ! 0) \<and> \<not> is_ascii (s ! 0) \<and> 1 < length s"
  "starts3 s \<Longrightarrow> \<not> is_cont (s ! 0) \<and> \<not> is_ascii (s ! 0) \<and> \<not> is_ascii (s ! 1) \<and> 2 < length s"
  "starts4 s \<Longrightarrow> \<not> is_cont (s ! 0) \<and> \<not> is_ascii (s ! 0) \<and> \<not> is_ascii (s ! 1) \<and> \<not> is_ascii (s ! 2) \<and> 3 < length s"
  unfolding starts2_def starts3_def starts4_def cont_at_def
  by (elim disjE conjE; simp add: byte_in_def is_cont_def is_ascii_def)+

lemma utf8_char_bytes:
  assumes "0 < utf8_char s"
  shows "utf8_char s \<le> length s" and "\<not> is_cont (s ! 0)"
    and "0 < j \<Longrightarrow> j < utf8_char s \<Longrightarrow> \<not> is_ascii (s ! (j - 1))"
proof -
  consider (one) "utf8_char s = 1" "byte_in s 0 0 127" | (two) "utf8_char s = 2" "starts2 s"
    | (three) "utf8_char s = 3" "starts3 s" | (four) "utf8_char s = 4" "starts4 s"
    using assms by (auto simp: utf8_char_def split: if_splits)
  then have *: "utf8_char s \<le> length s \<and> \<not> is_cont (s ! 0) \<and> (\<forall>j < utf8_char s. 0 < j \<longrightarrow> \<not> is_ascii (s ! (j - 1)))"
  proof cases
    case one
    then show ?thesis by (auto simp: byte_in_def is_cont_def Suc_le_eq)
  next
    case two
    with starts_law(1) [of s] show ?thesis by (auto simp: less_Suc_eq numeral_2_eq_2)
  next
    case three
    with starts_law(2) [of s] show ?thesis by (auto simp: less_Suc_eq numeral_3_eq_3 numeral_2_eq_2)
  next
    case four
    then have "utf8_char s = Suc (Suc (Suc (Suc 0)))" by simp
    with starts_law(3) [OF four(2)] show ?thesis by (auto simp: less_Suc_eq numeral_3_eq_3 numeral_2_eq_2)
  qed
  then show "utf8_char s \<le> length s" "\<not> is_cont (s ! 0)"
    "0 < j \<Longrightarrow> j < utf8_char s \<Longrightarrow> \<not> is_ascii (s ! (j - 1))" by simp_all
qed

text \<open>In a valid string a continuation byte neither comes first nor follows an ASCII byte.\<close>

lemma valid_utf8_cont:
  "valid_utf8 s \<Longrightarrow> i < length s \<Longrightarrow> is_cont (s ! i) \<Longrightarrow> 0 < i \<and> \<not> is_ascii (s ! (i - 1))"
proof (induction s arbitrary: i rule: valid_utf8.induct)
  case (1 s)
  let ?n = "utf8_char s"
  from "1.prems" have v: "?n \<noteq> 0" "valid_utf8 (drop ?n s)" "s \<noteq> []"
    by (auto simp: valid_utf8.simps [of s] split: if_splits)
  then have "0 < ?n" by simp
  note b = utf8_char_bytes [OF this]
  show ?case
  proof (cases "i < ?n")
    case True
    with b(2) b(3) [of i] "1.prems"(3) show ?thesis by (cases "i = 0") auto
  next
    case False
    then have "drop ?n s ! (i - ?n) = s ! i" "i - ?n < length (drop ?n s)" using "1.prems"(2) b(1) by auto
    with "1.IH" [OF v(3,1,2), of "i - ?n"] "1.prems"(3) have "0 < i - ?n" "\<not> is_ascii (drop ?n s ! (i - ?n - 1))" by auto
    with False b(1) show ?thesis by (simp add: algebra_simps)
  qed
qed

lemma boundary_after_ascii:
  "valid_utf8 p \<Longrightarrow> 0 < m \<Longrightarrow> m \<le> length p \<Longrightarrow> is_ascii (p ! (m - 1)) \<Longrightarrow> is_char_boundary m p"
  using valid_utf8_cont [of p m] by (cases "m = length p") (auto simp: is_char_boundary_def)

end
