(* ===== verification/Path.thy ===== *)
theory Path
  imports Path_Components Rust_Str
begin

text \<open>
  \<open>fs/path/mod.rs\<close>, \<open>fs/path/ancestors.rs\<close> and \<open>fs/path/pathbuf.rs\<close>: the operations on borrowed and
  on owned paths.  Where the source slices or truncates a \<open>str\<close> it panics inside a multi-byte
  character, so the byte strings here carry the UTF-8 boundaries.  The prefix test loops over two
  iterators and is proved to end.
\<close>

subsection \<open>Borrowed paths\<close>

definition has_root :: "string \<Rightarrow> bool" where
  "has_root p = root (Components_new p)"

definition is_absolute :: "string \<Rightarrow> bool" where
  "is_absolute p = has_root p"

definition is_relative :: "string \<Rightarrow> bool" where
  "is_relative p = (\<not> is_absolute p)"

definition parent :: "profile \<Rightarrow> string \<Rightarrow> string option outcome" where
  "parent pr p =
     obind (Components_next_back pr (Components_new p)) (\<lambda>(cp, comps).
     case cp of
       None \<Rightarrow> Ret None
     | Some RootDir \<Rightarrow> Ret None
     | Some _ \<Rightarrow> obind (as_path pr comps) (\<lambda>q. Ret (Some q)))"

definition file_name :: "profile \<Rightarrow> string \<Rightarrow> string option outcome" where
  "file_name pr p =
     obind (Components_next_back pr (Components_new p)) (\<lambda>(cp, comps).
     case cp of Some (Normal f) \<Rightarrow> Ret (Some f) | _ \<Rightarrow> Ret None)"

definition strip_prefix :: "profile \<Rightarrow> string \<Rightarrow> string \<Rightarrow> (unit, string) result outcome" where
  "strip_prefix pr p base =
     obind (loop_result (iter_after (Components_next pr) (Components_next pr) (Components_new p) (Components_new base))) (\<lambda>c.
     case c of None \<Rightarrow> Ret (Err ()) | Some c \<Rightarrow> obind (as_path pr c) (\<lambda>q. Ret (Ok q)))"

definition starts_with :: "profile \<Rightarrow> string \<Rightarrow> string \<Rightarrow> bool outcome" where
  "starts_with pr p base =
     obind (loop_result (iter_after (Components_next pr) (Components_next pr) (Components_new p) (Components_new base))) (\<lambda>c.
     Ret (c \<noteq> None))"

definition ends_with :: "profile \<Rightarrow> string \<Rightarrow> string \<Rightarrow> bool outcome" where
  "ends_with pr p child =
     obind (loop_result (iter_after (Components_next_back pr) (Components_next_back pr) (Components_new p) (Components_new child))) (\<lambda>c.
     Ret (c \<noteq> None))"

text \<open>\<open>rsplitn(2, '.')\<close> gives what follows the last dot, then what precedes it.\<close>

definition rsplit_file_at_dot :: "string \<Rightarrow> string option \<times> string option" where
  "rsplit_file_at_dot file =
     (if file = ''..'' then (Some file, None)
      else
        (let (after, before) =
           (case rposition (\<lambda>b. b = CHR ''.'') file of
              None \<Rightarrow> (Some file, None)
            | Some i \<Rightarrow> (Some (drop (Suc i) file), Some (take i file)))
         in if before = Some [] then (Some file, None) else (before, after)))"

definition split_file_at_dot :: "string \<Rightarrow> (string \<times> string option) outcome" where
  "split_file_at_dot file =
     (if file = ''..'' then Ret (file, None)
      else
        obind (str_from 1 file) (\<lambda>rest.
        case position (\<lambda>b. b = CHR ''.'') (lead_bytes rest) of
          None \<Rightarrow> Ret (file, None)
        | Some i \<Rightarrow>
            obind (str_to (i + 1) file) (\<lambda>before.
            obind (str_from (i + 1 + 1) file) (\<lambda>after. Ret (before, Some after)))))"

definition file_stem :: "profile \<Rightarrow> string \<Rightarrow> string option outcome" where
  "file_stem pr p =
     obind (file_name pr p) (\<lambda>f.
     Ret (Option.bind (map_option rsplit_file_at_dot f)
       (\<lambda>(before, after). case before of Some b \<Rightarrow> Some b | None \<Rightarrow> after)))"

definition Path_file_prefix :: "profile \<Rightarrow> string \<Rightarrow> string option outcome" where
  "Path_file_prefix pr p =
     obind (file_name pr p) (\<lambda>f.
     case f of
       None \<Rightarrow> Ret None
     | Some f \<Rightarrow> obind (split_file_at_dot f) (\<lambda>(before, after). Ret (Some before)))"

definition extension :: "profile \<Rightarrow> string \<Rightarrow> string option outcome" where
  "extension pr p =
     obind (file_name pr p) (\<lambda>f.
     Ret (Option.bind (map_option rsplit_file_at_dot f)
       (\<lambda>(before, after). case before of Some b \<Rightarrow> after | None \<Rightarrow> None)))"

subsection \<open>Ancestors\<close>

record Ancestors =
  anc_next :: "string option"

definition Ancestors_new :: "string \<Rightarrow> Ancestors" where
  "Ancestors_new p = \<lparr>anc_next = Some p\<rparr>"

definition Ancestors_next :: "profile \<Rightarrow> Ancestors \<Rightarrow> (string option \<times> Ancestors) outcome" where
  "Ancestors_next pr a =
     (let nxt = anc_next a in
      obind (case nxt of None \<Rightarrow> Ret None | Some p \<Rightarrow> parent pr p) (\<lambda>q.
      Ret (nxt, a\<lparr>anc_next := q\<rparr>)))"

subsection \<open>Owned paths\<close>

definition PathBuf_new :: string where
  "PathBuf_new = []"

definition PathBuf_clear :: "string \<Rightarrow> string" where
  "PathBuf_clear buf = []"

definition PathBuf_push :: "string \<Rightarrow> string \<Rightarrow> string" where
  "PathBuf_push buf p =
     (let need_sep = (buf \<noteq> [] \<and> last buf = SEPERATOR);
          buf = (if is_absolute p then []
                 else if has_root p then buf
                 else if need_sep then buf @ [SEPERATOR]
                 else buf)
      in buf @ p)"

definition PathBuf_pop :: "profile \<Rightarrow> string \<Rightarrow> (bool \<times> string) outcome" where
  "PathBuf_pop pr buf =
     obind (parent pr buf) (\<lambda>q.
     case q of
       Some q \<Rightarrow> obind (str_truncate (length q) buf) (\<lambda>buf. Ret (True, buf))
     | None \<Rightarrow> Ret (False, buf))"

definition PathBuf_set_file_name :: "profile \<Rightarrow> string \<Rightarrow> string \<Rightarrow> string outcome" where
  "PathBuf_set_file_name pr buf name =
     obind (file_name pr buf) (\<lambda>f.
     obind (if f \<noteq> None
            then obind (PathBuf_pop pr buf) (\<lambda>(popped, buf). obind (debug_assert pr popped) (\<lambda>_. Ret buf))
            else Ret buf) (\<lambda>buf.
     Ret (PathBuf_push buf name)))"

text \<open>
  Where the file name starts in the buffer: \<open>next_back\<close> leaves the iterator with the bytes before
  the component and before the separator it found.  The source takes this from the address of the
  slice.
\<close>

definition file_name_start :: "profile \<Rightarrow> string \<Rightarrow> nat outcome" where
  "file_name_start pr p =
     obind (Components_next_back pr (Components_new p)) (\<lambda>(cp, comps).
     Ret (length (path comps) + of_bool (length (path comps) < length p \<and> is_sep (p ! length (path comps)))))"

definition PathBuf_set_extension :: "profile \<Rightarrow> string \<Rightarrow> string \<Rightarrow> (bool \<times> string) outcome" where
  "PathBuf_set_extension pr buf ext =
     obind (file_stem pr buf) (\<lambda>stem.
     case stem of
       None \<Rightarrow> Ret (False, buf)
     | Some stem \<Rightarrow>
         obind (file_name_start pr buf) (\<lambda>start.
         obind (str_truncate (start + length stem) buf) (\<lambda>buf.
         Ret (True, if ext \<noteq> [] then buf @ ''.'' @ ext else buf))))"

definition PathBuf_extend :: "string \<Rightarrow> string list \<Rightarrow> string" where
  "PathBuf_extend buf ps = foldl PathBuf_push buf ps"

definition join :: "string \<Rightarrow> string \<Rightarrow> string" where
  "join p q = PathBuf_push p q"

definition with_file_name :: "profile \<Rightarrow> string \<Rightarrow> string \<Rightarrow> string outcome" where
  "with_file_name pr p name = PathBuf_set_file_name pr p name"

definition with_extension :: "profile \<Rightarrow> string \<Rightarrow> string \<Rightarrow> string outcome" where
  "with_extension pr p ext =
     obind (extension pr p) (\<lambda>prev.
     obind (case prev of
              None \<Rightarrow> Ret p
            | Some e \<Rightarrow> str_to (length p - length e) p) (\<lambda>slice.
     obind (PathBuf_set_extension pr (PathBuf_push [] slice) ext) (\<lambda>(_, new_path).
     Ret new_path)))"

subsection \<open>The prefix test\<close>

interpretation fwd: iterator_pair "Components_next pr" Components_inv items "Components_next pr" Components_inv items for pr
  by unfold_locales

interpretation bwd: iterator_pair "Components_next_back pr" Components_inv "\<lambda>c. rev (items c)"
    "Components_next_back pr" Components_inv "\<lambda>c. rev (items c)" for pr
  by unfold_locales

lemma iter_after_paths:
  "\<exists>r. iter_after (Components_next pr) (Components_next pr) (Components_new p) (Components_new q) = Some (Ret r) \<and>
    (if prefix (components q) (components p)
     then \<exists>c. r = Some c \<and> Components_inv c \<and> items c = drop (length (components q)) (components p)
     else r = None)"
  using fwd.iter_after_law [OF Components_inv_new [of p] Components_inv_new [of q], of pr] unfolding items_new .

lemma iter_after_paths_back:
  "\<exists>r. iter_after (Components_next_back pr) (Components_next_back pr) (Components_new p) (Components_new q) = Some (Ret r) \<and>
    (r \<noteq> None \<longleftrightarrow> suffix (components q) (components p))"
  using bwd.iter_after_law [OF Components_inv_new [of p] Components_inv_new [of q], of pr]
  by (auto simp: items_new suffix_to_prefix split: if_splits)

subsection \<open>Parents\<close>

lemma body_no_root: "RootDir \<notin> set (body_comps p)"
  by (auto simp: body_comps_def map_filter_def parse_single_component_def split: if_splits)

lemma RootDir_first: "RootDir \<notin> set (tl (components p))"
  using body_no_root [of p] by (cases "body_comps p") (auto simp: components_def)

lemma last_RootDir: "components p \<noteq> [] \<Longrightarrow> last (components p) = RootDir \<longleftrightarrow> components p = [RootDir]"
  using RootDir_first [of p] by (cases "components p") (auto split: if_splits dest: last_in_set)

lemma absolute_first: "is_absolute p \<longleftrightarrow> components p \<noteq> [] \<and> hd (components p) = RootDir"
  using body_no_root [of p]
  by (cases "body_comps p") (auto simp: is_absolute_def has_root_def Components_new_def components_def)

lemma parent_law:
  "\<exists>r. parent pr p = Ret r \<and>
    (if components p = [] \<or> components p = [RootDir] then r = None
     else \<exists>q. r = Some q \<and> components q = butlast (components p))"
proof -
  obtain c where c: "Components_inv c" "items c = butlast (components p)"
    "Components_next_back pr (Components_new p) =
       Ret (if components p = [] then None else Some (last (components p)), c)"
    using Components_next_back_law [OF Components_inv_new [of p], of pr] by (auto simp: items_new)
  obtain q where q: "as_path pr c = Ret q" "components q = items c" using as_path_law [OF c(1)] by blast
  show ?thesis
  proof (cases "components p = []")
    case True
    with c(3) show ?thesis by (simp add: parent_def)
  next
    case False
    with c q last_RootDir [OF False] show ?thesis
      by (cases "last (components p)") (auto simp: parent_def)
  qed
qed

subsection \<open>Where the last component lies\<close>

lemma parse_back_word:
  assumes "parse_next_component_back pr c = Ret (sz, x)" and "back_st c = Body" and "len_before_body c < length (path c)"
  shows "\<exists>st \<le> length (path c). x = parse_single_component (drop st (path c)) \<and>
    (\<forall>b \<in> set (drop st (path c)). \<not> is_sep b) \<and>
    (st = len_before_body c \<and> length (path c) - sz = st \<or>
     len_before_body c < st \<and> is_sep (path c ! (st - 1)) \<and> length (path c) - sz = st - 1)"
proof (cases "rposition is_sep (drop (len_before_body c) (path c))")
  case None
  with assms show ?thesis
    by (intro exI [of _ "len_before_body c"]) (auto simp: parse_next_component_back_def Let_def rposition_None)
next
  case (Some i)
  from rposition_Some [OF this] have i: "len_before_body c + i < length (path c)" "is_sep (path c ! (len_before_body c + i))"
    "\<forall>x \<in> set (drop (Suc (len_before_body c + i)) (path c)). \<not> is_sep x" by (auto simp: add.commute)
  have "sz = length (drop (Suc (len_before_body c + i)) (path c)) + 1 \<and>
      x = parse_single_component (drop (Suc (len_before_body c + i)) (path c))"
    using assms Some i(1) by (auto simp: parse_next_component_back_def Let_def)
  with i show ?thesis by (intro exI [of _ "Suc (len_before_body c + i)"]) auto
qed

lemma next_back_start:
  assumes "Components_inv c" and "front c = StartDir" and "back_st c = StartDir"
  shows "Components_next_back pr c =
    Ret (if head_comps c = [] then None else Some (last (head_comps c)), c\<lparr>back_st := Done, path := []\<rparr>)"
proof -
  from assms have st: "length (path c) = length (head_comps c)" "root c = has_physical_root (path c)"
    by (auto simp: Components_inv_def)
  let ?c = "c\<lparr>back_st := Done\<rparr>"
  show ?thesis using assms st
    by (auto simp: Components_next_back.simps [of pr c] Components_next_back.simps [of pr ?c] head_comps_def Suc_le_eq)
qed

text \<open>The file name \<open>f\<close> lies in \<open>p\<close> behind the first \<open>n\<close> bytes and a separator, if one follows them.\<close>

definition name_start :: "string \<Rightarrow> nat \<Rightarrow> nat" where
  "name_start p n = n + of_bool (n < length p \<and> is_sep (p ! n))"

definition name_at :: "string \<Rightarrow> nat \<Rightarrow> string \<Rightarrow> bool" where
  "name_at p n f \<longleftrightarrow> name_start p n + length f \<le> length p \<and> take (length f) (drop (name_start p n) p) = f \<and>
     (name_start p n + length f = length p \<or> is_sep (p ! (name_start p n + length f))) \<and>
     (\<forall>b \<in> set f. \<not> is_sep b) \<and> parse_single_component f = Some (Normal f)"

lemma name_at_take:
  assumes "name_at (take k p) n f" and "k \<le> length p" and "k = n \<or> k = length p \<or> is_sep (p ! k)"
  shows "name_at p n f"
proof -
  have f: "f \<noteq> []" using assms(1) by (auto simp: name_at_def parse_single_component_def)
  have "n \<le> name_start (take k p) n" by (simp add: name_start_def)
  moreover have "name_start (take k p) n + length f \<le> k" "0 < length f"
    using assms(1,2) f by (auto simp: name_at_def)
  ultimately have n: "n < k" by linarith
  have st: "name_start (take k p) n = name_start p n" using n assms(2) by (simp add: name_start_def)
  have le: "name_start p n + length f \<le> k" using assms(1,2) st by (simp add: name_at_def)
  have "take (length f) (drop (name_start p n) (take k p)) = take (length f) (drop (name_start p n) p)"
    using le by (simp add: drop_take)
  moreover have "name_start p n + length f = length p \<or> is_sep (p ! (name_start p n + length f))"
    using assms n st le by (cases "name_start p n + length f = k") (auto simp: name_at_def)
  ultimately show ?thesis using assms(1,2) st le by (simp add: name_at_def)
qed

lemma name_at_word:
  assumes "st \<le> length p" and "parse_single_component (drop st p) = Some (Normal f)" and "\<forall>b \<in> set (drop st p). \<not> is_sep b"
    and "st = n \<or> st = Suc n \<and> is_sep (p ! n)"
  shows "name_at p n f"
proof -
  have f: "f = drop st p" "st < length p"
    using assms(1,2) by (auto simp: parse_single_component_def split: if_splits)
  have "p ! st \<in> set (drop st p)" using f(2) by (metis Cons_nth_drop_Suc list.set_intros(1))
  then have "\<not> is_sep (p ! st)" using assms(3) by blast
  then have "name_start p n = st" using assms(4) f(2) by (auto simp: name_start_def)
  with assms f show ?thesis by (simp add: name_at_def)
qed

lemma next_back_cut:
  assumes "Components_inv c" and "front c = StartDir" and "back_st c = Body" and "Components_next_back pr c = Ret (x, c')"
  shows "\<exists>n \<le> length (path c). path c' = take n (path c) \<and> front c' = StartDir \<and>
    (back_st c' = Body \<and> len_before_body c' = len_before_body c \<and> len_before_body c \<le> n \<and> (n = len_before_body c \<or> is_sep (path c ! n)) \<or>
     back_st c' = Done \<and> n = 0) \<and>
    (\<forall>f. x = Some (Normal f) \<longrightarrow> back_st c' = Body \<and> name_at (path c) n f)"
  using assms
proof (induction pr c rule: Components_next_back.induct)
  case (1 pr c)
  have nf: "\<not> finished c" using "1.prems" by simp
  show ?case
  proof (cases "len_before_body c < length (path c)")
    case True
    obtain w sz where w: "parse_next_component_back pr c = Ret (sz, parse_single_component w)" "sz \<le> length (path c)"
      and sep: "length (path c) - sz = len_before_body c \<or> is_sep (path c ! (length (path c) - sz))"
      and inv: "Components_inv (c\<lparr>path := take (length (path c) - sz) (path c)\<rparr>)"
        "len_before_body (c\<lparr>path := take (length (path c) - sz) (path c)\<rparr>) = len_before_body c"
      by (rule cut_law [OF "1.prems"(1) nf "1.prems"(3) True])
    define k where "k = length (path c) - sz"
    define d where "d = c\<lparr>path := take k (path c)\<rparr>"
    have k: "k \<le> length (path c)" "k = len_before_body c \<or> is_sep (path c ! k)" "len_before_body c \<le> k"
      using sep parse_next_back_size(2) [OF w(1) True] True by (auto simp: k_def)
    have d: "path d = take k (path c)" "front d = StartDir" "back_st d = Body" "Components_inv d" "len_before_body d = len_before_body c"
      using "1.prems" inv by (simp_all add: d_def k_def)
    show ?thesis
    proof (cases "parse_single_component w")
      case None
      have "Components_next_back pr d = Ret (x, c')"
        using "1.prems" nf True w None by (simp add: Components_next_back.simps [of pr c] d_def k_def)
      moreover have "slice_cut sz (path c) = Ret (take k (path c))" using w(2) by (simp add: k_def)
      ultimately obtain n where n: "n \<le> k" "path c' = take n (take k (path c))" "front c' = StartDir"
        "back_st c' = Body \<and> len_before_body c' = len_before_body c \<and> len_before_body c \<le> n \<and> (n = len_before_body c \<or> is_sep (take k (path c) ! n)) \<or>
         back_st c' = Done \<and> n = 0"
        "\<forall>f. x = Some (Normal f) \<longrightarrow> back_st c' = Body \<and> name_at (take k (path c)) n f"
        using "1.IH"(2) [OF nf "1.prems"(3) True w(1) refl, folded d_def] None d k(1) by (auto simp del: take_take simp: d_def)
      have tk: "take n (take k (path c)) = take n (path c)" using n(1) by (simp add: min_def)
      have sp: "n = len_before_body c \<or> is_sep (path c ! n)" if "n = len_before_body c \<or> is_sep (take k (path c) ! n)"
        using that n(1) k(2) by (cases "n < k") auto
      have "name_at (path c) n f" if "name_at (take k (path c)) n f" "len_before_body c \<le> n" for f
        using that(2) k n(1) by (intro name_at_take [OF that(1)]) auto
      with n sp k(1) show ?thesis unfolding tk by (intro exI [of _ n]) auto
    next
      case (Some y)
      have x: "x = Some y" "c' = d"
        using "1.prems" nf True w Some by (simp_all add: Components_next_back.simps [of pr c] d_def k_def)
      obtain st where st: "st \<le> length (path c)" "parse_single_component w = parse_single_component (drop st (path c))"
        "\<forall>b \<in> set (drop st (path c)). \<not> is_sep b" "st = k \<or> st = Suc k \<and> is_sep (path c ! k)"
        using parse_back_word [OF w(1) "1.prems"(3) True] by (auto simp: k_def)
      have "name_at (path c) k f" if "y = Normal f" for f
        using that st Some by (intro name_at_word [of st]) simp_all
      with x d k show ?thesis by (intro exI [of _ k]) auto
    qed
  next
    case False
    let ?c = "c\<lparr>back_st := StartDir\<rparr>"
    have "Components_inv ?c"
      using False "1.prems" head_comps_length [of c] by (auto simp: Components_inv_def)
    moreover have "Components_next_back pr c = Components_next_back pr ?c"
      using nf "1.prems"(3) False by (simp add: Components_next_back.simps [of pr c])
    ultimately have "x = (if head_comps c = [] then None else Some (last (head_comps c)))" "c' = ?c\<lparr>back_st := Done, path := []\<rparr>"
      using next_back_start [of ?c pr] "1.prems" by auto
    then show ?thesis using "1.prems"(2) by (auto simp: head_comps_def split: if_splits)
  qed
qed

lemma components_sep: "is_sep b \<Longrightarrow> components (u @ b # w) = components (u @ [b]) @ body_comps w"
proof -
  assume b: "is_sep b"
  have "hd (split_sep (u @ b # w)) = hd (split_sep (u @ [b]))"
    using split_sep_not_Nil [of u] by (simp add: split_sep_append [OF b])
  moreover have "has_physical_root (u @ b # w) = has_physical_root (u @ [b])"
    by (cases u) (simp_all add: has_physical_root_def)
  ultimately show ?thesis by (simp add: components_def body_comps_append [OF b])
qed

lemma components_end_sep: "is_sep b \<Longrightarrow> u \<noteq> [] \<Longrightarrow> components (u @ [b]) = components u"
proof -
  assume b: "is_sep b" and u: "u \<noteq> []"
  have "hd (split_sep (u @ [b])) = hd (split_sep u)"
    using split_sep_not_Nil [of u] by (simp add: split_sep_append [OF b])
  moreover have "has_physical_root (u @ [b]) = has_physical_root u"
    using u by (simp add: has_physical_root_def)
  ultimately show ?thesis using body_comps_append [OF b, of u "[]"] by (simp add: components_def)
qed

lemma components_word:
  assumes "\<forall>b \<in> set w. \<not> is_sep b" and "parse_single_component w = Some (Normal w)"
  shows "components w = [Normal w]"
proof -
  have "w \<noteq> []" "w \<noteq> ''.''" using assms(2) by (auto simp: parse_single_component_def)
  moreover from this have "\<not> has_physical_root w" using assms(1) by (cases w) (auto simp: has_physical_root_def is_sep_def)
  ultimately show ?thesis using assms by (simp add: components_def body_comps_word split_sep_word)
qed

text \<open>Writing another name at the end of a directory prefix.\<close>

lemma components_name:
  assumes "st \<le> length p" and "st = 0 \<or> is_sep (p ! (st - 1))"
    and "\<forall>b \<in> set w. \<not> is_sep b" and "parse_single_component w = Some (Normal w)"
  shows "components (take st p @ w) = components (take st p) @ [Normal w]"
proof (cases st)
  case 0
  with assms components_word show ?thesis by (simp add: components_def has_physical_root_def)
next
  case (Suc n)
  then have "take st p = take n p @ [p ! n]" "is_sep (p ! n)" using assms(1,2) by (simp_all add: take_Suc_conv_app_nth)
  with components_sep [of "p ! n" "take n p" w] assms(3,4) show ?thesis by (simp add: body_comps_word)
qed

lemma file_name_law:
  "file_name pr p = Ret (if components p = [] then None
     else case last (components p) of Normal f \<Rightarrow> Some f | _ \<Rightarrow> None)"
  using Components_next_back_law [OF Components_inv_new [of p], of pr]
  by (auto simp: items_new file_name_def split: Component.splits)

lemma new_front_back [simp]: "front (Components_new p) = StartDir" "back_st (Components_new p) = Body"
  by (simp_all add: Components_new_def)

text \<open>An iterator that has only been used from the back is a fresh one over a shorter path.\<close>

lemma back_is_new: "Components_inv c \<Longrightarrow> front c = StartDir \<Longrightarrow> back_st c = Body \<Longrightarrow> c = Components_new (path c)"
  by (simp add: Components_inv_def Components_new_def)

lemma file_name_at:
  assumes "file_name pr p = Ret (Some f)"
  obtains n where "file_name_start pr p = Ret (name_start p n)" "name_at p n f"
    "name_start p n = 0 \<or> is_sep (p ! (name_start p n - 1))"
    "components (take (name_start p n) p) = butlast (components p)"
proof -
  obtain c where c: "Components_inv c" "items c = butlast (components p)"
    "Components_next_back pr (Components_new p) =
       Ret (if components p = [] then None else Some (last (components p)), c)"
    using Components_next_back_law [OF Components_inv_new [of p], of pr] by (auto simp: items_new)
  have ne: "components p \<noteq> []" and last: "last (components p) = Normal f"
    using assms by (auto simp: file_name_law split: if_splits Component.splits)
  with c(3) have nb: "Components_next_back pr (Components_new p) = Ret (Some (Normal f), c)" by simp
  obtain n where n: "n \<le> length p" "path c = take n p" "front c = StartDir" "back_st c = Body"
    "n = length (head_comps (Components_new p)) \<or> is_sep (p ! n)" "name_at p n f"
    "length (head_comps (Components_new p)) \<le> n"
    using next_back_cut [OF Components_inv_new _ _ nb] by auto
  have start: "file_name_start pr p = Ret (name_start p n)"
    using nb n(1,2) by (simp add: file_name_start_def name_start_def)
  have cn: "components (take n p) = butlast (components p)"
    using back_is_new [OF c(1) n(3,4)] c(2) n(2) items_new [of "take n p"] by simp
  have f: "f \<noteq> []" using n(6) by (auto simp: name_at_def parse_single_component_def)
  show thesis
  proof (cases "n < length p \<and> is_sep (p ! n)")
    case True
    then have ns: "name_start p n = Suc n" "take (Suc n) p = take n p @ [p ! n]"
      by (simp_all add: name_start_def take_Suc_conv_app_nth)
    have "0 < n"
    proof (rule ccontr)
      assume "\<not> 0 < n"
      with True have "has_physical_root p" by (cases p) (auto simp: has_physical_root_def is_sep_def)
      with n(7) \<open>\<not> 0 < n\<close> show False by (simp add: head_comps_def Components_new_def)
    qed
    then have "components (take (Suc n) p) = components (take n p)"
      unfolding ns(2) using True by (intro components_end_sep) auto
    with start n(6) True ns(1) cn show thesis by (intro that [of n]) simp_all
  next
    case False
    then have ns: "name_start p n = n" by (simp add: name_start_def)
    have lt: "n < length p" using n(6) f by (cases f) (auto simp: name_at_def ns)
    with False n(5) have hd: "n = length (head_comps (Components_new p))" by blast
    have "n = 0 \<or> is_sep (p ! (n - 1))"
    proof (cases "include_cur_dir (Components_new p)")
      case True
      then show ?thesis using hd lt False
        by (cases p; cases "tl p") (auto simp: head_comps_def include_cur_dir_iff Components_new_def)
    next
      case False
      then have "head_comps (Components_new p) = (if has_physical_root p then [RootDir] else [])"
        unfolding head_comps_def by (simp, simp add: Components_new_def)
      with hd show ?thesis by (cases p) (auto simp: has_physical_root_def is_sep_def)
    qed
    with start n(6) ns cn show thesis by (intro that [of n]) simp_all
  qed
qed

subsection \<open>Stems and extensions\<close>

lemma rsplit_law:
  assumes "f \<noteq> []" and "f \<noteq> ''..''"
  obtains st where "fst (rsplit_file_at_dot f) = Some st \<or> fst (rsplit_file_at_dot f) = None \<and> snd (rsplit_file_at_dot f) = Some st"
    "st \<noteq> []" "prefix st f" "st = f \<or> f ! length st = CHR ''.''"
proof (cases "rposition (\<lambda>b. b = CHR ''.'') f")
  case None
  with assms show thesis by (intro that [of f]) (simp_all add: rsplit_file_at_dot_def)
next
  case (Some i)
  note i = rposition_Some [OF Some]
  show thesis
  proof (cases "i = 0")
    case True
    with Some assms show thesis by (intro that [of f]) (simp_all add: rsplit_file_at_dot_def)
  next
    case False
    with Some assms i show thesis
      by (intro that [of "take i f"]) (auto simp: rsplit_file_at_dot_def take_is_prefix)
  qed
qed

lemma position_first: "P x \<Longrightarrow> \<forall>y \<in> set ys. \<not> P y \<Longrightarrow> position P (ys @ x # zs) = Some (length ys)"
  by (induction ys) auto

lemma rposition_last:
  assumes "P x" and "\<forall>y \<in> set ys. \<not> P y"
  shows "rposition P (xs @ x # ys) = Some (length xs)"
  using position_first [of P x "rev ys" "rev xs"] assms by (simp add: rposition_def)

lemma rsplit_stem_ext:
  assumes "st \<noteq> []" and "ext \<noteq> []" and "CHR ''.'' \<notin> set ext"
  shows "rsplit_file_at_dot (st @ CHR ''.'' # ext) = (Some st, Some ext)"
proof -
  have "rposition (\<lambda>b. b = CHR ''.'') (st @ CHR ''.'' # ext) = Some (length st)"
    using assms(3) by (intro rposition_last) auto
  moreover have "length (st @ CHR ''.'' # ext) \<noteq> length (''..'')" using assms(1,2) by (cases st; cases ext) auto
  then have "st @ CHR ''.'' # ext \<noteq> ''..''" by metis
  ultimately show ?thesis using assms(1) by (simp add: rsplit_file_at_dot_def)
qed

lemma name_with_ext:
  assumes "st \<noteq> []" and "ext \<noteq> []"
  shows "parse_single_component (st @ CHR ''.'' # ext) = Some (Normal (st @ CHR ''.'' # ext))"
  using assms by (cases st; cases "tl st"; cases ext) (auto simp: parse_single_component_def)

lemma set_extension_law:
  assumes "file_name pr p = Ret (Some f)"
  obtains stem k where "file_stem pr p = Ret (Some stem)" "stem \<noteq> []" "\<forall>b \<in> set stem. \<not> is_sep b"
    "PathBuf_set_extension pr p ext = Ret (True, take k p @ stem @ (if ext = [] then [] else CHR ''.'' # ext))"
    "k \<le> length p" "k = 0 \<or> is_sep (p ! (k - 1))" "components (take k p) = butlast (components p)"
proof -
  obtain n where n: "file_name_start pr p = Ret (name_start p n)" "name_at p n f"
    "name_start p n = 0 \<or> is_sep (p ! (name_start p n - 1))"
    "components (take (name_start p n) p) = butlast (components p)"
    by (rule file_name_at [OF assms])
  define k where "k = name_start p n"
  have f: "f \<noteq> []" "f \<noteq> ''..''" "\<forall>b \<in> set f. \<not> is_sep b" "k + length f \<le> length p" "take (length f) (drop k p) = f"
    "k + length f = length p \<or> is_sep (p ! (k + length f))"
    using n(2) by (auto simp: name_at_def parse_single_component_def k_def)
  obtain stem where stem: "fst (rsplit_file_at_dot f) = Some stem \<or> fst (rsplit_file_at_dot f) = None \<and> snd (rsplit_file_at_dot f) = Some stem"
    "stem \<noteq> []" "prefix stem f" "stem = f \<or> f ! length stem = CHR ''.''"
    by (rule rsplit_law [OF f(1,2)])
  have fs: "file_stem pr p = Ret (Some stem)"
    using stem(1) assms by (cases "rsplit_file_at_dot f") (auto simp: file_stem_def)
  have len: "length stem \<le> length f" using stem(3) by (rule prefix_length_le)
  have tk: "take (k + length stem) p = take k p @ stem"
  proof -
    have "take (length stem) (drop k p) = take (length stem) (take (length f) (drop k p))" using len by (simp add: min_def)
    also have "\<dots> = stem" using stem(3) unfolding f(5) by (auto elim: prefixE)
    finally show ?thesis by (simp add: take_add)
  qed
  have "is_char_boundary (k + length stem) p"
  proof (cases "stem = f")
    case True
    with f(4,6) show ?thesis by (auto simp: is_char_boundary_def is_cont_def is_sep_def SEPERATOR_def)
  next
    case False
    with stem(3) have "length stem < length f" by (auto elim!: prefixE)
    then have "p ! (k + length stem) = take (length f) (drop k p) ! length stem" using f(4) by simp
    then have "p ! (k + length stem) = f ! length stem" unfolding f(5) .
    with False stem(4) f(4) \<open>length stem < length f\<close> show ?thesis by (simp add: is_char_boundary_def is_cont_def)
  qed
  then have "PathBuf_set_extension pr p ext = Ret (True, take k p @ stem @ (if ext = [] then [] else CHR ''.'' # ext))"
    using fs n(1) len f(4) tk by (simp add: PathBuf_set_extension_def k_def str_truncate_def)
  moreover have "\<forall>b \<in> set stem. \<not> is_sep b" using f(3) set_mono_prefix [OF stem(3)] by blast
  ultimately show thesis using fs stem(2) n(3,4) f(4) by (intro that [of stem k]) (simp_all add: k_def)
qed

subsection \<open>Popping a component\<close>

lemma parent_cut:
  assumes "parent pr p = Ret (Some q)"
  shows "\<exists>m \<le> length p. q = take m p \<and>
    (m = 0 \<or> m = length p \<or> is_sep (p ! m) \<or> m = length (head_comps (Components_new p)))"
proof -
  obtain x c where nb: "Components_next_back pr (Components_new p) = Ret (x, c)"
    using Components_next_back_law [OF Components_inv_new] by blast
  have q: "as_path pr c = Ret q"
  proof (cases x)
    case (Some y)
    with assms nb show ?thesis by (cases y) (auto simp: parent_def outcome_simps)
  qed (use assms nb in \<open>simp add: parent_def\<close>)
  have inv: "Components_inv c" using Components_next_back_law [OF Components_inv_new [of p], of pr] nb by auto
  let ?h = "length (head_comps (Components_new p))"
  obtain n where n: "n \<le> length p" "path c = take n p" "front c = StartDir"
    "back_st c = Body \<and> length (head_comps c) = ?h \<and> (n = ?h \<or> is_sep (p ! n)) \<or> back_st c = Done \<and> n = 0"
    using next_back_cut [OF Components_inv_new _ _ nb] by auto
  show ?thesis
  proof (cases "back_st c = Body")
    case True
    obtain m where t: "m \<le> length (path c)" "trim_right pr c = Ret (c\<lparr>path := take m (path c)\<rparr>)"
      "m = len_before_body c \<or> m = length (path c) \<or> is_sep (path c ! m)"
      using trim_right_law [OF inv True, of pr] by blast
    then have m: "m \<le> n" "trim_right pr c = Ret (c\<lparr>path := take m (take n p)\<rparr>)"
      "m = ?h \<or> m = n \<or> is_sep (take n p ! m)" using n True by (auto simp: min_def split: if_splits)
    have "q = take m p" using q m(1,2) n(3) True by (simp add: as_path_def min_def)
    moreover have "m = ?h \<or> is_sep (p ! m)" using m(1,3) n(4) True by (cases "m = n") auto
    ultimately show ?thesis using m(1) n(1) by (intro exI [of _ m]) auto
  next
    case False
    with n q show ?thesis by (intro exI [of _ 0]) (simp add: as_path_def)
  qed
qed

lemma head_ascii:
  assumes "0 < length (head_comps (Components_new p))"
  shows "length (head_comps (Components_new p)) = 1" and "is_ascii (p ! 0)"
proof -
  show "length (head_comps (Components_new p)) = 1" using assms by (auto simp: head_comps_def split: if_splits)
  show "is_ascii (p ! 0)"
    using assms by (cases p)
      (auto simp: head_comps_def Components_new_def has_physical_root_def include_cur_dir_iff is_ascii_def SEPERATOR_def
        split: if_splits)
qed

lemma pop_law:
  assumes "valid_utf8 p"
  shows "PathBuf_pop pr p = obind (parent pr p) (\<lambda>q. Ret (case q of None \<Rightarrow> (False, p) | Some q \<Rightarrow> (True, q)))"
proof -
  obtain r where r: "parent pr p = Ret r" using parent_law [of pr p] by blast
  show ?thesis
  proof (cases r)
    case (Some q)
    obtain m where m: "m \<le> length p" "q = take m p"
      "m = 0 \<or> m = length p \<or> is_sep (p ! m) \<or> m = length (head_comps (Components_new p))"
      using parent_cut r Some by blast
    have "is_char_boundary m p"
    proof (cases "m = 0 \<or> m = length p \<or> is_sep (p ! m)")
      case True
      with m(1) show ?thesis by (auto simp: is_char_boundary_def is_cont_def is_sep_def SEPERATOR_def)
    next
      case False
      with m(3) head_ascii [of p] have "m = 1" "is_ascii (p ! 0)" by auto
      with boundary_after_ascii [OF assms, of m] m(1) show ?thesis by simp
    qed
    with r Some m show ?thesis by (simp add: PathBuf_pop_def str_truncate_def min_def)
  qed (simp add: r PathBuf_pop_def)
qed

subsection \<open>Ancestors\<close>

text \<open>The \<open>n\<close>-th answer of the iterator.\<close>

fun ancestor :: "profile \<Rightarrow> nat \<Rightarrow> Ancestors \<Rightarrow> string option outcome" where
  "ancestor pr 0 a = obind (Ancestors_next pr a) (\<lambda>(q, a). Ret q)"
| "ancestor pr (Suc n) a = obind (Ancestors_next pr a) (\<lambda>(q, a). ancestor pr n a)"

definition depth :: "string \<Rightarrow> nat" where
  "depth p = length (components p) - of_bool (is_absolute p)"

lemma ancestor_None: "ancestor pr n \<lparr>anc_next = None\<rparr> = Ret None"
  by (induction n) (simp_all add: Ancestors_next_def Let_def)

lemma ancestor_law:
  "\<exists>r. ancestor pr n (Ancestors_new p) = Ret r \<and>
    (if n \<le> depth p then \<exists>q. r = Some q \<and> components q = take (length (components p) - n) (components p) else r = None)"
proof (induction n arbitrary: p)
  case 0
  obtain r where "parent pr p = Ret r" using parent_law [of pr p] by blast
  then show ?case by (simp add: Ancestors_next_def Ancestors_new_def)
next
  case (Suc n)
  obtain r where r: "parent pr p = Ret r"
    "if components p = [] \<or> components p = [RootDir] then r = None else \<exists>q. r = Some q \<and> components q = butlast (components p)"
    using parent_law [of pr p] by blast
  show ?case
  proof (cases "components p = [] \<or> components p = [RootDir]")
    case True
    then have "depth p = 0" by (auto simp: depth_def absolute_first)
    with r True show ?thesis by (simp add: Ancestors_next_def Ancestors_new_def ancestor_None)
  next
    case False
    then obtain q where q: "r = Some q" "components q = butlast (components p)" using r(2) by auto
    have len: "1 < length (components p) \<or> \<not> is_absolute p"
      using False by (cases "components p"; cases "tl (components p)") (auto simp: absolute_first)
    have "is_absolute q = is_absolute p"
      using q(2) False by (cases "components p"; cases "tl (components p)") (auto simp: absolute_first)
    with q(2) len False have d: "depth p = Suc (depth q)" by (cases "components p") (auto simp: depth_def)
    have "ancestor pr (Suc n) (Ancestors_new p) = ancestor pr n (Ancestors_new q)"
      using r(1) q(1) by (simp add: Ancestors_next_def Ancestors_new_def)
    moreover have "take (length (components q) - n) (components q) = take (length (components p) - Suc n) (components p)"
      using q(2) by (simp add: take_butlast butlast_conv_take min_def)
    ultimately show ?thesis using Suc [of q] d by auto
  qed
qed

subsection \<open>Joining\<close>

lemma body_comps_filter: "\<not> is_absolute p \<Longrightarrow> body_comps p = filter (\<lambda>c. c \<noteq> CurDir) (components p)"
proof -
  assume "\<not> is_absolute p"
  moreover have "CurDir \<notin> set (body_comps p)"
    by (auto simp: body_comps_def map_filter_def parse_single_component_def split: if_splits)
  then have "filter (\<lambda>c. c \<noteq> CurDir) (body_comps p) = body_comps p" by (auto simp: filter_id_conv)
  ultimately show ?thesis by (auto simp: is_absolute_def has_root_def Components_new_def components_def)
qed

lemma push_no_sep: "buf = [] \<or> last buf \<noteq> SEPERATOR \<Longrightarrow> \<not> has_physical_root f \<Longrightarrow> PathBuf_push buf f = buf @ f"
  by (auto simp: PathBuf_push_def Let_def is_absolute_def has_root_def Components_new_def)

lemma name_no_root: "\<forall>b \<in> set f. \<not> is_sep b \<Longrightarrow> \<not> has_physical_root f"
  by (cases f) (auto simp: has_physical_root_def is_sep_def)

lemma push_behind_sep:
  assumes "buf \<noteq> []" and "last buf = SEPERATOR" and "\<not> is_absolute p"
  shows "PathBuf_push buf p = buf @ SEPERATOR # p"
    and "components (buf @ SEPERATOR # p) = components buf @ filter (\<lambda>c. c \<noteq> CurDir) (components p)"
proof -
  show "PathBuf_push buf p = buf @ SEPERATOR # p"
    using assms by (simp add: PathBuf_push_def Let_def is_absolute_def)
  have "is_sep SEPERATOR" by (simp add: is_sep_def)
  with components_sep [of SEPERATOR buf p] components_end_sep [of SEPERATOR buf] assms(1) body_comps_filter [OF assms(3)]
  show "components (buf @ SEPERATOR # p) = components buf @ filter (\<lambda>c. c \<noteq> CurDir) (components p)" by simp
qed

subsection \<open>Prefixes of file names\<close>

lemma file_name_not_dots: "file_name pr p = Ret (Some f) \<Longrightarrow> f \<noteq> ''..''"
  by (erule file_name_at) (auto simp: name_at_def parse_single_component_def)

lemma file_prefix_ascii:
  assumes "file_name pr p = Ret (Some (b # f))" and "list_all is_ascii (b # f)"
  shows "Path_file_prefix pr p = Ret (Some (b # takeWhile (\<lambda>x. x \<noteq> CHR ''.'') f))"
proof -
  note na = file_name_not_dots [OF assms(1)]
  have nc: "\<forall>x \<in> set (b # f). \<not> is_cont x" using assms(2) by (auto simp: list_all_iff is_ascii_def is_cont_def)
  then have lead: "lead_bytes f = f" by (simp add: lead_bytes_def)
  have bd: "is_char_boundary i (b # f)" if "i \<le> length (b # f)" for i
    using that nc by (cases "i = length (b # f)") (auto simp: is_char_boundary_def)
  show ?thesis
  proof (cases "position (\<lambda>b. b = CHR ''.'') f")
    case None
    then have "takeWhile (\<lambda>x. x \<noteq> CHR ''.'') f = f" unfolding position_None by (simp add: takeWhile_eq_all_conv)
    note tw = this [symmetric]
    from tw None lead na bd [of 1] assms(1) show ?thesis
      by (simp add: Path_file_prefix_def split_file_at_dot_def str_from_def)
  next
    case (Some i)
    then have i: "i < length f" "takeWhile (\<lambda>x. x \<noteq> CHR ''.'') f = take i f"
      using position_Some [OF Some] position_takeWhile [OF Some] by auto
    with Some lead na bd [of 1] bd [of "Suc i"] bd [of "Suc (Suc i)"] assms(1) show ?thesis
      by (auto simp: Path_file_prefix_def split_file_at_dot_def str_from_def str_to_def)
  qed
qed

subsection \<open>Properties\<close>

text \<open>
  C17: \<open>parent\<close> returns for every path: nothing for the empty path and the root, otherwise a path with all
  components but the last.
\<close>

theorem parent_drops_last:
  "\<exists>r. parent pr p = Ret r \<and>
    (if components p = [] \<or> components p = [RootDir] then r = None
     else \<exists>q. r = Some q \<and> components q = butlast (components p))"
  by (rule parent_law)

text \<open>
  C18: The ancestors of a path are its prefixes, longest first, down to the root or to the empty path, and
  then the iterator stays finished.
\<close>

theorem ancestors_are_prefixes:
  "\<exists>r. ancestor pr n (Ancestors_new p) = Ret r \<and>
    (if n \<le> depth p then \<exists>q. r = Some q \<and> components q = take (length (components p) - n) (components p) else r = None)"
  by (rule ancestor_law)

text \<open>
  C19: \<open>strip_prefix\<close> always returns.  It succeeds exactly when the components of the base are a prefix of
  those of the path, and then the result has the remaining components.
\<close>

theorem strip_prefix_correct:
  "\<exists>r. strip_prefix pr p base = Ret r \<and>
    (case r of Ok q \<Rightarrow> components p = components base @ components q
             | Err e \<Rightarrow> \<not> prefix (components base) (components p))"
proof -
  obtain r where r: "iter_after (Components_next pr) (Components_next pr) (Components_new p) (Components_new base) = Some (Ret r)"
    "if prefix (components base) (components p)
     then \<exists>c. r = Some c \<and> Components_inv c \<and> items c = drop (length (components base)) (components p)
     else r = None" using iter_after_paths by blast
  show ?thesis
  proof (cases "prefix (components base) (components p)")
    case True
    then obtain c where c: "r = Some c" "Components_inv c" "items c = drop (length (components base)) (components p)"
      using r(2) by auto
    obtain q where q: "as_path pr c = Ret q" "components q = items c" using as_path_law [OF c(2)] by blast
    from True c(3) q(2) have "components p = components base @ components q" by (auto elim: prefixE)
    then show ?thesis using r(1) c(1) q(1) by (simp add: strip_prefix_def)
  next
    case False
    with r show ?thesis by (simp add: strip_prefix_def)
  qed
qed

text \<open>
  C20: \<open>starts_with\<close> and \<open>ends_with\<close> always return, and decide the prefix and the suffix order on components.
\<close>

theorem starts_ends_with_correct:
  "starts_with pr p q = Ret (prefix (components q) (components p))
   \<and> ends_with pr p q = Ret (suffix (components q) (components p))"
proof
  show "starts_with pr p q = Ret (prefix (components q) (components p))"
    using iter_after_paths [of pr p q] by (auto simp: starts_with_def split: if_splits)
  show "ends_with pr p q = Ret (suffix (components q) (components p))"
    using iter_after_paths_back [of pr p q] by (auto simp: ends_with_def)
qed

text \<open>
  \<open>pop\<close> never truncates inside a character: it returns for every valid string, leaves the parent in
  the buffer and reports whether there was one.
\<close>

theorem pop_truncates_to_parent:
  assumes "valid_utf8 p"
  shows "PathBuf_pop pr p = obind (parent pr p) (\<lambda>q. Ret (case q of None \<Rightarrow> (False, p) | Some q \<Rightarrow> (True, q)))"
  using assms by (rule pop_law)

theorem pop_truncates_to_parent_witness:
  "valid_utf8 ''/a/b//'' \<and> PathBuf_pop Dev ''/a/b//'' = Ret (True, ''/a'')"
proof -
  have u: "valid_utf8 ''/a/b//''" by code_simp
  have "parent Dev ''/a/b//'' = Ret (Some ''/a'')" by code_simp
  with pop_truncates_to_parent [OF u, of Dev] u show ?thesis by simp
qed



text \<open>
  Pushing an absolute path replaces the buffer; pushing a relative one onto the empty buffer or onto
  one that ends in a separator appends its components.
\<close>

theorem push_appends_components:
  assumes "is_absolute p \<or> buf = [] \<or> last buf = SEPERATOR"
  shows "components (PathBuf_push buf p) =
    (if is_absolute p \<or> buf = [] then components p
     else components buf @ filter (\<lambda>c. c \<noteq> CurDir) (components p))"
  using assms push_behind_sep [of buf p] by (auto simp: PathBuf_push_def Let_def is_absolute_def)

theorem push_appends_components_witness:
  "components (PathBuf_push ''/usr/'' ''./lib'') = [RootDir, Normal ''usr'', Normal ''lib'']"
proof -
  have h: "last ''/usr/'' = SEPERATOR" "\<not> is_absolute ''./lib''" by code_simp+
  have "components ''/usr/'' = [RootDir, Normal ''usr'']" "components ''./lib'' = [CurDir, Normal ''lib'']" by code_simp+
  with push_appends_components [of "''./lib''" "''/usr/''"] h show ?thesis by simp
qed

text \<open>
  C22: The test for the separator is the wrong way round: a name pushed onto a buffer that ends in a name
  is glued to it, so the result has one component where it should have two.
\<close>

theorem push_glues_names:
  assumes "dir = [] \<or> last dir = SEPERATOR" and "\<forall>b \<in> set (u @ f). \<not> is_sep b"
    and "parse_single_component u = Some (Normal u)" and "f \<noteq> []"
  shows "components (PathBuf_push (dir @ u) f) = components dir @ [Normal (u @ f)]"
proof -
  have u: "u \<noteq> []" "u \<noteq> ''.''" using assms(3) by (auto simp: parse_single_component_def)
  then have "last (dir @ u) \<in> set (u @ f)" by simp
  then have "last (dir @ u) \<noteq> SEPERATOR" using assms(2) by (auto simp: is_sep_def)
  then have p: "PathBuf_push (dir @ u) f = take (length dir) dir @ (u @ f)"
    using assms(2) by (simp add: push_no_sep name_no_root)
  have "u @ f \<noteq> ''..''" using u assms(4) by (cases u; cases "tl u"; cases f) auto
  moreover have "u @ f \<noteq> ''.''" using u assms(4) by (cases u; cases f) auto
  ultimately have "parse_single_component (u @ f) = Some (Normal (u @ f))" using u by (simp add: parse_single_component_def)
  moreover have "length dir = 0 \<or> is_sep (dir ! (length dir - 1))"
    using assms(1) by (cases "dir = []") (auto simp: last_conv_nth is_sep_def)
  ultimately show ?thesis unfolding p using components_name [of "length dir" dir "u @ f"] assms(2) by simp
qed

theorem push_glues_names_witness:
  "components (PathBuf_push ''/usr'' ''lib'') = [RootDir, Normal ''usrlib'']"
proof -
  have "\<forall>b \<in> set (''usr'' @ ''lib''). \<not> is_sep b" "components ''/'' = [RootDir]"
    "parse_single_component ''usr'' = Some (Normal ''usr'')" by code_simp+
  with push_glues_names [of "''/''" "''usr''" "''lib''"] show ?thesis by (simp add: SEPERATOR_def)
qed

text \<open>
  \<open>file_prefix\<close> returns, on ASCII names, what precedes the first dot behind the first character, and
  panics on every name whose first character takes several bytes.
\<close>

theorem file_prefix_cases:
  assumes "file_name pr p = Ret (Some (b # f))"
  shows "(list_all is_ascii (b # f) \<longrightarrow> Path_file_prefix pr p = Ret (Some (b # takeWhile (\<lambda>x. x \<noteq> CHR ''.'') f))) \<and>
    (f \<noteq> [] \<and> is_cont (hd f) \<longrightarrow> Path_file_prefix pr p = Panic)"
proof (intro conjI impI)
  assume "f \<noteq> [] \<and> is_cont (hd f)"
  with assms file_name_not_dots [OF assms] show "Path_file_prefix pr p = Panic"
    by (auto simp: Path_file_prefix_def split_file_at_dot_def str_from_def is_char_boundary_def hd_conv_nth)
qed (rule file_prefix_ascii [OF assms])

theorem file_prefix_cases_witness:
  "Path_file_prefix Dev ''/x/a.tar.gz'' = Ret (Some ''a'') \<and> Path_file_prefix Dev [CHR 0xC3, CHR 0xA9] = Panic"
proof -
  have f: "file_name Dev ''/x/a.tar.gz'' = Ret (Some (CHR ''a'' # ''.tar.gz''))"
    "file_name Dev [CHR 0xC3, CHR 0xA9] = Ret (Some [CHR 0xC3, CHR 0xA9])"
    "list_all is_ascii (CHR ''a'' # ''.tar.gz'')" "is_cont (CHR 0xA9)" by code_simp+
  with file_prefix_cases [OF f(1)] file_prefix_cases [OF f(2)] show ?thesis by simp
qed

text \<open>An extension in front of a trailing separator makes \<open>with_extension\<close> cut through a character.\<close>

lemma with_extension_panics: "with_extension pr [CHR ''a'', CHR ''.'', CHR 0xC3, CHR 0xA9, CHR ''/''] ''txt'' = Panic"
proof -
  have c: "is_cont (CHR 0xA9)" by code_simp
  have "file_name pr [CHR ''a'', CHR ''.'', CHR 0xC3, CHR 0xA9, CHR ''/''] = Ret (Some [CHR ''a'', CHR ''.'', CHR 0xC3, CHR 0xA9])"
    unfolding file_name_law by code_simp
  moreover have "rsplit_file_at_dot [CHR ''a'', CHR ''.'', CHR 0xC3, CHR 0xA9] = (Some ''a'', Some [CHR 0xC3, CHR 0xA9])"
    by code_simp
  ultimately show ?thesis
    using c by (simp add: with_extension_def extension_def str_to_def is_char_boundary_def)
qed

end
