(* ===== verification/Ramfs.thy ===== *)
theory Ramfs
  imports Vfs Path "HOL-Library.Multiset"
begin

text \<open>
  \<open>fs/ramfs/mod.rs\<close>: the RAM file system.  The block vector of an inode is shared (\<open>Arc\<close>) by all
  copies of the inode, so it lives in a store of block vectors and an inode holds its address.  A
  block is a string of 4096 bytes.  The tick counter is an argument of the operations that read it.
\<close>

subsection \<open>Directory entries\<close>

definition BLOCK_SIZE :: nat where
  "BLOCK_SIZE = 4096"

definition DIR_ENTRY_SIZE :: nat where
  "DIR_ENTRY_SIZE = 256"

definition NAME_SIZE :: nat where
  "NAME_SIZE = 247"

record DirEntry =
  de_inode :: nat
  de_length :: nat
  de_name :: string

fun to_le :: "nat \<Rightarrow> nat \<Rightarrow> string" where
  "to_le 0 n = []"
| "to_le (Suc k) n = char_of (n mod 256) # to_le k (n div 256)"

fun from_le :: "string \<Rightarrow> nat" where
  "from_le [] = 0"
| "from_le (b # bs) = of_char b + 256 * from_le bs"

text \<open>The packed layout: eight bytes of inode number, one of length, 247 of name.\<close>

definition to_bytes :: "DirEntry \<Rightarrow> string" where
  "to_bytes e = to_le 8 (de_inode e) @ [char_of (de_length e)] @ de_name e"

definition from_bytes :: "string \<Rightarrow> DirEntry" where
  "from_bytes bs = \<lparr>de_inode = from_le (take 8 bs), de_length = of_char (bs ! 8), de_name = drop 9 bs\<rparr>"

definition chunk :: "nat \<Rightarrow> string \<Rightarrow> string" where
  "chunk e b = take DIR_ENTRY_SIZE (drop (DIR_ENTRY_SIZE * e) b)"

definition chunks :: "string \<Rightarrow> string list" where
  "chunks b = map (\<lambda>e. chunk e b) [0..<length b div DIR_ENTRY_SIZE]"

definition put_chunk :: "nat \<Rightarrow> string \<Rightarrow> string \<Rightarrow> string" where
  "put_chunk e c b = take (DIR_ENTRY_SIZE * e) b @ c @ drop (DIR_ENTRY_SIZE * e + DIR_ENTRY_SIZE) b"

subsection \<open>Inodes and the store\<close>

record RInode =
  r_mode :: Mode
  r_permission :: Permission
  r_user_id :: "16 word"
  r_group_id :: "16 word"
  r_num :: nat
  r_size :: nat
  r_nlink :: "16 word"
  r_blocks :: nat
  r_last_access :: nat
  r_creation_time :: nat
  r_last_modification :: nat

type_synonym VInode = "RInode Inode"

record store =
  vecs :: "nat \<Rightarrow> string list"
  next_vec :: nat

definition from_Inode :: "store \<Rightarrow> RInode \<Rightarrow> VInode" where
  "from_Inode w v =
     \<lparr>i_mode = r_mode v, i_permission = r_permission v, i_user_id = r_user_id v, i_group_id = r_group_id v,
      i_num = r_num v, i_size = r_size v, i_nlink = r_nlink v, i_blocks = length (vecs w (r_blocks v)),
      i_last_access_time = r_last_access v, i_creation_time = r_creation_time v,
      i_last_modification_time = r_last_modification v, i_private = Some v\<rparr>"

definition RInode_default :: "store \<Rightarrow> RInode \<times> store" where
  "RInode_default w =
     (\<lparr>r_mode = 0, r_permission = 0, r_user_id = 0, r_group_id = 0, r_num = 0, r_size = 0, r_nlink = 0,
       r_blocks = next_vec w, r_last_access = 0, r_creation_time = 0, r_last_modification = 0\<rparr>,
      w\<lparr>vecs := (vecs w)(next_vec w := []), next_vec := Suc (next_vec w)\<rparr>)"

subsection \<open>The superblock\<close>

record SuperBlock =
  sb_root :: nat
  sb_count :: nat
  sb_inodes :: "nat \<rightharpoonup> RInode"

definition FileSystem_new :: SuperBlock where
  "FileSystem_new = \<lparr>sb_root = 0, sb_count = 0, sb_inodes = Map.empty\<rparr>"

definition SuperBlock_root :: "SuperBlock \<Rightarrow> store \<Rightarrow> VInode FSResult outcome" where
  "SuperBlock_root sb w = obind (unwrap (sb_inodes sb (sb_root sb))) (\<lambda>v. Ret (Ok (from_Inode w v)))"

definition create_inode :: "profile \<Rightarrow> nat \<Rightarrow> SuperBlock \<Rightarrow> store \<Rightarrow> (VInode FSResult \<times> SuperBlock \<times> store) outcome" where
  "create_inode pr now sb w =
     (let (inode, w) = RInode_default w;
          key = sb_count sb;
          inode = inode\<lparr>r_num := key, r_creation_time := now, r_last_access := now, r_last_modification := now\<rparr>;
          sb = sb\<lparr>sb_inodes := (sb_inodes sb)(key \<mapsto> inode)\<rparr>
      in obind (add64 pr (sb_count sb) 1) (\<lambda>count.
         Ret (Ok (from_Inode w inode), sb\<lparr>sb_count := count\<rparr>, w)))"

definition get_inode :: "nat \<Rightarrow> SuperBlock \<Rightarrow> store \<Rightarrow> VInode option FSResult" where
  "get_inode n sb w = Ok (map_option (from_Inode w) (sb_inodes sb n))"

definition destroy_inode :: "nat \<Rightarrow> SuperBlock \<Rightarrow> unit FSResult outcome" where
  "destroy_inode n sb = Panic"

definition write_inode :: "VInode \<Rightarrow> SuperBlock \<Rightarrow> unit FSResult \<times> SuperBlock" where
  "write_inode inode sb =
     (case i_private inode of
        None \<Rightarrow> (Err WrongInode, sb)
      | Some r \<Rightarrow>
          (case sb_inodes sb (r_num r) of
             Some _ \<Rightarrow> (Ok (), sb\<lparr>sb_inodes := (sb_inodes sb)(r_num r \<mapsto> r)\<rparr>)
           | None \<Rightarrow> (Err MissingInode, sb)))"

definition init_super :: "profile \<Rightarrow> nat \<Rightarrow> SuperBlock \<Rightarrow> store \<Rightarrow> (unit FSResult \<times> SuperBlock \<times> store) outcome" where
  "init_super pr now sb w =
     obind (create_inode pr now sb w) (\<lambda>(r, sb, w).
     case r of
       Err e \<Rightarrow> Ret (Err e, sb, w)
     | Ok rt \<Rightarrow>
         obind (unwrap (sb_inodes sb (i_num rt))) (\<lambda>v.
         Ret (Ok (), sb\<lparr>sb_root := i_num rt, sb_inodes := (sb_inodes sb)(i_num rt \<mapsto> v\<lparr>r_mode := DIRECTORY\<rparr>)\<rparr>, w)))"

subsection \<open>Listing a directory\<close>

record DirIterator =
  blkidx :: nat
  entryidx :: nat

definition DirIterator_new :: DirIterator where
  "DirIterator_new = \<lparr>blkidx = 0, entryidx = 0\<rparr>"

function DirIterator_next :: "string list \<Rightarrow> DirIterator \<Rightarrow> ((string \<times> nat) option \<times> DirIterator) outcome" where
  "DirIterator_next bs it =
     (if length bs \<le> blkidx it then Ret (None, it)
      else
        (let cs = chunks (bs ! blkidx it) in
         if length cs \<le> entryidx it then DirIterator_next bs \<lparr>blkidx = blkidx it + 1, entryidx = 0\<rparr>
         else
           (let entry = from_bytes (cs ! entryidx it);
                it = it\<lparr>entryidx := entryidx it + 1\<rparr>
            in if de_inode entry = 0 \<or> de_length entry = 0 then DirIterator_next bs it
               else
                 obind (slice_to (de_length entry) (de_name entry)) (\<lambda>name.
                 case from_utf8 name of
                   Err _ \<Rightarrow> Panic
                 | Ok pth \<Rightarrow> Ret (Some (pth, de_inode entry), it)))))"
  by pat_completeness auto

termination
  by (relation "measures [\<lambda>(bs, it). length bs - blkidx it, \<lambda>(bs, it). length (chunks (bs ! blkidx it)) - entryidx it]") auto

declare DirIterator_next.simps [simp del]

text \<open>The iterator holds a read guard on the blocks: the blocks it lists, with its position.\<close>

definition Ramfs_list :: "store \<Rightarrow> VInode \<Rightarrow> (string list \<times> DirIterator) FSResult" where
  "Ramfs_list w inode =
     (case i_private inode of
        None \<Rightarrow> Err WrongInode
      | Some i \<Rightarrow> if r_mode i \<noteq> DIRECTORY then Err NotDirectory else Ok (vecs w (r_blocks i), DirIterator_new))"

subsection \<open>Adding an entry\<close>

definition slots :: "string list \<Rightarrow> (nat \<times> nat) list" where
  "slots bs = concat (map (\<lambda>b. map (Pair b) [0..<length (bs ! b) div DIR_ENTRY_SIZE]) (rev [0..<length bs]))"

definition append_dir_entry :: "DirEntry \<Rightarrow> string list \<Rightarrow> string list" where
  "append_dir_entry entry bs =
     (case find (\<lambda>(b, e). de_inode (from_bytes (chunk e (bs ! b))) = 0) (slots bs) of
        Some (b, e) \<Rightarrow> bs[b := put_chunk e (to_bytes entry) (bs ! b)]
      | None \<Rightarrow> bs @ [to_bytes entry @ replicate (BLOCK_SIZE - DIR_ENTRY_SIZE) (char_of (0 :: nat))])"

text \<open>
  \<open>add_dir_entry\<close> mutates the private data behind both inodes; it returns them in a state of their
  own so that what an error leaves behind is visible.
\<close>

definition add_dir_entry ::
    "nat \<Rightarrow> VInode \<Rightarrow> VInode \<Rightarrow> Component \<Rightarrow> bool \<Rightarrow> store \<Rightarrow> ((RInode \<times> RInode) FSResult \<times> store) outcome" where
  "add_dir_entry now dst i_vfs_parent cp inherit_permissions w =
     (case cp of
        Normal name \<Rightarrow>
          if i_mode i_vfs_parent \<noteq> DIRECTORY then Ret (Err NotDirectory, w)
          else
            (case Ramfs_list w i_vfs_parent of
               Err e \<Rightarrow> Ret (Err e, w)
             | Ok (bs, iter) \<Rightarrow>
                 obind (loop_result (iter_find (DirIterator_next bs) (\<lambda>(p, _). p = name) iter)) (\<lambda>found.
                 if found \<noteq> None then Ret (Err Exists, w)
                 else
                   (case (i_private dst, i_private i_vfs_parent) of
                      (Some i_dst, Some i_parent) \<Rightarrow>
                        if NAME_SIZE < length name then Panic
                        else
                          (let entry = \<lparr>de_inode = i_num dst, de_length = length name mod 256,
                                 de_name = name @ replicate (NAME_SIZE - length name) (char_of (0 :: nat))\<rparr>;
                               w = w\<lparr>vecs := (vecs w)(r_blocks i_parent := append_dir_entry entry (vecs w (r_blocks i_parent)))\<rparr>;
                               i_dst = (if inherit_permissions then i_dst\<lparr>r_permission := r_permission i_parent\<rparr> else i_dst);
                               i_dst = i_dst\<lparr>r_last_modification := now, r_last_access := now\<rparr>;
                               i_parent = i_parent\<lparr>r_last_modification := now, r_last_access := now\<rparr>
                           in Ret (Ok (i_dst, i_parent), w))
                    | _ \<Rightarrow> Ret (Err WrongInode, w))))
      | _ \<Rightarrow> Ret (Err BadPath, w))"

subsection \<open>Inode operations\<close>

text \<open>The result, the inode, the inode of the par entry and the store afterwards.\<close>

type_synonym op_result = "(unit FSResult \<times> VInode \<times> VInode \<times> store) outcome"

definition Ramfs_create :: "nat \<Rightarrow> VInode \<Rightarrow> VInode \<Rightarrow> Component \<Rightarrow> store \<Rightarrow> op_result" where
  "Ramfs_create now dst par cp w =
     obind (add_dir_entry now dst par cp True w) (\<lambda>(r, w).
     case r of
       Err e \<Rightarrow> Ret (Err e, dst, par, w)
     | Ok (i_dst, i_parent) \<Rightarrow>
         Ret (Ok (), from_Inode w (i_dst\<lparr>r_mode := REGULAR_FILE\<rparr>), from_Inode w i_parent, w))"

definition Ramfs_link :: "nat \<Rightarrow> VInode \<Rightarrow> VInode \<Rightarrow> Component \<Rightarrow> store \<Rightarrow> op_result" where
  "Ramfs_link now src par cp w =
     obind (add_dir_entry now src par cp False w) (\<lambda>(r, w).
     case r of
       Err e \<Rightarrow> Ret (Err e, src, par, w)
     | Ok (i_dst, i_parent) \<Rightarrow> Ret (Ok (), from_Inode w i_dst, from_Inode w i_parent, w))"

definition Ramfs_mkdir :: "nat \<Rightarrow> VInode \<Rightarrow> VInode \<Rightarrow> Component \<Rightarrow> store \<Rightarrow> op_result" where
  "Ramfs_mkdir now dst par cp w =
     obind (add_dir_entry now dst par cp True w) (\<lambda>(r, w).
     case r of
       Err e \<Rightarrow> Ret (Err e, dst, par, w)
     | Ok (i_dst, i_parent) \<Rightarrow>
         Ret (Ok (), from_Inode w (i_dst\<lparr>r_mode := DIRECTORY\<rparr>), from_Inode w i_parent, w))"

text \<open>
  \<open>symlink\<close> still holds the write lock of the new inode's blocks when it converts the inode, and the
  conversion takes the read lock of the same blocks.
\<close>

definition Ramfs_symlink :: "nat \<Rightarrow> VInode \<Rightarrow> string \<Rightarrow> VInode \<Rightarrow> Component \<Rightarrow> store \<Rightarrow> op_result" where
  "Ramfs_symlink now dst src par cp w =
     obind (add_dir_entry now dst par cp True w) (\<lambda>(r, w).
     case r of
       Err e \<Rightarrow> Ret (Err e, dst, par, w)
     | Ok (i_dst, i_parent) \<Rightarrow>
         (let i_dst = i_dst\<lparr>r_mode := SYMBOLIC_LINK\<rparr> in
          if BLOCK_SIZE < length src
          then Ret (Err BadPath, dst\<lparr>i_private := Some i_dst\<rparr>, par\<lparr>i_private := Some i_parent\<rparr>, w)
          else Spin))"

definition Ramfs_unlink :: "VInode \<Rightarrow> VInode \<Rightarrow> unit FSResult" where
  "Ramfs_unlink dst par = Err Unimplemented"

definition Ramfs_rename :: "VInode \<Rightarrow> VInode \<Rightarrow> VInode \<Rightarrow> Component \<Rightarrow> unit FSResult" where
  "Ramfs_rename src src_p dst_p cp = Err Unimplemented"

definition ramfs_ops :: "nat \<Rightarrow> (RInode, Component, store, string list \<times> DirIterator) InodeOps" where
  "ramfs_ops now = \<lparr>op_create = Ramfs_create now, op_link = Ramfs_link now, op_symlink = Ramfs_symlink now,
     op_unlink = Ramfs_unlink, op_rename = Ramfs_rename, op_mkdir = Ramfs_mkdir now, op_list = Ramfs_list\<rparr>"

lemma ramfs_ops_simps [simp]:
  "Inode_create (ramfs_ops now) = Ramfs_create now" "Inode_link (ramfs_ops now) = Ramfs_link now"
  "Inode_symlink (ramfs_ops now) = Ramfs_symlink now" "Inode_unlink (ramfs_ops now) = Ramfs_unlink"
  "Inode_rename (ramfs_ops now) = Ramfs_rename" "Inode_mkdir (ramfs_ops now) = Ramfs_mkdir now" "op_list (ramfs_ops now) = Ramfs_list"
  by (simp_all add: fun_eq_iff ramfs_ops_def Inode_create_def Inode_link_def Inode_symlink_def Inode_unlink_def Inode_rename_def
      Inode_mkdir_def)

subsection \<open>Encoding\<close>

lemma length_to_le [simp]: "length (to_le k n) = k"
  by (induction k arbitrary: n) simp_all

lemma from_to_le: "n < 256 ^ k \<Longrightarrow> from_le (to_le k n) = n"
proof (induction k arbitrary: n)
  case (Suc k)
  then have "n div 256 < 256 ^ k" by (simp add: less_mult_imp_div_less mult.commute)
  with Suc.IH show ?case by simp
qed simp

lemma from_to_bytes:
  assumes "de_inode e < u64_range" and "de_length e < 256"
  shows "from_bytes (to_bytes e) = e"
proof -
  have "de_inode e < 256 ^ 8" using assms(1) by simp
  with assms(2) show ?thesis by (simp add: from_bytes_def to_bytes_def from_to_le nth_append)
qed

lemma length_to_bytes: "length (de_name e) = NAME_SIZE \<Longrightarrow> length (to_bytes e) = DIR_ENTRY_SIZE"
  by (simp add: to_bytes_def NAME_SIZE_def DIR_ENTRY_SIZE_def)

definition zero_bytes :: "nat \<Rightarrow> string" where
  "zero_bytes n = replicate n (char_of (0 :: nat))"

lemma from_le_zero: "from_le (replicate k (char_of (0 :: nat))) = 0"
  by (induction k) simp_all

lemma length_chunks: "length (chunks b) = length b div DIR_ENTRY_SIZE"
  by (simp add: chunks_def)

lemma nth_chunks: "e < length b div DIR_ENTRY_SIZE \<Longrightarrow> chunks b ! e = chunk e b"
  by (simp add: chunks_def)

lemma chunk_bound: "e < length b div DIR_ENTRY_SIZE \<Longrightarrow> DIR_ENTRY_SIZE * e + DIR_ENTRY_SIZE \<le> length b"
proof -
  assume "e < length b div DIR_ENTRY_SIZE"
  then have "DIR_ENTRY_SIZE * Suc e \<le> DIR_ENTRY_SIZE * (length b div DIR_ENTRY_SIZE)" by (intro mult_le_mono2) simp
  also have "\<dots> \<le> length b" by simp
  finally show ?thesis by simp
qed

lemma chunk_append: "DIR_ENTRY_SIZE * e + DIR_ENTRY_SIZE \<le> length xs \<Longrightarrow> chunk e (xs @ ys) = chunk e xs"
  by (simp add: chunk_def)

lemma chunk_take: "DIR_ENTRY_SIZE * e + DIR_ENTRY_SIZE \<le> m \<Longrightarrow> chunk e (take m b) = chunk e b"
  by (simp add: chunk_def drop_take min_def)

lemma chunk_put_chunk:
  assumes "length c = DIR_ENTRY_SIZE" and "e < length b div DIR_ENTRY_SIZE" and "e' < length b div DIR_ENTRY_SIZE"
  shows "chunk e' (put_chunk e c b) = (if e' = e then c else chunk e' b)"
proof -
  let ?n = DIR_ENTRY_SIZE
  have le: "?n * e + ?n \<le> length b" using assms(2) by (rule chunk_bound)
  have n: "0 < ?n" by (simp add: DIR_ENTRY_SIZE_def)
  consider "e' < e" | "e' = e" | "e < e'" by linarith
  then show ?thesis
  proof cases
    case 1
    then have "?n * Suc e' \<le> ?n * e" by (intro mult_le_mono2) simp
    with 1 le show ?thesis by (simp add: put_chunk_def chunk_append chunk_take)
  next
    case 2
    with le assms(1) show ?thesis by (simp add: chunk_def put_chunk_def)
  next
    case 3
    then have "?n * Suc e \<le> ?n * e'" by (intro mult_le_mono2) simp
    then have "?n * e' = ?n * e + ?n + (?n * e' - (?n * e + ?n))" by simp
    with 3 le assms(1) show ?thesis by (simp add: chunk_def put_chunk_def)
  qed
qed

lemma length_put_chunk:
  "length c = DIR_ENTRY_SIZE \<Longrightarrow> e < length b div DIR_ENTRY_SIZE \<Longrightarrow> length (put_chunk e c b) = length b"
  using chunk_bound [of e b] by (simp add: put_chunk_def)

lemma chunks_put_chunk:
  assumes "length c = DIR_ENTRY_SIZE" and "e < length b div DIR_ENTRY_SIZE"
  shows "chunks (put_chunk e c b) = (chunks b)[e := c]"
  using assms by (intro nth_equalityI) (simp_all add: length_chunks length_put_chunk nth_chunks chunk_put_chunk nth_list_update)

lemma chunks_new_block:
  assumes "length c = DIR_ENTRY_SIZE"
  shows "chunks (c @ zero_bytes (BLOCK_SIZE - DIR_ENTRY_SIZE)) = c # replicate 15 (zero_bytes DIR_ENTRY_SIZE)"
proof (rule nth_equalityI)
  fix e assume "e < length (chunks (c @ zero_bytes (BLOCK_SIZE - DIR_ENTRY_SIZE)))"
  then have e: "e < 16" using assms by (simp add: length_chunks zero_bytes_def BLOCK_SIZE_def DIR_ENTRY_SIZE_def)
  then have "chunks (c @ zero_bytes (BLOCK_SIZE - DIR_ENTRY_SIZE)) ! e = chunk e (c @ zero_bytes (BLOCK_SIZE - DIR_ENTRY_SIZE))"
    using assms by (intro nth_chunks) (simp add: zero_bytes_def BLOCK_SIZE_def DIR_ENTRY_SIZE_def)
  also have "\<dots> = (c # replicate 15 (zero_bytes DIR_ENTRY_SIZE)) ! e"
  proof (cases e)
    case 0
    with assms show ?thesis by (simp add: chunk_def)
  next
    case (Suc k)
    with e have "256 * k \<le> 3584" by simp
    with assms Suc e show ?thesis
      by (simp add: chunk_def zero_bytes_def DIR_ENTRY_SIZE_def BLOCK_SIZE_def min_def)
  qed
  finally show "chunks (c @ zero_bytes (BLOCK_SIZE - DIR_ENTRY_SIZE)) ! e = (c # replicate 15 (zero_bytes DIR_ENTRY_SIZE)) ! e" .
qed (use assms in \<open>simp add: length_chunks zero_bytes_def BLOCK_SIZE_def DIR_ENTRY_SIZE_def\<close>)

subsection \<open>Directories as lists of entries\<close>

definition live :: "string \<Rightarrow> (string \<times> nat) option" where
  "live c =
     (let e = from_bytes c in
      if de_inode e = 0 \<or> de_length e = 0 then None else Some (take (de_length e) (de_name e), de_inode e))"

definition dir_entries :: "string list \<Rightarrow> (string \<times> nat) list" where
  "dir_entries bs = List.map_filter live (concat (map chunks bs))"

definition chunk_ok :: "string \<Rightarrow> bool" where
  "chunk_ok c \<longleftrightarrow>
     (live c \<noteq> None \<longrightarrow> de_length (from_bytes c) \<le> NAME_SIZE \<and> length c = DIR_ENTRY_SIZE \<and> valid_utf8 (fst (the (live c))))"

definition dir_ok :: "string list \<Rightarrow> bool" where
  "dir_ok bs \<longleftrightarrow> (\<forall>b \<in> set bs. length b = BLOCK_SIZE \<and> (\<forall>c \<in> set (chunks b). chunk_ok c))"

definition rest :: "string list \<Rightarrow> DirIterator \<Rightarrow> (string \<times> nat) list" where
  "rest bs it =
     (if blkidx it < length bs
      then List.map_filter live (drop (entryidx it) (chunks (bs ! blkidx it)) @ concat (map chunks (drop (Suc (blkidx it)) bs)))
      else [])"

lemma rest_new: "rest bs DirIterator_new = dir_entries bs"
  by (cases bs) (simp_all add: rest_def dir_entries_def DirIterator_new_def map_filter_def)

lemma rest_next_block:
  "blkidx it < length bs \<Longrightarrow> length (chunks (bs ! blkidx it)) \<le> entryidx it \<Longrightarrow>
    rest bs it = rest bs \<lparr>blkidx = blkidx it + 1, entryidx = 0\<rparr>"
  by (cases "Suc (blkidx it) < length bs") (simp_all add: rest_def Cons_nth_drop_Suc [symmetric] map_filter_def)

lemma rest_next_entry:
  "blkidx it < length bs \<Longrightarrow> entryidx it < length (chunks (bs ! blkidx it)) \<Longrightarrow>
    rest bs it = option_list (live (chunks (bs ! blkidx it) ! entryidx it)) @ rest bs (it\<lparr>entryidx := entryidx it + 1\<rparr>)"
  by (simp add: rest_def Cons_nth_drop_Suc [symmetric] map_filter_def option_list_def split: option.splits)

lemma live_slice:
  assumes "chunk_ok c" and "de_inode (from_bytes c) \<noteq> 0" and "de_length (from_bytes c) \<noteq> 0"
  shows "obind (slice_to (de_length (from_bytes c)) (de_name (from_bytes c))) (\<lambda>name.
      case from_utf8 name of Err _ \<Rightarrow> Panic | Ok pth \<Rightarrow> Ret (Some (pth, de_inode (from_bytes c)), it)) = Ret (live c, it)"
proof -
  let ?e = "from_bytes c"
  have lv: "live c = Some (take (de_length ?e) (de_name ?e), de_inode ?e)" using assms(2,3) by (simp add: live_def Let_def)
  with assms(1) have k: "de_length ?e \<le> NAME_SIZE" "length c = DIR_ENTRY_SIZE" "valid_utf8 (take (de_length ?e) (de_name ?e))"
    by (simp_all add: chunk_ok_def)
  have "length (de_name ?e) = NAME_SIZE" using k(2) by (simp add: from_bytes_def NAME_SIZE_def DIR_ENTRY_SIZE_def)
  with k lv show ?thesis by (simp add: from_utf8_def)
qed

lemma DirIterator_next_law:
  assumes "dir_ok bs"
  shows "\<exists>it'. rest bs it' = tl (rest bs it) \<and>
    DirIterator_next bs it = Ret (if rest bs it = [] then None else Some (hd (rest bs it)), it')"
  using assms
proof (induction bs it rule: DirIterator_next.induct)
  case (1 bs it)
  show ?case
  proof (cases "length bs \<le> blkidx it")
    case True
    then show ?thesis by (intro exI [of _ it]) (simp add: rest_def DirIterator_next.simps [of bs it])
  next
    case blk: False
    let ?cs = "chunks (bs ! blkidx it)"
    show ?thesis
    proof (cases "length ?cs \<le> entryidx it")
      case True
      with blk have "DirIterator_next bs it = DirIterator_next bs \<lparr>blkidx = blkidx it + 1, entryidx = 0\<rparr>"
        by (simp add: DirIterator_next.simps [of bs it])
      moreover have "rest bs it = rest bs \<lparr>blkidx = blkidx it + 1, entryidx = 0\<rparr>"
        using blk True by (intro rest_next_block) simp_all
      ultimately show ?thesis using "1.IH"(1) [OF blk refl True "1.prems"] by (simp only:)
    next
      case False
      let ?c = "?cs ! entryidx it" and ?it = "it\<lparr>entryidx := entryidx it + 1\<rparr>"
      have r: "rest bs it = option_list (live ?c) @ rest bs ?it" using blk False by (intro rest_next_entry) simp_all
      show ?thesis
      proof (cases "de_inode (from_bytes ?c) = 0 \<or> de_length (from_bytes ?c) = 0")
        case True
        with blk False have "DirIterator_next bs it = DirIterator_next bs ?it"
          by (simp add: DirIterator_next.simps [of bs it] Let_def)
        moreover have "rest bs it = rest bs ?it" using r True by (simp add: live_def)
        ultimately show ?thesis using "1.IH"(2) [OF blk refl False refl refl True "1.prems"] by (simp only:)
      next
        case lv: False
        have "bs ! blkidx it \<in> set bs" "?c \<in> set ?cs" using blk False by simp_all
        then have "chunk_ok ?c" using "1.prems" by (auto simp: dir_ok_def)
        then have "DirIterator_next bs it = Ret (live ?c, ?it)"
          using blk False lv by (simp add: DirIterator_next.simps [of bs it] Let_def live_slice)
        moreover obtain x where "live ?c = Some x" using lv by (simp add: live_def Let_def)
        ultimately show ?thesis using r by (intro exI [of _ ?it]) simp
      qed
    qed
  qed
qed

interpretation dir: iterator "DirIterator_next bs" "\<lambda>it. dir_ok bs" "rest bs" for bs
  by unfold_locales (use DirIterator_next_law in blast)

subsection \<open>What an added entry does to a directory\<close>

definition block_entries :: "string \<Rightarrow> (string \<times> nat) list" where
  "block_entries b = List.map_filter live (chunks b)"

lemma dir_entries_blocks: "dir_entries bs = concat (map block_entries bs)"
  by (induction bs) (simp_all add: dir_entries_def block_entries_def map_filter_def)

lemma map_filter_Cons: "List.map_filter f (x # xs) = option_list (f x) @ List.map_filter f xs"
  by (simp add: map_filter_def option_list_def split: option.splits)

lemma map_filter_append: "List.map_filter f (xs @ ys) = List.map_filter f xs @ List.map_filter f ys"
  by (simp add: map_filter_def)

lemma mset_map_filter_update:
  assumes "i < length xs" and "f (xs ! i) = None"
  shows "mset (List.map_filter f (xs[i := x])) = mset (option_list (f x)) + mset (List.map_filter f xs)"
proof -
  have "List.map_filter f xs = List.map_filter f (take i xs) @ List.map_filter f (drop (Suc i) xs)"
    by (subst id_take_nth_drop [OF assms(1)]) (simp add: map_filter_append map_filter_Cons assms(2))
  moreover have "List.map_filter f (xs[i := x]) =
      List.map_filter f (take i xs) @ option_list (f x) @ List.map_filter f (drop (Suc i) xs)"
    using assms(1) by (simp add: upd_conv_take_nth_drop map_filter_append option_list_def split: option.splits)
  ultimately show ?thesis by simp
qed

lemma map_filter_replicate: "f x = None \<Longrightarrow> List.map_filter f (replicate n x) = []"
  by (induction n) simp_all

lemma set_slots: "(b, e) \<in> set (slots bs) \<longleftrightarrow> b < length bs \<and> e < length (bs ! b) div DIR_ENTRY_SIZE"
  by (force simp: slots_def)

lemma live_zero: "live (zero_bytes DIR_ENTRY_SIZE) = None"
  by (simp add: live_def from_bytes_def zero_bytes_def DIR_ENTRY_SIZE_def from_le_zero min_def)

lemma append_dir_entry_law:
  assumes "dir_ok bs" and "length (de_name en) = NAME_SIZE" and "chunk_ok (to_bytes en)"
  shows "dir_ok (append_dir_entry en bs)"
    and "mset (dir_entries (append_dir_entry en bs)) = mset (option_list (live (to_bytes en))) + mset (dir_entries bs)"
proof -
  let ?c = "to_bytes en" and ?P = "\<lambda>(b, e). de_inode (from_bytes (chunk e (bs ! b))) = 0"
  have len: "length ?c = DIR_ENTRY_SIZE" using assms(2) by (rule length_to_bytes)
  have "dir_ok (append_dir_entry en bs) \<and>
    mset (dir_entries (append_dir_entry en bs)) = mset (option_list (live ?c)) + mset (dir_entries bs)"
  proof (cases "find ?P (slots bs)")
    case None
    let ?b = "?c @ zero_bytes (BLOCK_SIZE - DIR_ENTRY_SIZE)"
    have app: "append_dir_entry en bs = bs @ [?b]" using None by (simp add: append_dir_entry_def zero_bytes_def)
    have ch: "chunks ?b = ?c # replicate 15 (zero_bytes DIR_ENTRY_SIZE)" by (rule chunks_new_block [OF len])
    have "block_entries ?b = option_list (live ?c)"
      by (simp add: block_entries_def ch map_filter_replicate live_zero option_list_def split: option.splits)
    moreover have "length ?b = BLOCK_SIZE" using len by (simp add: zero_bytes_def BLOCK_SIZE_def DIR_ENTRY_SIZE_def)
    moreover have "\<forall>x \<in> set (chunks ?b). chunk_ok x" using assms(3) by (auto simp: ch chunk_ok_def live_zero)
    ultimately show ?thesis using assms(1) by (simp add: app dir_ok_def dir_entries_blocks)
  next
    case (Some s)
    obtain b e where s: "s = (b, e)" by (cases s)
    from Some have "s \<in> set (slots bs)" "?P s" by (auto simp: find_Some_iff in_set_conv_nth)
    then have be: "b < length bs" "e < length (bs ! b) div DIR_ENTRY_SIZE" "de_inode (from_bytes (chunk e (bs ! b))) = 0"
      by (simp_all add: s set_slots)
    let ?b = "put_chunk e ?c (bs ! b)"
    have app: "append_dir_entry en bs = bs[b := ?b]" using Some s by (simp add: append_dir_entry_def)
    have ch: "chunks ?b = (chunks (bs ! b))[e := ?c]" by (rule chunks_put_chunk [OF len be(2)])
    have "live (chunks (bs ! b) ! e) = None" using be(2,3) by (simp add: nth_chunks live_def)
    then have m: "mset (block_entries ?b) = mset (option_list (live ?c)) + mset (block_entries (bs ! b))"
      using be(2) by (simp add: block_entries_def ch mset_map_filter_update length_chunks)
    have "dir_entries bs = concat (map block_entries (take b bs)) @ block_entries (bs ! b) @ concat (map block_entries (drop (Suc b) bs))"
      unfolding dir_entries_blocks by (subst id_take_nth_drop [OF be(1)]) simp
    moreover have "dir_entries (bs[b := ?b]) =
        concat (map block_entries (take b bs)) @ block_entries ?b @ concat (map block_entries (drop (Suc b) bs))"
      using be(1) by (simp add: dir_entries_blocks upd_conv_take_nth_drop)
    ultimately have "mset (dir_entries (bs[b := ?b])) = mset (option_list (live ?c)) + mset (dir_entries bs)" using m by simp
    moreover have "bs ! b \<in> set bs" using be(1) by simp
    then have "length ?b = BLOCK_SIZE" "\<forall>x \<in> set (chunks ?b). chunk_ok x"
      using assms(1,3) len be(2) set_update_subset_insert [of "chunks (bs ! b)" e ?c]
      by (auto simp: dir_ok_def length_put_chunk ch)
    then have "dir_ok (bs[b := ?b])" using assms(1) set_update_subset_insert [of bs b ?b] by (auto simp: dir_ok_def)
    ultimately show ?thesis by (simp add: app)
  qed
  then show "dir_ok (append_dir_entry en bs)"
    "mset (dir_entries (append_dir_entry en bs)) = mset (option_list (live ?c)) + mset (dir_entries bs)" by simp_all
qed

definition new_entry :: "nat \<Rightarrow> string \<Rightarrow> DirEntry" where
  "new_entry n name = \<lparr>de_inode = n, de_length = length name mod 256, de_name = name @ zero_bytes (NAME_SIZE - length name)\<rparr>"

lemma new_entry_law:
  assumes "n < u64_range" and "length name \<le> NAME_SIZE" and "valid_utf8 name"
  shows "length (de_name (new_entry n name)) = NAME_SIZE" and "chunk_ok (to_bytes (new_entry n name))"
    and "live (to_bytes (new_entry n name)) = (if n = 0 \<or> name = [] then None else Some (name, n))"
proof -
  show l: "length (de_name (new_entry n name)) = NAME_SIZE" using assms(2) by (simp add: new_entry_def zero_bytes_def)
  have fb: "from_bytes (to_bytes (new_entry n name)) = new_entry n name"
    using assms(1) by (intro from_to_bytes) (simp_all add: new_entry_def)
  have m: "length name mod 256 = length name" using assms(2) by (simp add: NAME_SIZE_def)
  show lv: "live (to_bytes (new_entry n name)) = (if n = 0 \<or> name = [] then None else Some (name, n))"
    unfolding live_def Let_def fb by (simp add: new_entry_def m)
  show "chunk_ok (to_bytes (new_entry n name))"
    using assms l m by (simp add: chunk_ok_def lv fb length_to_bytes) (simp add: new_entry_def)
qed

lemma find_name: "find (\<lambda>(p, _). p = name) es = None \<longleftrightarrow> name \<notin> fst ` set es"
  by (auto simp: find_None_iff image_iff)

text \<open>\<open>add_dir_entry\<close> on every branch.\<close>

lemma add_dir_entry_law:
  assumes "i_private par = Some ip" and "dir_ok (vecs w (r_blocks ip))"
  shows "add_dir_entry now dst par (Normal name) inh w =
    (if i_mode par \<noteq> DIRECTORY \<or> r_mode ip \<noteq> DIRECTORY then Ret (Err NotDirectory, w)
     else if name \<in> fst ` set (dir_entries (vecs w (r_blocks ip))) then Ret (Err Exists, w)
     else case i_private dst of
       None \<Rightarrow> Ret (Err WrongInode, w)
     | Some d \<Rightarrow>
         if NAME_SIZE < length name then Panic
         else Ret (Ok ((if inh then d\<lparr>r_permission := r_permission ip\<rparr> else d)\<lparr>r_last_modification := now, r_last_access := now\<rparr>,
                       ip\<lparr>r_last_modification := now, r_last_access := now\<rparr>),
                   w\<lparr>vecs := (vecs w)(r_blocks ip := append_dir_entry (new_entry (i_num dst) name) (vecs w (r_blocks ip)))\<rparr>))"
proof -
  let ?es = "dir_entries (vecs w (r_blocks ip))"
  have it: "iter_find (DirIterator_next (vecs w (r_blocks ip))) (\<lambda>(p, _). p = name) DirIterator_new =
      Some (Ret (find (\<lambda>(p, _). p = name) ?es))"
    using dir.iter_find_law [OF assms(2), of "\<lambda>(p, _). p = name" DirIterator_new] by (simp add: rest_new)
  show ?thesis
  proof (cases "find (\<lambda>(p, _). p = name) ?es")
    case None
    then have "name \<notin> fst ` set ?es" using find_name [of name ?es] by blast
    with None it assms(1) show ?thesis
      by (simp add: add_dir_entry_def Ramfs_list_def new_entry_def zero_bytes_def Let_def split: option.splits)
  next
    case (Some x)
    then have "name \<in> fst ` set ?es" using find_name [of name ?es] by auto
    with Some it assms(1) show ?thesis by (simp add: add_dir_entry_def Ramfs_list_def)
  qed
qed

end
