(* ===== verification/Ramfs_History.thy ===== *)
theory Ramfs_History
  imports Ramfs
begin

text \<open>
  The RAM file system over time: the invariant that relates superblock, store and the inodes clients
  hold, kept by every operation, and the refinement of a directory to a finite map.
\<close>

subsection \<open>Histories of a file system\<close>

text \<open>
  The superblock, the store and the inodes that clients hold.  Every step is a call of the file
  system with inodes it has handed out; names are valid strings.  Inode numbers are below
  \<open>2 ^ 64\<close>: the counter of the superblock has not wrapped around.
\<close>

record ramfs =
  rf_sb :: SuperBlock
  rf_store :: store
  rf_inodes :: "VInode list"

definition handle_ok :: "SuperBlock \<Rightarrow> VInode \<Rightarrow> bool" where
  "handle_ok sb h \<longleftrightarrow>
     (case i_private h of
        None \<Rightarrow> False
      | Some r \<Rightarrow> i_num h = r_num r \<and> map_option r_blocks (sb_inodes sb (r_num r)) = Some (r_blocks r))"

definition sb_ok :: "SuperBlock \<Rightarrow> store \<Rightarrow> bool" where
  "sb_ok sb w \<longleftrightarrow> sb_count sb < u64_range \<and>
     (\<forall>n v. sb_inodes sb n = Some v \<longrightarrow> r_num v = n \<and> n < sb_count sb \<and> r_blocks v < next_vec w) \<and>
     (\<forall>m n u v. sb_inodes sb m = Some u \<longrightarrow> sb_inodes sb n = Some v \<longrightarrow> r_blocks u = r_blocks v \<longrightarrow> m = n)"

definition entries_ok :: "SuperBlock \<Rightarrow> string list \<Rightarrow> bool" where
  "entries_ok sb bs \<longleftrightarrow> dir_ok bs \<and> distinct (map fst (dir_entries bs)) \<and>
     (\<forall>(p, n) \<in> set (dir_entries bs). sb_inodes sb n \<noteq> None)"

definition ramfs_ok :: "ramfs \<Rightarrow> bool" where
  "ramfs_ok s \<longleftrightarrow> sb_ok (rf_sb s) (rf_store s) \<and> (\<forall>a. entries_ok (rf_sb s) (vecs (rf_store s) a)) \<and>
     (\<forall>h \<in> set (rf_inodes s). handle_ok (rf_sb s) h)"

definition comp_ok :: "Component \<Rightarrow> bool" where
  "comp_ok cp \<longleftrightarrow> (case cp of Normal n \<Rightarrow> n \<noteq> [] \<and> valid_utf8 n | _ \<Rightarrow> True)"

text \<open>The calls that add an entry: the operation, applied to the inode and its parent.\<close>

definition entry_ops :: "(nat \<Rightarrow> VInode \<Rightarrow> VInode \<Rightarrow> Component \<Rightarrow> store \<Rightarrow> op_result) set" where
  "entry_ops = {Ramfs_create, Ramfs_link, Ramfs_mkdir} \<union> range (\<lambda>src now dst. Ramfs_symlink now dst src)"

inductive ramfs_step :: "profile \<Rightarrow> ramfs \<Rightarrow> ramfs \<Rightarrow> bool" for pr where
  create_inode: "create_inode pr now (rf_sb s) (rf_store s) = Ret (Ok h, sb', w') \<Longrightarrow>
    sb_count (rf_sb s) + 1 < u64_range \<Longrightarrow>
    ramfs_step pr s \<lparr>rf_sb = sb', rf_store = w', rf_inodes = rf_inodes s @ [h]\<rparr>"
| get_inode: "get_inode n (rf_sb s) (rf_store s) = Ok (Some h) \<Longrightarrow>
    ramfs_step pr s (s\<lparr>rf_inodes := rf_inodes s @ [h]\<rparr>)"
| write_inode: "i < length (rf_inodes s) \<Longrightarrow> write_inode (rf_inodes s ! i) (rf_sb s) = (r, sb') \<Longrightarrow>
    ramfs_step pr s (s\<lparr>rf_sb := sb'\<rparr>)"
| entry: "f \<in> entry_ops \<Longrightarrow> i < length (rf_inodes s) \<Longrightarrow> j < length (rf_inodes s) \<Longrightarrow> i \<noteq> j \<Longrightarrow> comp_ok cp \<Longrightarrow>
    f now (rf_inodes s ! i) (rf_inodes s ! j) cp (rf_store s) = Ret (r, d, p, w') \<Longrightarrow>
    ramfs_step pr s (s\<lparr>rf_store := w', rf_inodes := (rf_inodes s)[i := d, j := p]\<rparr>)"

inductive ramfs_run :: "profile \<Rightarrow> ramfs \<Rightarrow> ramfs \<Rightarrow> bool" for pr where
  ramfs_start: "ramfs_run pr s s"
| ramfs_more: "ramfs_run pr s t \<Longrightarrow> ramfs_step pr t u \<Longrightarrow> ramfs_run pr s u"

inductive_cases ramfs_stepE: "ramfs_step pr s t"

definition empty_store :: store where
  "empty_store = \<lparr>vecs = (\<lambda>_. []), next_vec = 0\<rparr>"

subsection \<open>The invariant is kept\<close>

lemma entries_ok_append:
  assumes "entries_ok sb bs" and "sb_inodes sb n = Some v" and "n < u64_range" and "length name \<le> NAME_SIZE"
    and "valid_utf8 name" and "name \<notin> fst ` set (dir_entries bs)"
  shows "entries_ok sb (append_dir_entry (new_entry n name) bs)"
    and "mset (dir_entries (append_dir_entry (new_entry n name) bs)) =
      mset ((if n = 0 \<or> name = [] then [] else [(name, n)]) @ dir_entries bs)"
proof -
  note en = new_entry_law [OF assms(3-5)]
  have ok: "dir_ok bs" using assms(1) by (simp add: entries_ok_def)
  note app = append_dir_entry_law [OF ok en(1,2)]
  let ?new = "if n = 0 \<or> name = [] then [] else [(name, n)]"
  show m: "mset (dir_entries (append_dir_entry (new_entry n name) bs)) = mset (?new @ dir_entries bs)"
    using app(2) by (simp add: en(3))
  have "mset (map fst (dir_entries (append_dir_entry (new_entry n name) bs))) = mset (map fst (?new @ dir_entries bs))"
    using arg_cong [OF m, of "image_mset fst"] by (simp add: mset_map)
  moreover have "distinct (map fst (?new @ dir_entries bs))" using assms(1,6) by (auto simp: entries_ok_def)
  ultimately have "distinct (map fst (dir_entries (append_dir_entry (new_entry n name) bs)))"
    using mset_eq_imp_distinct_iff by blast
  moreover have "set (dir_entries (append_dir_entry (new_entry n name) bs)) = set (?new @ dir_entries bs)"
    using m by (rule mset_eq_setD)
  ultimately show "entries_ok sb (append_dir_entry (new_entry n name) bs)"
    using assms(1,2) app(1) by (auto simp: entries_ok_def split: if_splits)
qed

lemma handle_okE:
  assumes "handle_ok sb h"
  obtains r v where "i_private h = Some r" "i_num h = r_num r" "sb_inodes sb (r_num r) = Some v" "r_blocks v = r_blocks r"
  using assms by (auto simp: handle_ok_def split: option.splits)

lemma handle_ok_from: "sb_inodes sb (r_num r) = Some v \<Longrightarrow> r_blocks v = r_blocks r \<Longrightarrow> handle_ok sb (from_Inode w r)"
  by (simp add: handle_ok_def from_Inode_def)

lemma add_dir_entry_cases:
  assumes "i_private par = Some ip" and "dir_ok (vecs w (r_blocks ip))" and "i_private dst = Some d0"
    and "add_dir_entry now dst par (Normal name) inh w = Ret (r, w')"
  obtains e where "r = Err e" "w' = w"
  | d p where "r = Ok (d, p)" "r_num d = r_num d0" "r_blocks d = r_blocks d0" "r_num p = r_num ip" "r_blocks p = r_blocks ip"
      "name \<notin> fst ` set (dir_entries (vecs w (r_blocks ip)))" "length name \<le> NAME_SIZE"
      "w' = w\<lparr>vecs := (vecs w)(r_blocks ip := append_dir_entry (new_entry (i_num dst) name) (vecs w (r_blocks ip)))\<rparr>"
proof -
  note law = add_dir_entry_law [OF assms(1,2), of now dst name inh]
  consider (dir) "i_mode par \<noteq> DIRECTORY \<or> r_mode ip \<noteq> DIRECTORY"
    | (ex) "i_mode par = DIRECTORY" "r_mode ip = DIRECTORY" "name \<in> fst ` set (dir_entries (vecs w (r_blocks ip)))"
    | (new) "i_mode par = DIRECTORY" "r_mode ip = DIRECTORY" "name \<notin> fst ` set (dir_entries (vecs w (r_blocks ip)))" by blast
  then show thesis
  proof cases
    case dir
    with law assms(4) have "r = Err NotDirectory" "w' = w" by (metis (no_types, lifting) Pair_inject outcome.inject)+
    then show thesis by (rule that(1))
  next
    case ex
    with law assms(4) have "r = Err Exists" "w' = w" by simp_all
    then show thesis by (rule that(1))
  next
    case new
    show thesis
    proof (cases "NAME_SIZE < length name")
      case True
      with new law assms(3,4) show thesis by simp
    next
      case False
      define d where "d = (if inh then d0\<lparr>r_permission := r_permission ip\<rparr> else d0)\<lparr>r_last_modification := now, r_last_access := now\<rparr>"
      define p where "p = ip\<lparr>r_last_modification := now, r_last_access := now\<rparr>"
      have "r = Ok (d, p)"
        "w' = w\<lparr>vecs := (vecs w)(r_blocks ip := append_dir_entry (new_entry (i_num dst) name) (vecs w (r_blocks ip)))\<rparr>"
        using False new law assms(3,4) by (simp_all add: d_def p_def)
      with False new(3) show thesis by (intro that(2) [of d p]) (simp_all add: d_def p_def)
    qed
  qed
qed

text \<open>What an added entry changes: the blocks of the parent, and only those.\<close>

lemma add_dir_entry_keeps:
  assumes "sb_ok sb w" and "\<forall>a. entries_ok sb (vecs w a)" and "handle_ok sb dst" and "handle_ok sb par" and "comp_ok cp"
    and "add_dir_entry now dst par cp inh w = Ret (r, w')"
  shows "sb_ok sb w'" and "\<forall>a. entries_ok sb (vecs w' a)"
    and "\<And>d p. r = Ok (d, p) \<Longrightarrow> r_num d = i_num dst \<and> i_private dst \<noteq> None \<and> r_blocks d = r_blocks (the (i_private dst)) \<and>
      r_num p = i_num par \<and> i_private par \<noteq> None \<and> r_blocks p = r_blocks (the (i_private par))"
proof -
  obtain rp vp where par: "i_private par = Some rp" "i_num par = r_num rp" by (rule handle_okE [OF assms(4)])
  obtain rd vd where dst: "i_private dst = Some rd" "i_num dst = r_num rd" "sb_inodes sb (r_num rd) = Some vd"
    by (rule handle_okE [OF assms(3)])
  have ok: "dir_ok (vecs w (r_blocks rp))" "entries_ok sb (vecs w (r_blocks rp))" using assms(2) by (auto simp: entries_ok_def)
  have num: "r_num rd < u64_range" using assms(1) dst(3) by (fastforce simp: sb_ok_def)
  have "sb_ok sb w' \<and> (\<forall>a. entries_ok sb (vecs w' a)) \<and> (\<forall>d p. r = Ok (d, p) \<longrightarrow> r_num d = i_num dst \<and> r_blocks d = r_blocks rd \<and>
      r_num p = i_num par \<and> r_blocks p = r_blocks rp)"
  proof (cases cp)
    case (Normal name)
    have add: "add_dir_entry now dst par (Normal name) inh w = Ret (r, w')" using assms(6) Normal by simp
    show ?thesis
    proof (cases rule: add_dir_entry_cases [OF par(1) ok(1) dst(1) add])
      case (1 e)
      with assms(1,2) show ?thesis by simp
    next
      case (2 d p)
      have "valid_utf8 name" using assms(5) Normal by (simp add: comp_ok_def)
      from entries_ok_append(1) [OF ok(2) dst(3) num 2(7) this 2(6)] assms(1,2) 2(8) dst(2)
      have "sb_ok sb w'" "\<forall>a. entries_ok sb (vecs w' a)" by (simp_all add: sb_ok_def)
      with 2(1-5) dst(2) par(2) show ?thesis by simp
    qed
  qed (use assms(1,2,6) in \<open>auto simp: add_dir_entry_def\<close>)
  then show "sb_ok sb w'" "\<forall>a. entries_ok sb (vecs w' a)"
    "\<And>d p. r = Ok (d, p) \<Longrightarrow> r_num d = i_num dst \<and> i_private dst \<noteq> None \<and> r_blocks d = r_blocks (the (i_private dst)) \<and>
      r_num p = i_num par \<and> i_private par \<noteq> None \<and> r_blocks p = r_blocks (the (i_private par))"
    using dst par by auto
qed

lemma handle_ok_update: "handle_ok sb h \<Longrightarrow> r_num r = i_num h \<Longrightarrow> i_private h \<noteq> None \<Longrightarrow>
    r_blocks r = r_blocks (the (i_private h)) \<Longrightarrow> handle_ok sb (from_Inode w r) \<and> handle_ok sb (h\<lparr>i_private := Some r\<rparr>)"
  by (auto simp: handle_ok_def from_Inode_def split: option.splits)

lemma from_Inode_mode: "handle_ok sb (from_Inode w (r\<lparr>r_mode := m\<rparr>)) = handle_ok sb (from_Inode w r)"
  "handle_ok sb (h\<lparr>i_private := Some (r\<lparr>r_mode := m\<rparr>)\<rparr>) = handle_ok sb (h\<lparr>i_private := Some r\<rparr>)"
  by (simp_all add: handle_ok_def from_Inode_def)

lemma entry_op_keeps_gen:
  assumes "sb_ok sb w" and "\<forall>a. entries_ok sb (vecs w a)" and "handle_ok sb dst" and "handle_ok sb par" and "comp_ok cp"
    and eq: "obind (add_dir_entry now dst par cp inh w) (\<lambda>(r, w).
      case r of Err e \<Rightarrow> Ret (Err e, dst, par, w) | Ok (x, y) \<Rightarrow> g x y w) = Ret (r, d, p, w')"
    and g: "\<And>x y w1. g x y w1 = Ret (r, d, p, w') \<Longrightarrow> w' = w1 \<and>
      (\<exists>m. d = from_Inode w1 (x\<lparr>r_mode := m\<rparr>) \<or> d = dst\<lparr>i_private := Some (x\<lparr>r_mode := m\<rparr>)\<rparr> \<or> d = from_Inode w1 x) \<and>
      (p = from_Inode w1 y \<or> p = par\<lparr>i_private := Some y\<rparr>)"
  shows "sb_ok sb w' \<and> (\<forall>a. entries_ok sb (vecs w' a)) \<and> handle_ok sb d \<and> handle_ok sb p"
proof -
  obtain rr w1 where add: "add_dir_entry now dst par cp inh w = Ret (rr, w1)"
    and res: "(case rr of Err e \<Rightarrow> Ret (Err e, dst, par, w1) | Ok (x, y) \<Rightarrow> g x y w1) = Ret (r, d, p, w')"
    using eq by (auto simp: obind_eq_Ret)
  note keeps = add_dir_entry_keeps [OF assms(1-5) add]
  show ?thesis
  proof (cases rr)
    case (Err e)
    with res keeps(1,2) assms(3,4) show ?thesis by simp
  next
    case (Ok xy)
    then obtain x y where xy: "rr = Ok (x, y)" by (cases xy) simp
    from g [of x y w1] res xy obtain m where dp: "w' = w1"
      "d = from_Inode w1 (x\<lparr>r_mode := m\<rparr>) \<or> d = dst\<lparr>i_private := Some (x\<lparr>r_mode := m\<rparr>)\<rparr> \<or> d = from_Inode w1 x"
      "p = from_Inode w1 y \<or> p = par\<lparr>i_private := Some y\<rparr>" by auto
    note k = keeps(3) [OF xy]
    have "handle_ok sb (from_Inode w1 x) \<and> handle_ok sb (dst\<lparr>i_private := Some x\<rparr>)"
      using k by (intro handle_ok_update [OF assms(3)]) simp_all
    moreover have "handle_ok sb (from_Inode w1 y) \<and> handle_ok sb (par\<lparr>i_private := Some y\<rparr>)"
      using k by (intro handle_ok_update [OF assms(4)]) simp_all
    ultimately show ?thesis using keeps(1,2) dp by (auto simp: from_Inode_mode)
  qed
qed

lemma entry_op_keeps:
  assumes "f \<in> entry_ops" and "f now dst par cp w = Ret (r, d, p, w')"
    and "sb_ok sb w" and "\<forall>a. entries_ok sb (vecs w a)" and "handle_ok sb dst" and "handle_ok sb par" and "comp_ok cp"
  shows "sb_ok sb w' \<and> (\<forall>a. entries_ok sb (vecs w' a)) \<and> handle_ok sb d \<and> handle_ok sb p"
proof -
  note gen = entry_op_keeps_gen [OF assms(3-7)]
  consider "f = Ramfs_create" | "f = Ramfs_link" | "f = Ramfs_mkdir" | src where "f = (\<lambda>now dst. Ramfs_symlink now dst src)"
    using assms(1) by (auto simp: entry_ops_def)
  then show ?thesis
  proof cases
    case 1
    show ?thesis by (rule gen [OF assms(2) [unfolded 1 Ramfs_create_def]]) auto
  next
    case 2
    show ?thesis by (rule gen [OF assms(2) [unfolded 2 Ramfs_link_def]]) auto
  next
    case 3
    show ?thesis by (rule gen [OF assms(2) [unfolded 3 Ramfs_mkdir_def]]) auto
  next
    case 4
    show ?thesis by (rule gen [OF assms(2) [unfolded 4 Ramfs_symlink_def Let_def]]) (auto split: if_splits)
  qed
qed

lemma entries_ok_mono: "entries_ok sb bs \<Longrightarrow> dom (sb_inodes sb) \<subseteq> dom (sb_inodes sb') \<Longrightarrow> entries_ok sb' bs"
  by (fastforce simp: entries_ok_def)

lemma entries_ok_Nil: "entries_ok sb []"
  by (simp add: entries_ok_def dir_ok_def dir_entries_def map_filter_def)

lemma create_inode_law:
  assumes "sb_count sb + 1 < u64_range" and "create_inode pr now sb w = Ret (r, sb', w')"
  obtains v where "r = Ok (from_Inode w' v)" "r_num v = sb_count sb" "r_blocks v = next_vec w"
    "sb' = sb\<lparr>sb_count := sb_count sb + 1, sb_inodes := (sb_inodes sb)(sb_count sb \<mapsto> v)\<rparr>"
    "w' = w\<lparr>vecs := (vecs w)(next_vec w := []), next_vec := Suc (next_vec w)\<rparr>" "r_mode v = 0"
proof -
  from assms show thesis
    by (intro that [of "\<lparr>r_mode = 0, r_permission = 0, r_user_id = 0, r_group_id = 0, r_num = sb_count sb, r_size = 0, r_nlink = 0,
       r_blocks = next_vec w, r_last_access = now, r_creation_time = now, r_last_modification = now\<rparr>"])
      (auto simp: create_inode_def RInode_default_def Let_def add64_def)
qed

lemma sb_ok_new:
  assumes "sb_ok sb w" and "sb_count sb + 1 < u64_range" and "r_num v = sb_count sb" and "r_blocks v = next_vec w"
  shows "sb_ok (sb\<lparr>sb_count := sb_count sb + 1, sb_inodes := (sb_inodes sb)(sb_count sb \<mapsto> v)\<rparr>)
    (w\<lparr>vecs := (vecs w)(next_vec w := []), next_vec := Suc (next_vec w)\<rparr>)"
  using assms by (fastforce simp: sb_ok_def split: if_splits)

lemma handle_ok_new: "handle_ok sb h \<Longrightarrow> sb_ok sb w \<Longrightarrow>
    handle_ok (sb\<lparr>sb_count := c, sb_inodes := (sb_inodes sb)(sb_count sb \<mapsto> v)\<rparr>) h"
  by (fastforce simp: handle_ok_def sb_ok_def split: option.splits)

lemma write_inode_keeps:
  assumes "write_inode h sb = (r, sb')" and "sb_ok sb w" and "handle_ok sb h"
  shows "sb_ok sb' w" and "dom (sb_inodes sb') = dom (sb_inodes sb)" and "handle_ok sb k \<Longrightarrow> handle_ok sb' k"
proof -
  obtain q v where h: "i_private h = Some q" "sb_inodes sb (r_num q) = Some v" "r_blocks v = r_blocks q"
    by (rule handle_okE [OF assms(3)])
  have sb': "sb' = sb\<lparr>sb_inodes := (sb_inodes sb)(r_num q \<mapsto> q)\<rparr>" using assms(1) h by (simp add: write_inode_def)
  have blk: "map_option r_blocks (sb_inodes sb' n) = map_option r_blocks (sb_inodes sb n)" for n using h sb' by simp
  show "dom (sb_inodes sb') = dom (sb_inodes sb)" using h sb' by auto
  show "handle_ok sb k \<Longrightarrow> handle_ok sb' k" by (simp add: handle_ok_def blk split: option.splits)
  have "r_num u = n \<and> n < sb_count sb \<and> r_blocks u < next_vec w" if "sb_inodes sb' n = Some u" for n u
  proof (cases "n = r_num q")
    case True
    with that sb' have "u = q" by simp
    moreover have "r_num q < sb_count sb" "r_blocks v < next_vec w" using assms(2) h(2) unfolding sb_ok_def by blast+
    ultimately show ?thesis using True h(3) by simp
  next
    case False
    with that sb' have "sb_inodes sb n = Some u" by simp
    with assms(2) show ?thesis unfolding sb_ok_def by blast
  qed
  moreover have "m = n" if m: "sb_inodes sb' m = Some u" and n: "sb_inodes sb' n = Some u'" and eq: "r_blocks u = r_blocks u'" for m n u u'
  proof -
    obtain x y where "sb_inodes sb m = Some x" "r_blocks x = r_blocks u" "sb_inodes sb n = Some y" "r_blocks y = r_blocks u'"
      using blk [of m] blk [of n] m n by (cases "sb_inodes sb m"; cases "sb_inodes sb n") auto
    with eq assms(2) show ?thesis unfolding sb_ok_def by metis
  qed
  moreover have cnt: "sb_count sb' = sb_count sb" "sb_count sb < u64_range"
    using assms(2) sb' by (simp_all add: sb_ok_def)
  ultimately show "sb_ok sb' w" unfolding sb_ok_def cnt(1) by blast
qed

lemma ramfs_step_keeps:
  assumes "ramfs_step pr s t" and "ramfs_ok s"
  shows "ramfs_ok t"
  using assms(1)
proof (cases rule: ramfs_step.cases)
  case (create_inode now h sb' w')
  obtain v where v: "h = from_Inode w' v" "r_num v = sb_count (rf_sb s)" "r_blocks v = next_vec (rf_store s)"
    "sb' = (rf_sb s)\<lparr>sb_count := sb_count (rf_sb s) + 1, sb_inodes := (sb_inodes (rf_sb s))(sb_count (rf_sb s) \<mapsto> v)\<rparr>"
    "w' = (rf_store s)\<lparr>vecs := (vecs (rf_store s))(next_vec (rf_store s) := []), next_vec := Suc (next_vec (rf_store s))\<rparr>"
    by (rule create_inode_law [OF create_inode(3,2)]) simp
  have "sb_ok sb' w'" unfolding v(4,5) using assms(2) create_inode(3) v(2,3) by (intro sb_ok_new) (simp_all add: ramfs_ok_def)
  moreover have "entries_ok sb' (vecs w' a)" for a
  proof (cases "a = next_vec (rf_store s)")
    case False
    with assms(2) v(5) have "entries_ok (rf_sb s) (vecs w' a)" by (simp add: ramfs_ok_def)
    then show ?thesis by (rule entries_ok_mono) (auto simp: v(4))
  qed (simp add: v(5) entries_ok_Nil)
  moreover have "handle_ok sb' h" unfolding v(1) by (rule handle_ok_from [of _ _ v]) (simp_all add: v)
  moreover have "handle_ok sb' k" if "k \<in> set (rf_inodes s)" for k
    unfolding v(4) using that assms(2) by (intro handle_ok_new) (auto simp: ramfs_ok_def)
  ultimately show ?thesis by (auto simp: create_inode(1) ramfs_ok_def)
next
  case (get_inode n h)
  then obtain v where v: "sb_inodes (rf_sb s) n = Some v" "h = from_Inode (rf_store s) v" by (auto simp: get_inode_def)
  then have "handle_ok (rf_sb s) h" using assms(2) by (auto simp: ramfs_ok_def sb_ok_def intro: handle_ok_from)
  with assms(2) get_inode(1) show ?thesis by (auto simp: ramfs_ok_def)
next
  case (write_inode i r sb')
  have h: "sb_ok (rf_sb s) (rf_store s)" "handle_ok (rf_sb s) (rf_inodes s ! i)"
    using assms(2) write_inode(2) by (simp_all add: ramfs_ok_def)
  note k = write_inode_keeps [OF write_inode(3) h]
  have "entries_ok sb' (vecs (rf_store s) a)" for a
    by (rule entries_ok_mono [of "rf_sb s"]) (use assms(2) in \<open>simp add: ramfs_ok_def\<close>, simp add: k(2))
  moreover have "\<forall>h \<in> set (rf_inodes s). handle_ok sb' h" using assms(2) k(3) by (simp add: ramfs_ok_def)
  ultimately show ?thesis using k(1) by (simp add: write_inode(1) ramfs_ok_def)
next
  case (entry f i j cp now r d p w')
  have h: "handle_ok (rf_sb s) (rf_inodes s ! i)" "handle_ok (rf_sb s) (rf_inodes s ! j)"
    using assms(2) entry(3,4) by (simp_all add: ramfs_ok_def)
  have k: "sb_ok (rf_sb s) w' \<and> (\<forall>a. entries_ok (rf_sb s) (vecs w' a)) \<and> handle_ok (rf_sb s) d \<and> handle_ok (rf_sb s) p"
    using assms(2) by (intro entry_op_keeps [OF entry(2,7) _ _ h entry(6)]) (simp_all add: ramfs_ok_def)
  have "set ((rf_inodes s)[i := d, j := p]) \<subseteq> set (rf_inodes s) \<union> {d, p}"
    using set_update_subset_insert [of "(rf_inodes s)[i := d]" j p] set_update_subset_insert [of "rf_inodes s" i d] by auto
  with k assms(2) show ?thesis by (auto simp: entry(1) ramfs_ok_def)
qed

lemma ramfs_run_keeps: "ramfs_run pr s t \<Longrightarrow> ramfs_ok s \<Longrightarrow> ramfs_ok t"
  by (induction rule: ramfs_run.induct) (auto intro: ramfs_step_keeps)

lemma init_super_ok:
  assumes "init_super pr now FileSystem_new empty_store = Ret (r, sb, w)"
  shows "r = Ok () \<and> ramfs_ok \<lparr>rf_sb = sb, rf_store = w, rf_inodes = []\<rparr>"
  using assms
  by (auto simp: init_super_def create_inode_def FileSystem_new_def RInode_default_def empty_store_def Let_def add64_def
      from_Inode_def ramfs_ok_def sb_ok_def entries_ok_Nil split: if_splits)

subsection \<open>Properties\<close>

text \<open>The three operations that add an entry and return do the same work around \<open>add_dir_entry\<close>.\<close>

lemma entry_op_shape:
  assumes "f \<in> {Ramfs_create, Ramfs_link, Ramfs_mkdir}"
  obtains inh g where "\<And>now dst par cp w. f now dst par cp w = obind (add_dir_entry now dst par cp inh w) (\<lambda>(r, w).
      case r of Err e \<Rightarrow> Ret (Err e, dst, par, w) | Ok (x, y) \<Rightarrow> Ret (Ok (), from_Inode w (g x), from_Inode w y, w))"
proof -
  consider "f = Ramfs_create" | "f = Ramfs_link" | "f = Ramfs_mkdir" using assms by blast
  then show thesis
  proof cases
    case 1
    show thesis by (rule that [of True "\<lambda>x. x\<lparr>r_mode := REGULAR_FILE\<rparr>"]) (simp add: 1 Ramfs_create_def)
  next
    case 2
    show thesis by (rule that [of False "\<lambda>x. x"]) (simp add: 2 Ramfs_link_def)
  next
    case 3
    show thesis by (rule that [of True "\<lambda>x. x\<lparr>r_mode := DIRECTORY\<rparr>"]) (simp add: 3 Ramfs_mkdir_def)
  qed
qed

text \<open>A directory as a finite map from names to inode numbers.\<close>

definition dir_map :: "string list \<Rightarrow> string \<rightharpoonup> nat" where
  "dir_map bs = map_of (dir_entries bs)"

lemma dir_map_append:
  assumes "entries_ok sb bs" and "sb_inodes sb n = Some v" and "n < u64_range" and "length name \<le> NAME_SIZE"
    and "valid_utf8 name" and "name \<notin> fst ` set (dir_entries bs)" and "n \<noteq> 0" and "name \<noteq> []"
  shows "dir_map (append_dir_entry (new_entry n name) bs) = (dir_map bs)(name \<mapsto> n)"
proof -
  let ?bs = "append_dir_entry (new_entry n name) bs"
  note app = entries_ok_append [OF assms(1-6)]
  have "distinct (map fst (dir_entries ?bs))" using app(1) by (simp add: entries_ok_def)
  moreover have "distinct (map fst ((name, n) # dir_entries bs))" using assms(1,6) by (simp add: entries_ok_def)
  moreover have "set (dir_entries ?bs) = set ((name, n) # dir_entries bs)"
    using app(2) assms(7,8) by (intro mset_eq_setD) simp
  ultimately have "map_of (dir_entries ?bs) = map_of ((name, n) # dir_entries bs)" by (rule map_of_inject_set [THEN iffD2])
  then show ?thesis by (simp add: dir_map_def)
qed

text \<open>A small file system: the root directory and one inode that no directory names yet.\<close>

definition fresh_inode :: "nat \<Rightarrow> nat \<Rightarrow> Mode \<Rightarrow> RInode" where
  "fresh_inode now n m = \<lparr>r_mode = m, r_permission = 0, r_user_id = 0, r_group_id = 0, r_num = n, r_size = 0, r_nlink = 0,
     r_blocks = n, r_last_access = now, r_creation_time = now, r_last_modification = now\<rparr>"

definition demo_inode :: "nat \<Rightarrow> Mode \<Rightarrow> RInode" where
  "demo_inode n m = fresh_inode 7 n m"

definition demo_store :: "nat \<Rightarrow> store" where
  "demo_store n = \<lparr>vecs = (\<lambda>_. []), next_vec = n\<rparr>"

definition demo_sb :: SuperBlock where
  "demo_sb = \<lparr>sb_root = 0, sb_count = 1, sb_inodes = [0 \<mapsto> demo_inode 0 DIRECTORY]\<rparr>"

definition demo_fs :: ramfs where
  "demo_fs = \<lparr>rf_sb = \<lparr>sb_root = 0, sb_count = 2, sb_inodes = [0 \<mapsto> demo_inode 0 DIRECTORY, 1 \<mapsto> demo_inode 1 0]\<rparr>,
     rf_store = demo_store 2,
     rf_inodes = [from_Inode (demo_store 2) (demo_inode 1 0), from_Inode (demo_store 2) (demo_inode 0 DIRECTORY)]\<rparr>"

lemma init_super_new:
  "init_super pr now FileSystem_new empty_store =
     Ret (Ok (), \<lparr>sb_root = 0, sb_count = 1, sb_inodes = [0 \<mapsto> fresh_inode now 0 DIRECTORY]\<rparr>, demo_store 1)"
  by (simp add: init_super_def create_inode_def FileSystem_new_def RInode_default_def empty_store_def Let_def add64_def
      from_Inode_def demo_store_def fresh_inode_def fun_upd_idem)

lemma demo_init: "init_super Dev 7 FileSystem_new empty_store = Ret (Ok (), demo_sb, demo_store 1)"
  by (simp add: init_super_new demo_sb_def demo_inode_def)

lemma demo_run: "ramfs_run Dev \<lparr>rf_sb = demo_sb, rf_store = demo_store 1, rf_inodes = []\<rparr> demo_fs"
proof -
  let ?s = "\<lparr>rf_sb = demo_sb, rf_store = demo_store 1, rf_inodes = []\<rparr>"
  let ?t = "\<lparr>rf_sb = rf_sb demo_fs, rf_store = demo_store 2, rf_inodes = [from_Inode (demo_store 2) (demo_inode 1 0)]\<rparr>"
  have "create_inode Dev 7 demo_sb (demo_store 1) = Ret (Ok (from_Inode (demo_store 2) (demo_inode 1 0)), rf_sb demo_fs, demo_store 2)"
    by (simp add: create_inode_def RInode_default_def Let_def add64_def demo_sb_def demo_fs_def demo_store_def demo_inode_def fresh_inode_def
        fun_upd_idem numeral_2_eq_2)
  then have "ramfs_step Dev ?s ?t"
    using ramfs_step.create_inode [of Dev 7 ?s "from_Inode (demo_store 2) (demo_inode 1 0)" "rf_sb demo_fs" "demo_store 2"]
    by (simp add: demo_sb_def)
  moreover have "ramfs_step Dev ?t demo_fs"
    using ramfs_step.get_inode [of 0 ?t "from_Inode (demo_store 2) (demo_inode 0 DIRECTORY)" Dev]
    by (simp add: get_inode_def demo_fs_def)
  ultimately show ?thesis by (blast intro: ramfs_run.intros)
qed

lemma demo_fs_ok: "ramfs_ok demo_fs"
  using ramfs_run_keeps [OF demo_run] init_super_ok [OF demo_init] by simp

lemma demo_handles:
  "rf_inodes demo_fs ! 0 \<in> set (rf_inodes demo_fs)" "rf_inodes demo_fs ! 1 \<in> set (rf_inodes demo_fs)"
  "i_private (rf_inodes demo_fs ! 0) = Some (demo_inode 1 0)"
  "i_private (rf_inodes demo_fs ! 1) = Some (demo_inode 0 DIRECTORY)"
  "i_num (rf_inodes demo_fs ! 0) = 1" "i_mode (rf_inodes demo_fs ! 0) = 0" "i_mode (rf_inodes demo_fs ! 1) = DIRECTORY"
  "r_mode (demo_inode 0 DIRECTORY) = DIRECTORY" "r_blocks (demo_inode 0 DIRECTORY) = 0"
  "dir_map (vecs (rf_store demo_fs) 0) = Map.empty"
  by (simp_all add: demo_fs_def from_Inode_def demo_inode_def fresh_inode_def demo_store_def dir_map_def dir_entries_def map_filter_def)

lemma demo_create:
  "\<exists>d p w'. Ramfs_create 9 (rf_inodes demo_fs ! 0) (rf_inodes demo_fs ! 1) (Normal ''a'') (rf_store demo_fs) = Ret (Ok (), d, p, w') \<and>
    Ramfs_list w' p = Ok (vecs w' 0, DirIterator_new) \<and> vecs w' 0 \<noteq> []"
  using add_dir_entry_law [of "from_Inode (demo_store 2) (demo_inode 0 DIRECTORY)" "demo_inode 0 DIRECTORY" "demo_store 2" 9
      "from_Inode (demo_store 2) (demo_inode 1 0)" "''a''" True]
  by (simp add: Ramfs_create_def demo_fs_def from_Inode_def demo_store_def demo_inode_def fresh_inode_def dir_ok_def dir_entries_def map_filter_def
      NAME_SIZE_def Ramfs_list_def append_dir_entry_def slots_def)

text \<open>
  C23: Over any history that starts from a fresh file system, listing a directory never panics and always
  ends; the names it gives are pairwise different, and every inode number it gives is one the
  superblock knows.
\<close>

theorem ramfs_listing_safe:
  assumes "init_super pr now FileSystem_new empty_store = Ret (r, sb, w)"
    and "ramfs_run pr \<lparr>rf_sb = sb, rf_store = w, rf_inodes = []\<rparr> t"
    and "h \<in> set (rf_inodes t)" and "Ramfs_list (rf_store t) h = Ok (bs, it)"
  shows "\<exists>es. loop_result (iter_collect (DirIterator_next bs) it []) = Ret es \<and> distinct (map fst es) \<and>
    (\<forall>(p, n) \<in> set es. \<exists>v. get_inode n (rf_sb t) (rf_store t) = Ok (Some v))"
proof -
  have ok: "ramfs_ok t" using init_super_ok [OF assms(1)] by (intro ramfs_run_keeps [OF assms(2)]) simp
  obtain i where i: "i_private h = Some i" "bs = vecs (rf_store t) (r_blocks i)" "it = DirIterator_new"
    using assms(4) by (auto simp: Ramfs_list_def split: option.splits if_splits)
  then have e: "entries_ok (rf_sb t) bs" using ok by (simp add: ramfs_ok_def)
  then have "iter_collect (DirIterator_next bs) it [] = Some (Ret (dir_entries bs))"
    using dir.iter_collect_law [of bs it "[]"] i(3) by (simp add: entries_ok_def rest_new)
  with e show ?thesis by (fastforce simp: entries_ok_def get_inode_def)
qed

theorem ramfs_listing_safe_witness:
  "\<exists>t h bs it es. ramfs_run Dev \<lparr>rf_sb = demo_sb, rf_store = demo_store 1, rf_inodes = []\<rparr> t \<and>
    Ramfs_list (rf_store t) h = Ok (bs, it) \<and> bs \<noteq> [] \<and>
    loop_result (iter_collect (DirIterator_next bs) it []) = Ret es \<and> distinct (map fst es)"
proof -
  obtain d p w' where c: "Ramfs_create 9 (rf_inodes demo_fs ! 0) (rf_inodes demo_fs ! 1) (Normal ''a'') (rf_store demo_fs) =
      Ret (Ok (), d, p, w')" "Ramfs_list w' p = Ok (vecs w' 0, DirIterator_new)" "vecs w' 0 \<noteq> []"
    using demo_create by blast
  let ?t = "demo_fs\<lparr>rf_store := w', rf_inodes := (rf_inodes demo_fs)[0 := d, 1 := p]\<rparr>"
  have len: "length (rf_inodes demo_fs) = 2" by (simp add: demo_fs_def)
  have v: "valid_utf8 ''a''" by code_simp
  have "ramfs_step Dev demo_fs ?t"
    using ramfs_step.entry [where f = Ramfs_create, OF _ _ _ _ _ c(1), of Dev] len v by (simp add: entry_ops_def comp_ok_def)
  with demo_run have run: "ramfs_run Dev \<lparr>rf_sb = demo_sb, rf_store = demo_store 1, rf_inodes = []\<rparr> ?t" by (rule ramfs_run.ramfs_more)
  have "p \<in> set (rf_inodes ?t)" using len by (simp add: set_update_memI)
  moreover have "Ramfs_list (rf_store ?t) p = Ok (vecs w' 0, DirIterator_new)" using c(2) by simp
  ultimately show ?thesis using ramfs_listing_safe [OF demo_init run] run c(3) by blast
qed



text \<open>
  C25: The outcome of \<open>create\<close>, \<open>link\<close> and \<open>mkdir\<close> on every branch: the three errors leave everything as it
  was, a name of more than 247 bytes panics, and otherwise the call succeeds.
\<close>

theorem entry_op_outcome:
  assumes "ramfs_ok s" and "dst \<in> set (rf_inodes s)" and "par \<in> set (rf_inodes s)" and "w = rf_store s"
    and "f \<in> {Ramfs_create, Ramfs_link, Ramfs_mkdir}" and "i_private par = Some ip"
  shows "case cp of
      Normal name \<Rightarrow>
        if i_mode par \<noteq> DIRECTORY \<or> r_mode ip \<noteq> DIRECTORY then f now dst par cp w = Ret (Err NotDirectory, dst, par, w)
        else if name \<in> dom (dir_map (vecs w (r_blocks ip))) then f now dst par cp w = Ret (Err Exists, dst, par, w)
        else if 247 < length name then f now dst par cp w = Panic
        else \<exists>d p w'. f now dst par cp w = Ret (Ok (), d, p, w')
    | _ \<Rightarrow> f now dst par cp w = Ret (Err BadPath, dst, par, w)"
proof -
  have ok: "dir_ok (vecs w (r_blocks ip))" "handle_ok (rf_sb s) dst" using assms(1,2,4) by (auto simp: ramfs_ok_def entries_ok_def)
  obtain rd where dst: "i_private dst = Some rd" by (rule handle_okE [OF ok(2)])
  obtain inh g where f: "\<And>now dst par cp w. f now dst par cp w = obind (add_dir_entry now dst par cp inh w) (\<lambda>(r, w).
      case r of Err e \<Rightarrow> Ret (Err e, dst, par, w) | Ok (x, y) \<Rightarrow> Ret (Ok (), from_Inode w (g x), from_Inode w y, w))"
    using entry_op_shape [OF assms(5)] by blast
  show ?thesis
  proof (cases cp)
    case (Normal name)
    note law = add_dir_entry_law [OF assms(6) ok(1), of now dst name inh]
    consider "i_mode par \<noteq> DIRECTORY \<or> r_mode ip \<noteq> DIRECTORY" | "i_mode par = DIRECTORY" "r_mode ip = DIRECTORY" by blast
    then show ?thesis
    proof cases
      case 1
      then have "add_dir_entry now dst par cp inh w = Ret (Err NotDirectory, w)" unfolding Normal law by (rule if_P)
      with 1 show ?thesis by (simp add: f Normal)
    next
      case 2
      with Normal law dst f show ?thesis by (simp add: dir_map_def dom_map_of_conv_image_fst NAME_SIZE_def)
    qed
  qed (simp_all add: f add_dir_entry_def)
qed

theorem entry_op_outcome_witness:
  "Ramfs_mkdir 3 (rf_inodes demo_fs ! 0) (rf_inodes demo_fs ! 0) (Normal ''a'') (rf_store demo_fs) =
     Ret (Err NotDirectory, rf_inodes demo_fs ! 0, rf_inodes demo_fs ! 0, rf_store demo_fs) \<and>
   Ramfs_mkdir 3 (rf_inodes demo_fs ! 0) (rf_inodes demo_fs ! 1) (Normal (replicate 248 CHR ''a'')) (rf_store demo_fs) = Panic \<and>
   (\<exists>d p w'. Ramfs_mkdir 3 (rf_inodes demo_fs ! 0) (rf_inodes demo_fs ! 1) (Normal ''a'') (rf_store demo_fs) = Ret (Ok (), d, p, w'))"
proof -
  note out = entry_op_outcome [where f = Ramfs_mkdir, OF demo_fs_ok demo_handles(1) _ refl]
  from out [OF demo_handles(1) _ demo_handles(3), where cp = "Normal ''a''" and now = 3]
    out [OF demo_handles(2) _ demo_handles(4), where cp = "Normal ''a''" and now = 3]
    out [OF demo_handles(2) _ demo_handles(4), where cp = "Normal (replicate 248 CHR ''a'')" and now = 3]
  show ?thesis using demo_handles DIRECTORY_def by simp
qed



text \<open>
  Writing an inode a client holds and reading it back gives that inode, and the other inodes are not
  touched; an inode of another file system is refused.
\<close>

theorem write_get_inode_roundtrip:
  assumes "ramfs_ok s" and "h \<in> set (rf_inodes s)" and "i_private h = Some v"
  shows "\<exists>sb'. write_inode h (rf_sb s) = (Ok (), sb') \<and> get_inode (i_num h) sb' w = Ok (Some (from_Inode w v)) \<and>
    (\<forall>n. n \<noteq> i_num h \<longrightarrow> get_inode n sb' w = get_inode n (rf_sb s) w) \<and>
    write_inode (h\<lparr>i_private := None\<rparr>) sb' = (Err WrongInode, sb')"
proof -
  have "handle_ok (rf_sb s) h" using assms(1,2) by (simp add: ramfs_ok_def)
  then obtain u where "i_num h = r_num v" "sb_inodes (rf_sb s) (r_num v) = Some u"
    using assms(3) by (auto elim: handle_okE)
  with assms(3) show ?thesis by (simp add: write_inode_def get_inode_def)
qed

theorem write_get_inode_roundtrip_witness:
  "\<exists>sb'. write_inode (rf_inodes demo_fs ! 0) (rf_sb demo_fs) = (Ok (), sb') \<and>
    get_inode 1 sb' (demo_store 2) = Ok (Some (from_Inode (demo_store 2) (demo_inode 1 0)))"
  using write_get_inode_roundtrip [OF demo_fs_ok demo_handles(1,3), of "demo_store 2"] demo_handles(5) by auto

text \<open>
  The packed encoding of a directory entry loses nothing, and every block the file system writes is
  read back entry by entry.
\<close>

theorem DirEntry_roundtrip:
  assumes "de_inode e < 2 ^ 64" and "de_length e < 256" and "length (de_name e) = 247"
  shows "from_bytes (to_bytes e) = e \<and> length (to_bytes e) = 256 \<and>
    chunks (hd (append_dir_entry e [])) ! 0 = to_bytes e \<and> length (hd (append_dir_entry e [])) = 4096"
proof -
  have len: "length (to_bytes e) = DIR_ENTRY_SIZE" using assms(3) by (intro length_to_bytes) (simp add: NAME_SIZE_def)
  have "append_dir_entry e [] = [to_bytes e @ zero_bytes (BLOCK_SIZE - DIR_ENTRY_SIZE)]"
    by (simp add: append_dir_entry_def slots_def zero_bytes_def)
  with chunks_new_block [OF len] len from_to_bytes [of e] assms show ?thesis
    by (simp add: zero_bytes_def BLOCK_SIZE_def DIR_ENTRY_SIZE_def)
qed

theorem DirEntry_roundtrip_witness:
  "from_bytes (to_bytes \<lparr>de_inode = 2 ^ 40 + 3, de_length = 1, de_name = replicate 247 CHR ''a''\<rparr>) =
     \<lparr>de_inode = 2 ^ 40 + 3, de_length = 1, de_name = replicate 247 CHR ''a''\<rparr>"
  using DirEntry_roundtrip [of "\<lparr>de_inode = 2 ^ 40 + 3, de_length = 1, de_name = replicate 247 CHR ''a''\<rparr>"] by simp

subsection \<open>File types\<close>

definition file_types :: "Mode set" where
  "file_types = {0, DIRECTORY, REGULAR_FILE, SYMBOLIC_LINK}"

definition typed :: "VInode \<Rightarrow> bool" where
  "typed h \<longleftrightarrow> i_mode h \<in> file_types \<and> (case i_private h of None \<Rightarrow> True | Some r \<Rightarrow> r_mode r \<in> file_types)"

definition ramfs_typed :: "ramfs \<Rightarrow> bool" where
  "ramfs_typed s \<longleftrightarrow> (\<forall>v \<in> ran (sb_inodes (rf_sb s)). r_mode v \<in> file_types) \<and> (\<forall>h \<in> set (rf_inodes s). typed h)"

lemma typed_from [simp]: "typed (from_Inode w r) \<longleftrightarrow> r_mode r \<in> file_types"
  by (simp add: typed_def from_Inode_def)

lemma add_dir_entry_modes:
  assumes "add_dir_entry now dst par cp inh w = Ret (Ok (d, p), w')" and "typed dst" and "typed par"
  shows "r_mode d \<in> file_types \<and> r_mode p \<in> file_types"
  using assms by (auto simp: add_dir_entry_def typed_def Let_def obind_eq_Ret split: Component.splits option.splits result.splits if_splits prod.splits)

lemma entry_op_typed:
  assumes "f \<in> entry_ops" and "f now dst par cp w = Ret (r, d, p, w')" and "typed dst" and "typed par"
  shows "typed d \<and> typed p"
proof -
  have T: "DIRECTORY \<in> file_types" "REGULAR_FILE \<in> file_types" "SYMBOLIC_LINK \<in> file_types" by (simp_all add: file_types_def)
  consider "f \<in> {Ramfs_create, Ramfs_link, Ramfs_mkdir}" | src where "f = (\<lambda>now dst. Ramfs_symlink now dst src)"
    using assms(1) by (auto simp: entry_ops_def)
  then show ?thesis
  proof cases
    case 1
    with assms(2-4) T show ?thesis
      by (auto simp: Ramfs_create_def Ramfs_link_def Ramfs_mkdir_def obind_eq_Ret case_result_Ret
          dest!: add_dir_entry_modes [OF _ assms(3,4)])
  next
    case 2
    with assms(2-4) T show ?thesis
      by (auto simp: Ramfs_symlink_def obind_eq_Ret case_result_Ret Let_def typed_def split: if_splits option.splits
          dest!: add_dir_entry_modes [OF _ assms(3,4)])
  qed
qed

lemma ramfs_step_typed:
  assumes "ramfs_step pr s t" and "ramfs_typed s"
  shows "ramfs_typed t"
  using assms(1)
proof (cases rule: ramfs_step.cases)
  case (create_inode now h sb' w')
  obtain v where "h = from_Inode w' v" "r_mode v = 0"
    "sb' = (rf_sb s)\<lparr>sb_count := sb_count (rf_sb s) + 1, sb_inodes := (sb_inodes (rf_sb s))(sb_count (rf_sb s) \<mapsto> v)\<rparr>"
    by (rule create_inode_law [OF create_inode(3,2)]) simp
  with assms(2) show ?thesis by (auto simp: create_inode(1) ramfs_typed_def file_types_def ran_def split: if_splits)
next
  case (get_inode n h)
  with assms(2) show ?thesis by (auto simp: get_inode_def ramfs_typed_def ran_def)
next
  case (write_inode i r sb')
  with assms(2) have "typed (rf_inodes s ! i)" by (simp add: ramfs_typed_def)
  then have "\<forall>v \<in> ran (sb_inodes sb'). r_mode v \<in> file_types"
    using write_inode(3) assms(2)
    by (auto simp: write_inode_def typed_def [of "rf_inodes s ! i"] ramfs_typed_def ran_def split: option.splits if_splits) blast
  with assms(2) show ?thesis by (simp add: write_inode(1) ramfs_typed_def)
next
  case (entry f i j cp now r d p w')
  with assms(2) have "typed d \<and> typed p" by (intro entry_op_typed [OF entry(2,7)]) (simp_all add: ramfs_typed_def)
  moreover have "set ((rf_inodes s)[i := d, j := p]) \<subseteq> set (rf_inodes s) \<union> {d, p}"
    using set_update_subset_insert [of "(rf_inodes s)[i := d]" j p] set_update_subset_insert [of "rf_inodes s" i d] by auto
  ultimately show ?thesis using assms(2) by (auto simp: entry(1) ramfs_typed_def)
qed

lemma ramfs_run_typed: "ramfs_run pr s t \<Longrightarrow> ramfs_typed s \<Longrightarrow> ramfs_typed t"
  by (induction rule: ramfs_run.induct) (auto intro: ramfs_step_typed)

text \<open>
  C40: Over any history that starts from a fresh file system, every inode handed out has exactly one of the
  types directory, regular file and symbolic link, or none yet; so the two tests for a directory in
  the sources, that the flag is set and that the mode is equal to it, agree.
\<close>

theorem ramfs_inodes_typed:
  assumes "init_super pr now FileSystem_new empty_store = Ret (r, sb, w)"
    and "ramfs_run pr \<lparr>rf_sb = sb, rf_store = w, rf_inodes = []\<rparr> s" and "h \<in> set (rf_inodes s)"
  shows "i_mode h \<in> {0, DIRECTORY, REGULAR_FILE, SYMBOLIC_LINK} \<and> (is_dir h \<longleftrightarrow> i_mode h = DIRECTORY)"
proof -
  have "ramfs_typed \<lparr>rf_sb = sb, rf_store = w, rf_inodes = []\<rparr>"
    using assms(1) by (auto simp: init_super_new ramfs_typed_def file_types_def fresh_inode_def)
  then have "i_mode h \<in> {0, DIRECTORY, REGULAR_FILE, SYMBOLIC_LINK}"
    using ramfs_run_typed [OF assms(2)] assms(3) by (auto simp: ramfs_typed_def typed_def file_types_def)
  then show ?thesis by (auto simp: is_dir_def DIRECTORY_def REGULAR_FILE_def SYMBOLIC_LINK_def)
qed

theorem ramfs_inodes_typed_witness:
  "i_mode (rf_inodes demo_fs ! 0) \<in> {0, DIRECTORY, REGULAR_FILE, SYMBOLIC_LINK} \<and>
     (is_dir (rf_inodes demo_fs ! 0) \<longleftrightarrow> i_mode (rf_inodes demo_fs ! 0) = DIRECTORY)"
  by (rule ramfs_inodes_typed [OF demo_init demo_run]) (simp add: demo_fs_def)

end
