(* ===== verification/Dentry.thy ===== *)
theory Dentry
  imports Ramfs_History "HOL-Library.List_Lexorder" "HOL-Library.Char_ord"
begin

text \<open>
  \<open>fs/dentry.rs\<close>, \<open>fs/mod.rs\<close> and \<open>fs/mount.rs\<close>: the directory entry cache and the mount table.  A
  directory entry (\<open>Arc<RwLock<..>>\<close>) is an address into the store of entries, a mounted file system
  (\<open>Arc<dyn FileSystem>\<close>) an address into the table of superblocks.  The order in which the hash map of
  the cache is iterated is a parameter.  The tick counter does not advance during a call.
\<close>

subsection \<open>State\<close>

record DEntryInner =
  d_name :: string
  d_inode :: VInode
  d_fs :: nat

record Mount =
  m_fs :: nat
  m_dentry :: nat
  m_tp :: MountType

record vfs =
  v_fss :: "nat \<Rightarrow> SuperBlock"
  v_store :: store
  v_dentries :: "nat \<Rightarrow> DEntryInner"
  v_next_dentry :: nat
  v_cache :: "string \<rightharpoonup> nat \<times> nat"
  v_mounts :: "Mount list"

text \<open>\<open>hashbrown\<close>: iterating over a map visits each key once, in an order of its own.\<close>

type_synonym hash_order = "(string \<rightharpoonup> nat \<times> nat) \<Rightarrow> string list"

definition hash_doc :: "hash_order \<Rightarrow> bool" where
  "hash_doc order \<longleftrightarrow> (\<forall>m. finite (dom m) \<longrightarrow> distinct (order m) \<and> set (order m) = dom m)"

definition FS_NAME :: string where
  "FS_NAME = ''ramfs''"

definition fs_name :: "vfs \<Rightarrow> nat \<Rightarrow> string" where
  "fs_name s fs = FS_NAME"

definition CACHE_SIZE :: nat where
  "CACHE_SIZE = 32768 div 8"

definition DEntry_new :: "string \<Rightarrow> VInode \<Rightarrow> nat \<Rightarrow> vfs \<Rightarrow> nat \<times> vfs" where
  "DEntry_new name inode fs s =
     (v_next_dentry s,
      s\<lparr>v_dentries := (v_dentries s)(v_next_dentry s := \<lparr>d_name = name, d_inode = inode, d_fs = fs\<rparr>),
        v_next_dentry := Suc (v_next_dentry s)\<rparr>)"

subsection \<open>The cache\<close>

definition is_mount_path :: "vfs \<Rightarrow> string \<Rightarrow> bool" where
  "is_mount_path s p \<longleftrightarrow> list_ex (\<lambda>m. d_name (v_dentries s (m_dentry m)) = p) (v_mounts s)"

definition lru_scan :: "vfs \<Rightarrow> string list \<Rightarrow> string option \<times> nat" where
  "lru_scan s ps =
     foldl (\<lambda>(lru, lru_time) p.
         if is_mount_path s p then (lru, lru_time)
         else case v_cache s p of
             None \<Rightarrow> (lru, lru_time)
           | Some (_, last_access) \<Rightarrow> if last_access < lru_time then (Some p, last_access) else (lru, lru_time))
       (None, u64_range - 1) ps"

definition evict_entry :: "hash_order \<Rightarrow> vfs \<Rightarrow> vfs" where
  "evict_entry order s =
     (case fst (lru_scan s (order (v_cache s))) of
        None \<Rightarrow> s
      | Some p \<Rightarrow> s\<lparr>v_cache := (v_cache s)(p := None)\<rparr>)"

definition cache_insert :: "hash_order \<Rightarrow> nat \<Rightarrow> nat \<Rightarrow> vfs \<Rightarrow> vfs" where
  "cache_insert order now d s =
     (let s = (if CACHE_SIZE \<le> length (order (v_cache s)) then evict_entry order s else s)
      in s\<lparr>v_cache := (v_cache s)(d_name (v_dentries s d) \<mapsto> (d, now))\<rparr>)"

definition DirectoryCache_mount :: "hash_order \<Rightarrow> nat \<Rightarrow> nat \<Rightarrow> vfs \<Rightarrow> vfs" where
  "DirectoryCache_mount order now d s = cache_insert order now d s"

definition get_opt :: "nat \<Rightarrow> string \<Rightarrow> vfs \<Rightarrow> nat option \<times> vfs" where
  "get_opt now p s =
     (case v_cache s p of
        None \<Rightarrow> (None, s)
      | Some (d, _) \<Rightarrow> (Some d, s\<lparr>v_cache := (v_cache s)(p \<mapsto> (d, now))\<rparr>))"

text \<open>
  The components that \<open>fill_path\<close> consumes come from an iterator without effects; the list it still
  delivers stands for it.
\<close>

fun fill_path :: "hash_order \<Rightarrow> nat \<Rightarrow> string \<Rightarrow> nat \<Rightarrow> Component list \<Rightarrow> vfs \<Rightarrow> (nat FSResult \<times> vfs) outcome" where
  "fill_path order now par pdentry [] s = Ret (Ok pdentry, s)"
| "fill_path order now par pdentry (cp # comps) s =
     (let inode = d_inode (v_dentries s pdentry);
          fs = d_fs (v_dentries s pdentry)
      in if \<not> is_dir inode \<and> comps \<noteq> [] then Ret (Err NoEntry, s)
         else case op_list (ramfs_ops now) (v_store s) inode of
             Err e \<Rightarrow> Ret (Err e, s)
           | Ok (bs, iter) \<Rightarrow>
               obind (loop_result (iter_find (DirIterator_next bs) (\<lambda>(p, _). Component_as_ref cp = p) iter)) (\<lambda>found.
               case found of
                 None \<Rightarrow> Ret (Err NoEntry, s)
               | Some (p, inode_n) \<Rightarrow>
                   (let new_path = PathBuf_push par p in
                    case get_inode inode_n (v_fss s fs) (v_store s) of
                      Err e \<Rightarrow> Ret (Err e, s)
                    | Ok None \<Rightarrow> Ret (Err MissingInode, s)
                    | Ok (Some i) \<Rightarrow>
                        (let (entry, s) = DEntry_new new_path i fs s;
                             s = cache_insert order now entry s
                         in fill_path order now new_path entry comps s))))"

definition DirectoryCache_get :: "hash_order \<Rightarrow> profile \<Rightarrow> nat \<Rightarrow> string \<Rightarrow> vfs \<Rightarrow> (nat FSResult \<times> vfs) outcome" where
  "DirectoryCache_get order pr now p s =
     (case get_opt now p s of
        (Some entry, s) \<Rightarrow> Ret (Ok entry, s)
      | (None, s) \<Rightarrow>
          obind (loop_result (iter_find (Ancestors_next pr) (\<lambda>q. v_cache s q \<noteq> None) (Ancestors_new p))) (\<lambda>found.
          case found of
            None \<Rightarrow> Panic
          | Some par \<Rightarrow>
              (case get_opt now par s of
                 (None, s) \<Rightarrow> Panic
               | (Some entry, s) \<Rightarrow>
                   obind (strip_prefix pr p par) (\<lambda>r.
                   case r of
                     Err _ \<Rightarrow> Panic
                   | Ok remaining \<Rightarrow>
                       obind (loop_result (iter_collect (Components_next pr) (Components_new remaining) [])) (\<lambda>comps.
                       fill_path order now par entry comps s)))))"

definition DirectoryCache_reload :: "nat \<Rightarrow> vfs \<Rightarrow> unit FSResult \<times> vfs" where
  "DirectoryCache_reload d s =
     (let e = v_dentries s d in
      case get_inode (i_num (d_inode e)) (v_fss s (d_fs e)) (v_store s) of
        Err er \<Rightarrow> (Err er, s)
      | Ok (Some inode) \<Rightarrow> (Ok (), s\<lparr>v_dentries := (v_dentries s)(d := e\<lparr>d_inode := inode\<rparr>)\<rparr>)
      | Ok None \<Rightarrow> (Ok (), s\<lparr>v_cache := (v_cache s)(d_name e := None)\<rparr>))"

definition DirectoryCache_delete :: "string \<Rightarrow> vfs \<Rightarrow> vfs" where
  "DirectoryCache_delete p s = s\<lparr>v_cache := (v_cache s)(p := None)\<rparr>"

definition cache_retain :: "(DEntryInner \<Rightarrow> bool) \<Rightarrow> vfs \<Rightarrow> vfs" where
  "cache_retain keep s =
     s\<lparr>v_cache := (\<lambda>p. case v_cache s p of
         None \<Rightarrow> None
       | Some (d, t) \<Rightarrow> if keep (v_dentries s d) then Some (d, t) else None)\<rparr>"

definition DirectoryCache_delete_inode :: "nat \<Rightarrow> VInode \<Rightarrow> vfs \<Rightarrow> vfs" where
  "DirectoryCache_delete_inode fs inode s =
     cache_retain (\<lambda>e. fs_name s (d_fs e) \<noteq> fs_name s fs \<or> i_num (d_inode e) \<noteq> i_num inode) s"

definition DirectoryCache_unmount :: "nat \<Rightarrow> vfs \<Rightarrow> vfs" where
  "DirectoryCache_unmount fs s = cache_retain (\<lambda>e. fs_name s (d_fs e) \<noteq> fs_name s fs) s"

subsection \<open>The mount table\<close>

definition mount_nodev :: "profile \<Rightarrow> nat \<Rightarrow> nat \<Rightarrow> vfs \<Rightarrow> (nat FSResult \<times> vfs) outcome" where
  "mount_nodev pr now fs s =
     obind (init_super pr now (v_fss s fs) (v_store s)) (\<lambda>(r, sb, w).
     (let s = s\<lparr>v_fss := (v_fss s)(fs := sb), v_store := w\<rparr>
      in case r of Err e \<Rightarrow> Ret (Err e, s) | Ok _ \<Rightarrow> Ret (Ok fs, s)))"

definition mount_fs :: "hash_order \<Rightarrow> profile \<Rightarrow> nat \<Rightarrow> nat \<Rightarrow> nat option \<Rightarrow> vfs \<Rightarrow> (unit FSResult \<times> vfs) outcome" where
  "mount_fs order pr now fs dest s =
     obind (mount_nodev pr now fs s) (\<lambda>(r, s).
     case r of
       Err e \<Rightarrow> Ret (Err e, s)
     | Ok fs \<Rightarrow>
         obind (case dest of
                  Some d \<Rightarrow> Ret (Ok d, s)
                | None \<Rightarrow>
                    obind (SuperBlock_root (v_fss s fs) (v_store s)) (\<lambda>r.
                    case r of
                      Err e \<Rightarrow> Ret (Err e, s)
                    | Ok inode \<Rightarrow> (let (d, s) = DEntry_new ''/'' inode fs s in Ret (Ok d, s)))) (\<lambda>(r, s).
         case r of
           Err e \<Rightarrow> Ret (Err e, s)
         | Ok d \<Rightarrow>
             (let s = s\<lparr>v_mounts := v_mounts s @ [\<lparr>m_fs = fs, m_dentry = d, m_tp = NoDevice\<rparr>]\<rparr>
              in Ret (Ok (), DirectoryCache_mount order now d s))))"

subsection \<open>Ancestors as an iterator\<close>

definition parent_of :: "profile \<Rightarrow> string \<Rightarrow> string option" where
  "parent_of pr p = (case parent pr p of Ret r \<Rightarrow> r | _ \<Rightarrow> None)"

lemma parent_of_law:
  "parent pr p = Ret (parent_of pr p)"
  "parent_of pr p = Some q \<Longrightarrow> components p \<noteq> [] \<and> components q = butlast (components p)"
  using parent_law [of pr p] by (auto simp: parent_of_def split: if_splits)

function ancestor_list :: "profile \<Rightarrow> string option \<Rightarrow> string list" where
  "ancestor_list pr None = []"
| "ancestor_list pr (Some p) = p # ancestor_list pr (parent_of pr p)"
  by pat_completeness auto

termination
proof (relation "measure (\<lambda>(pr, q). case q of None \<Rightarrow> 0 | Some p \<Rightarrow> Suc (length (components p)))", goal_cases)
  case (2 pr p)
  show ?case
  proof (cases "parent_of pr p")
    case (Some q)
    from parent_of_law(2) [OF Some] show ?thesis by (simp add: Some)
  qed simp
qed simp

interpretation anc: iterator "Ancestors_next pr" "\<lambda>a. True" "\<lambda>a. ancestor_list pr (anc_next a)" for pr
proof unfold_locales
  fix a :: Ancestors
  show "\<exists>a'. True \<and> ancestor_list pr (anc_next a') = tl (ancestor_list pr (anc_next a)) \<and>
      Ancestors_next pr a = Ret (if ancestor_list pr (anc_next a) = [] then None else Some (hd (ancestor_list pr (anc_next a))), a')"
    by (cases "anc_next a") (simp_all add: Ancestors_next_def parent_of_law(1))
qed

lemma ancestor_prefix: "q \<in> set (ancestor_list pr (Some p)) \<Longrightarrow> prefix (components q) (components p)"
proof (induction pr "Some p" arbitrary: p rule: ancestor_list.induct)
  case (2 pr p)
  show ?case
  proof (cases "parent_of pr p")
    case None
    with 2(2) show ?thesis by simp
  next
    case (Some r)
    from parent_of_law(2) [OF Some] have "prefix (components r) (components p)"
      by (metis append_butlast_last_id prefixI)
    with 2 Some show ?thesis by (auto intro: prefix_order.trans)
  qed
qed

lemma collect_components: "iter_collect (Components_next pr) (Components_new q) [] = Some (Ret (components q))"
  using comps.iter_collect_law [OF Components_inv_new [of q], where acc = "[]" and pr = pr] by (simp add: items_new)

lemma strip_prefix_law:
  assumes "prefix (components q) (components p)"
  obtains r where "strip_prefix pr p q = Ret (Ok r)" "components r = drop (length (components q)) (components p)"
proof -
  obtain c where "iter_after (Components_next pr) (Components_next pr) (Components_new p) (Components_new q) = Some (Ret (Some c))"
    and c: "Components_inv c" "items c = drop (length (components q)) (components p)"
    using iter_after_paths [of pr p q] assms by auto
  moreover obtain r where "as_path pr c = Ret r" "components r = items c" using as_path_law [OF c(1)] by blast
  ultimately show thesis using c(2) by (intro that [of r]) (simp_all add: strip_prefix_def)
qed

subsection \<open>Lookup\<close>

text \<open>The cached ancestor a lookup starts from, and what is left of the path behind it.\<close>

definition start_of :: "profile \<Rightarrow> vfs \<Rightarrow> string \<Rightarrow> string option" where
  "start_of pr s p = find (\<lambda>q. v_cache s q \<noteq> None) (ancestor_list pr (Some p))"

lemma find_SomeD': "find P xs = Some x \<Longrightarrow> x \<in> set xs \<and> P x"
  by (induction xs) (auto split: if_splits)

lemma get_law:
  "DirectoryCache_get order pr now p s =
     (case start_of pr s p of
        None \<Rightarrow> Panic
      | Some q \<Rightarrow>
          fill_path order now q (fst (the (v_cache s q))) (drop (length (components q)) (components p))
            (s\<lparr>v_cache := (v_cache s)(q \<mapsto> (fst (the (v_cache s q)), now))\<rparr>))"
proof (cases "v_cache s p")
  case (Some e)
  then show ?thesis
    by (cases e) (simp add: start_of_def DirectoryCache_get_def get_opt_def)
next
  case None
  have it: "iter_find (Ancestors_next pr) (\<lambda>q. v_cache s q \<noteq> None) (Ancestors_new p) = Some (Ret (start_of pr s p))"
    using anc.iter_find_law [where P = "\<lambda>q. v_cache s q \<noteq> None" and i = "Ancestors_new p" and pr = pr] by (simp add: start_of_def Ancestors_new_def)
  show ?thesis
  proof (cases "start_of pr s p")
    case None
    with it \<open>v_cache s p = None\<close> show ?thesis by (simp add: DirectoryCache_get_def get_opt_def)
  next
    case q: (Some q)
    then have "q \<in> set (ancestor_list pr (Some p))" "v_cache s q \<noteq> None"
      using find_SomeD' [of "\<lambda>q. v_cache s q \<noteq> None"] unfolding start_of_def by blast+
    then obtain d t where d: "v_cache s q = Some (d, t)" and pre: "prefix (components q) (components p)"
      using ancestor_prefix by fastforce
    obtain r where "strip_prefix pr p q = Ret (Ok r)" "components r = drop (length (components q)) (components p)"
      by (rule strip_prefix_law [OF pre])
    with it None q d show ?thesis by (simp add: DirectoryCache_get_def get_opt_def collect_components)
  qed
qed

text \<open>
  The specification of a lookup: follow the directories, seen as maps, from an inode number.
\<close>

fun walk :: "SuperBlock \<Rightarrow> store \<Rightarrow> nat \<Rightarrow> Component list \<Rightarrow> nat FSResult" where
  "walk sb w n [] = Ok n"
| "walk sb w n (cp # cps) =
     (case sb_inodes sb n of
        None \<Rightarrow> Err MissingInode
      | Some v \<Rightarrow>
          if r_mode v AND DIRECTORY \<noteq> DIRECTORY \<and> cps \<noteq> [] then Err NoEntry
          else if r_mode v \<noteq> DIRECTORY then Err NotDirectory
          else case dir_map (vecs w (r_blocks v)) (Component_as_ref cp) of
              None \<Rightarrow> Err NoEntry
            | Some m \<Rightarrow> if sb_inodes sb m = None then Err MissingInode else walk sb w m cps)"

text \<open>A directory entry that shows mode and blocks of the inode as the superblock has them.\<close>

definition dentry_fresh :: "vfs \<Rightarrow> nat \<Rightarrow> bool" where
  "dentry_fresh s d \<longleftrightarrow>
     (let i = d_inode (v_dentries s d) in
      case (i_private i, sb_inodes (v_fss s (d_fs (v_dentries s d))) (i_num i)) of
        (Some r, Some v) \<Rightarrow> i_mode i = r_mode v \<and> r_mode r = r_mode v \<and> r_blocks r = r_blocks v
      | _ \<Rightarrow> False)"

definition vfs_ok :: "vfs \<Rightarrow> nat \<Rightarrow> bool" where
  "vfs_ok s fs \<longleftrightarrow> (\<forall>a. dir_ok (vecs (v_store s) a)) \<and> (\<forall>n v. sb_inodes (v_fss s fs) n = Some v \<longrightarrow> r_num v = n)"

lemma dentry_freshE:
  assumes "dentry_fresh s d"
  obtains r v where "i_private (d_inode (v_dentries s d)) = Some r"
    "sb_inodes (v_fss s (d_fs (v_dentries s d))) (i_num (d_inode (v_dentries s d))) = Some v"
    "i_mode (d_inode (v_dentries s d)) = r_mode v" "r_mode r = r_mode v" "r_blocks r = r_blocks v"
  using assms by (auto simp: dentry_fresh_def Let_def split: option.splits)

lemma find_dir_map:
  "find (\<lambda>(p, _). name = p) es = (case map_of es name of None \<Rightarrow> None | Some n \<Rightarrow> Some (name, n))"
  by (induction es) (auto split: option.splits)

lemma cache_insert_keeps [simp]:
  "v_fss (cache_insert order now d s) = v_fss s" "v_store (cache_insert order now d s) = v_store s"
  "v_dentries (cache_insert order now d s) = v_dentries s" "v_mounts (cache_insert order now d s) = v_mounts s"
  "v_next_dentry (cache_insert order now d s) = v_next_dentry s"
  by (simp_all add: cache_insert_def evict_entry_def Let_def split: option.splits)

text \<open>One step of \<open>fill_path\<close>: the new entry is cached under the joined path.\<close>

definition path_step :: "hash_order \<Rightarrow> nat \<Rightarrow> string \<Rightarrow> Component \<Rightarrow> RInode \<Rightarrow> nat \<Rightarrow> vfs \<Rightarrow> vfs" where
  "path_step order now par cp u fs s =
     cache_insert order now (v_next_dentry s)
       (snd (DEntry_new (PathBuf_push par (Component_as_ref cp)) (from_Inode (v_store s) u) fs s))"

lemma path_step_simps:
  "v_fss (path_step order now par cp u fs s) = v_fss s" "v_store (path_step order now par cp u fs s) = v_store s"
  "v_dentries (path_step order now par cp u fs s) (v_next_dentry s) =
     \<lparr>d_name = PathBuf_push par (Component_as_ref cp), d_inode = from_Inode (v_store s) u, d_fs = fs\<rparr>"
  "v_next_dentry (path_step order now par cp u fs s) = Suc (v_next_dentry s)"
  "v_cache (path_step order now par cp u fs s) (PathBuf_push par (Component_as_ref cp)) = Some (v_next_dentry s, now)"
  by (simp_all add: path_step_def DEntry_new_def) (simp add: cache_insert_def evict_entry_def Let_def split: option.splits)

lemma path_step_fresh:
  "sb_inodes (v_fss s fs) m = Some u \<Longrightarrow> r_num u = m \<Longrightarrow> dentry_fresh (path_step order now par cp u fs s) (v_next_dentry s)"
  by (simp add: dentry_fresh_def path_step_simps from_Inode_def Let_def)

lemma fill_path_cases:
  assumes "dentry_fresh s d" and "vfs_ok s (d_fs (v_dentries s d))"
    and "sb_inodes (v_fss s (d_fs (v_dentries s d))) (i_num (d_inode (v_dentries s d))) = Some v"
  shows "fill_path order now par d (cp # cps) s =
    (if r_mode v AND DIRECTORY \<noteq> DIRECTORY \<and> cps \<noteq> [] then Ret (Err NoEntry, s)
     else if r_mode v \<noteq> DIRECTORY then Ret (Err NotDirectory, s)
     else case dir_map (vecs (v_store s) (r_blocks v)) (Component_as_ref cp) of
         None \<Rightarrow> Ret (Err NoEntry, s)
       | Some m \<Rightarrow>
           (case sb_inodes (v_fss s (d_fs (v_dentries s d))) m of
              None \<Rightarrow> Ret (Err MissingInode, s)
            | Some u \<Rightarrow> fill_path order now (PathBuf_push par (Component_as_ref cp)) (v_next_dentry s) cps
                (path_step order now par cp u (d_fs (v_dentries s d)) s)))"
proof -
  obtain r where r: "i_private (d_inode (v_dentries s d)) = Some r" "i_mode (d_inode (v_dentries s d)) = r_mode v"
    "r_mode r = r_mode v" "r_blocks r = r_blocks v" using dentry_freshE [OF assms(1)] assms(3) by auto
  let ?bs = "vecs (v_store s) (r_blocks v)"
  have "iter_find (DirIterator_next ?bs) (\<lambda>(p, _). Component_as_ref cp = p) DirIterator_new =
      Some (Ret (case dir_map ?bs (Component_as_ref cp) of None \<Rightarrow> None | Some n \<Rightarrow> Some (Component_as_ref cp, n)))"
    using dir.iter_find_law [of ?bs "\<lambda>(p, _). Component_as_ref cp = p" DirIterator_new] assms(2)
    by (simp add: rest_new dir_map_def find_dir_map vfs_ok_def)
  with r show ?thesis
    by (simp add: is_dir_def Ramfs_list_def Let_def get_inode_def path_step_def DEntry_new_def split: option.splits)
qed

lemma fill_path_law:
  assumes "dentry_fresh s d" and "vfs_ok s (d_fs (v_dentries s d))"
  shows "\<exists>s'. v_fss s' = v_fss s \<and> v_store s' = v_store s \<and>
    (case walk (v_fss s (d_fs (v_dentries s d))) (v_store s) (i_num (d_inode (v_dentries s d))) cps of
       Err e \<Rightarrow> fill_path order now par d cps s = Ret (Err e, s')
     | Ok m \<Rightarrow> \<exists>d'. fill_path order now par d cps s = Ret (Ok d', s') \<and> i_num (d_inode (v_dentries s' d')) = m \<and>
         d_fs (v_dentries s' d') = d_fs (v_dentries s d))"
  using assms
proof (induction cps arbitrary: s d par)
  case Nil
  then show ?case by auto
next
  case (Cons cp cps)
  let ?fs = "d_fs (v_dentries s d)"
  let ?sb = "v_fss s ?fs" and ?n = "i_num (d_inode (v_dentries s d))"
  obtain v where v: "sb_inodes ?sb ?n = Some v" by (rule dentry_freshE [OF Cons.prems(1)])
  note fill = fill_path_cases [OF Cons.prems v, of order now par cp cps]
  show ?case
  proof (cases "\<exists>m u. r_mode v = DIRECTORY \<and> dir_map (vecs (v_store s) (r_blocks v)) (Component_as_ref cp) = Some m \<and> sb_inodes ?sb m = Some u")
    case False
    then show ?thesis unfolding fill using v by (auto split: option.splits)
  next
    case True
    then obtain m u where mu: "r_mode v = DIRECTORY" "dir_map (vecs (v_store s) (r_blocks v)) (Component_as_ref cp) = Some m"
      "sb_inodes ?sb m = Some u" by blast
    let ?t = "path_step order now par cp u ?fs s" and ?np = "PathBuf_push par (Component_as_ref cp)"
    have u: "r_num u = m" using mu(3) Cons.prems(2) by (simp add: vfs_ok_def)
    have fp: "fill_path order now par d (cp # cps) s = fill_path order now ?np (v_next_dentry s) cps ?t" using mu fill by simp
    have wk: "walk ?sb (v_store s) ?n (cp # cps) = walk ?sb (v_store s) m cps" using v mu by simp
    have e: "d_fs (v_dentries ?t (v_next_dentry s)) = ?fs" "i_num (d_inode (v_dentries ?t (v_next_dentry s))) = m"
      by (simp_all add: path_step_simps from_Inode_def u)
    have "vfs_ok ?t (d_fs (v_dentries ?t (v_next_dentry s)))" using Cons.prems(2) by (simp add: e vfs_ok_def path_step_simps)
    from Cons.IH [OF path_step_fresh [OF mu(3) u] this, of ?np] show ?thesis
      unfolding fp wk e path_step_simps(1,2) .
  qed
qed

subsection \<open>Eviction\<close>

definition access_time :: "vfs \<Rightarrow> string \<Rightarrow> nat" where
  "access_time s p = snd (the (v_cache s p))"

definition evictable :: "vfs \<Rightarrow> string \<Rightarrow> bool" where
  "evictable s p \<longleftrightarrow> v_cache s p \<noteq> None \<and> \<not> is_mount_path s p"

definition lru_inv :: "vfs \<Rightarrow> string list \<Rightarrow> string option \<times> nat \<Rightarrow> bool" where
  "lru_inv s ps r \<longleftrightarrow>
     (case fst r of
        None \<Rightarrow> snd r = u64_range - 1 \<and> (\<forall>q \<in> set ps. evictable s q \<longrightarrow> u64_range - 1 \<le> access_time s q)
      | Some p \<Rightarrow> p \<in> set ps \<and> evictable s p \<and> snd r = access_time s p \<and> access_time s p < u64_range - 1 \<and>
          (\<forall>q \<in> set ps. evictable s q \<longrightarrow> access_time s p \<le> access_time s q))"

lemma lru_scan_law: "lru_inv s ps (lru_scan s ps)"
proof (induction ps rule: rev_induct)
  case Nil
  then show ?case by (simp add: lru_inv_def lru_scan_def)
next
  case (snoc p ps)
  obtain lru t where r: "lru_scan s ps = (lru, t)" by (cases "lru_scan s ps")
  have step: "lru_scan s (ps @ [p]) =
      (if is_mount_path s p then (lru, t)
       else case v_cache s p of None \<Rightarrow> (lru, t) | Some (_, la) \<Rightarrow> if la < t then (Some p, la) else (lru, t))"
    using r by (simp add: lru_scan_def)
  show ?case
  proof (cases "evictable s p")
    case False
    then have "lru_scan s (ps @ [p]) = lru_scan s ps" using step r by (auto simp: evictable_def split: option.splits)
    with snoc False show ?thesis by (auto simp: lru_inv_def split: option.splits)
  next
    case True
    then obtain d la where la: "v_cache s p = Some (d, la)" "\<not> is_mount_path s p" by (auto simp: evictable_def)
    then have "access_time s p = la" by (simp add: access_time_def)
    with step la snoc r True show ?thesis by (fastforce simp: lru_inv_def split: option.splits)
  qed
qed

lemma evict_law:
  assumes "hash_doc order" and "finite (dom (v_cache s))" and "evictable s q" and "access_time s q < u64_range - 1"
  obtains p where "evict_entry order s = s\<lparr>v_cache := (v_cache s)(p := None)\<rparr>" "evictable s p"
    "\<forall>q. evictable s q \<longrightarrow> access_time s p \<le> access_time s q"
proof -
  let ?r = "lru_scan s (order (v_cache s))"
  have keys: "set (order (v_cache s)) = dom (v_cache s)" using assms(1,2) by (simp add: hash_doc_def)
  have inv: "lru_inv s (order (v_cache s)) ?r" by (rule lru_scan_law)
  have all: "q \<in> set (order (v_cache s))" if "evictable s q" for q using that keys by (auto simp: evictable_def)
  show thesis
  proof (cases "fst ?r")
    case None
    with inv all [OF assms(3)] assms(3,4) show thesis by (fastforce simp: lru_inv_def)
  next
    case (Some p)
    with inv all show thesis by (intro that [of p]) (auto simp: lru_inv_def evict_entry_def)
  qed
qed

subsection \<open>Properties\<close>

text \<open>
  C29: Inserting an entry keeps the cache within its size as long as some entry can be evicted.  What it
  evicts is never a mount point and is the least recently used of the others.
\<close>

theorem cache_insert_lru:
  assumes "hash_doc order" and "finite (dom (v_cache s))" and "card (dom (v_cache s)) \<le> CACHE_SIZE"
    and "evictable s q" and "access_time s q < 2 ^ 64 - 1"
  shows "card (dom (v_cache (cache_insert order now d s))) \<le> CACHE_SIZE \<and>
    v_cache (cache_insert order now d s) (d_name (v_dentries s d)) = Some (d, now) \<and>
    (\<forall>p. v_cache s p \<noteq> None \<and> v_cache (cache_insert order now d s) p = None \<longrightarrow>
       \<not> is_mount_path s p \<and> (\<forall>q. evictable s q \<longrightarrow> access_time s p \<le> access_time s q))"
proof -
  have len: "length (order (v_cache s)) = card (dom (v_cache s))"
    using assms(1,2) by (metis distinct_card hash_doc_def)
  show ?thesis
  proof (cases "CACHE_SIZE \<le> card (dom (v_cache s))")
    case False
    then have "card (insert (d_name (v_dentries s d)) (dom (v_cache s))) \<le> CACHE_SIZE"
      using assms(2) by (simp add: card_insert_if)
    with False len show ?thesis by (auto simp: cache_insert_def Let_def)
  next
    case True
    obtain p where p: "evict_entry order s = s\<lparr>v_cache := (v_cache s)(p := None)\<rparr>" "evictable s p"
      "\<forall>q. evictable s q \<longrightarrow> access_time s p \<le> access_time s q"
      by (rule evict_law [OF assms(1,2,4)]) (use assms(5) in simp)
    have c: "v_cache (cache_insert order now d s) = (v_cache s)(p := None, d_name (v_dentries s d) \<mapsto> (d, now))"
      using True len p(1) by (simp add: cache_insert_def Let_def)
    have "p \<in> dom (v_cache s)" using p(2) by (auto simp: evictable_def)
    then have "card (dom (v_cache s) - {p}) < CACHE_SIZE" using True assms(2,3) by (simp add: card_Diff_singleton CACHE_SIZE_def)
    then have "card (insert (d_name (v_dentries s d)) (dom (v_cache s) - {p})) \<le> CACHE_SIZE"
      using assms(2) by (simp add: card_insert_if)
    with p(2,3) show ?thesis by (auto simp: c evictable_def split: if_splits)
  qed
qed

lemma get_walk_law:
  assumes "start_of pr s p = Some q" and "v_cache s q = Some (d, t)"
    and "dentry_fresh s d" and "vfs_ok s (d_fs (v_dentries s d))"
  shows "case walk (v_fss s (d_fs (v_dentries s d))) (v_store s) (i_num (d_inode (v_dentries s d)))
        (drop (length (components q)) (components p)) of
      Ok m \<Rightarrow> \<exists>d' s'. DirectoryCache_get order pr now p s = Ret (Ok d', s') \<and> i_num (d_inode (v_dentries s' d')) = m \<and>
        d_fs (v_dentries s' d') = d_fs (v_dentries s d)
    | Err e \<Rightarrow> \<exists>s'. DirectoryCache_get order pr now p s = Ret (Err e, s')"
proof -
  let ?s = "s\<lparr>v_cache := (v_cache s)(q \<mapsto> (d, now))\<rparr>" and ?cps = "drop (length (components q)) (components p)"
  have get: "DirectoryCache_get order pr now p s = fill_path order now q d ?cps ?s"
    using assms(1,2) by (simp add: get_law)
  have "dentry_fresh ?s d" "vfs_ok ?s (d_fs (v_dentries ?s d))" using assms(3,4) by (simp_all add: dentry_fresh_def vfs_ok_def)
  from fill_path_law [OF this, where cps = ?cps and order = order and now = now and par = q]
  show ?thesis unfolding get by (fastforce split: result.splits)
qed


text \<open>
  C30: Because the joined path loses its separator, the entry for a file \<open>b\<close> in a directory \<open>a\<close> of the root
  is cached under the name of a file \<open>ab\<close> of the root, and the next lookup of that name returns it.
\<close>

theorem lookup_caches_glued_name:
  assumes "start_of pr s p = Some ''/''" and "v_cache s ''/'' = Some (d, t)"
    and "dentry_fresh s d" and "vfs_ok s (d_fs (v_dentries s d))"
    and "components p = [RootDir, Normal a, Normal b]"
    and "walk (v_fss s (d_fs (v_dentries s d))) (v_store s) (i_num (d_inode (v_dentries s d))) [Normal a, Normal b] = Ok m"
    and "\<forall>x \<in> set (a @ b). \<not> is_sep x" and "a \<noteq> []"
  shows "\<exists>d' s' s''. DirectoryCache_get order pr now p s = Ret (Ok d', s') \<and>
    DirectoryCache_get order pr now' (''//'' @ a @ b) s' = Ret (Ok d', s'')"
proof -
  let ?fs = "d_fs (v_dentries s d)" and ?n = "i_num (d_inode (v_dentries s d))"
  let ?s = "s\<lparr>v_cache := (v_cache s)(''/'' \<mapsto> (d, now))\<rparr>"
  have root: "components ''/'' = [RootDir]" by code_simp
  have get: "DirectoryCache_get order pr now p s = fill_path order now ''/'' d [Normal a, Normal b] ?s"
    using assms(1,2,5) by (simp add: get_law root)
  have ok: "dentry_fresh ?s d" "vfs_ok ?s (d_fs (v_dentries ?s d))" using assms(3,4) by (simp_all add: dentry_fresh_def vfs_ok_def)
  obtain v where v: "sb_inodes (v_fss ?s (d_fs (v_dentries ?s d))) (i_num (d_inode (v_dentries ?s d))) = Some v"
    by (rule dentry_freshE [OF ok(1)])
  obtain k u where u: "r_mode v = DIRECTORY" "dir_map (vecs (v_store s) (r_blocks v)) a = Some k" "sb_inodes (v_fss s ?fs) k = Some u"
    and wk: "walk (v_fss s ?fs) (v_store s) k [Normal b] = Ok m"
    using assms(6) v by (auto split: option.splits if_splits)
  have pa: "PathBuf_push ''/'' a = ''//'' @ a"
    using assms(7) name_no_root [of a] push_behind_sep(1) [of "''/''" a]
    by (simp add: SEPERATOR_def is_absolute_def has_root_def Components_new_def)
  let ?t = "path_step order now ''/'' (Normal a) u ?fs ?s" and ?e = "v_next_dentry s"
  have fp1: "fill_path order now ''/'' d [Normal a, Normal b] ?s = fill_path order now (''//'' @ a) ?e [Normal b] ?t"
    using fill_path_cases [OF ok v, of order now "''/''" "Normal a" "[Normal b]"] u pa by simp
  have k: "r_num u = k" using u(3) assms(4) by (simp add: vfs_ok_def)
  have e: "d_fs (v_dentries ?t ?e) = ?fs" "i_num (d_inode (v_dentries ?t ?e)) = k" "v_fss ?t = v_fss s" "v_store ?t = v_store s"
    using path_step_simps [of order now "''/''" "Normal a" u ?fs ?s] k by (simp_all add: from_Inode_def)
  have ok2: "dentry_fresh ?t ?e" "vfs_ok ?t (d_fs (v_dentries ?t ?e))"
    using path_step_fresh [of ?s ?fs k u order now "''/''" "Normal a"] u(3) k assms(4) by (simp_all add: e vfs_ok_def)
  obtain j x where x: "r_mode u = DIRECTORY" "dir_map (vecs (v_store s) (r_blocks u)) b = Some j" "sb_inodes (v_fss s ?fs) j = Some x"
    using wk u(3) by (auto split: option.splits if_splits)
  have "last (''//'' @ a) \<in> set (a @ b)" using assms(8) by simp
  then have pb: "PathBuf_push (''//'' @ a) b = ''//'' @ a @ b"
    using assms(7) push_no_sep [of "''//'' @ a" b] by (auto simp: is_sep_def name_no_root)
  let ?w = "path_step order now (''//'' @ a) (Normal b) x ?fs ?t"
  have fp2: "fill_path order now (''//'' @ a) ?e [Normal b] ?t = Ret (Ok (v_next_dentry ?t), ?w)"
    using fill_path_cases [OF ok2, of u order now "''//'' @ a" "Normal b" "[]"] u(3) x by (simp add: e)
  have "v_cache ?w (''//'' @ a @ b) = Some (v_next_dentry ?t, now)"
    using path_step_simps(5) [of order now "''//'' @ a" "Normal b" x ?fs ?t] pb by simp
  then have "DirectoryCache_get order pr now' (''//'' @ a @ b) ?w = Ret (Ok (v_next_dentry ?t), snd (get_opt now' (''//'' @ a @ b) ?w))"
    by (simp add: DirectoryCache_get_def get_opt_def)
  with get fp1 fp2 show ?thesis by auto
qed

text \<open>
  Unmounting one file system removes the entries of every mounted file system, because they are
  compared by name; after that every lookup panics.
\<close>

theorem unmount_clears_cache:
  "v_cache (DirectoryCache_unmount fs s) = Map.empty \<and>
   DirectoryCache_get order pr now p (DirectoryCache_unmount fs s) = Panic"
proof -
  have c: "v_cache (DirectoryCache_unmount fs s) = Map.empty"
    by (auto simp: DirectoryCache_unmount_def cache_retain_def fs_name_def split: option.splits)
  moreover have "find (\<lambda>q. False) qs = None" for qs :: "string list" by (induction qs) simp_all
  ultimately show ?thesis by (simp add: get_law start_of_def)
qed

definition vfs_empty :: vfs where
  "vfs_empty = \<lparr>v_fss = (\<lambda>_. FileSystem_new), v_store = empty_store,
     v_dentries = (\<lambda>_. \<lparr>d_name = [], d_inode = from_Inode empty_store (fresh_inode 0 0 0), d_fs = 0\<rparr>),
     v_next_dentry = 0, v_cache = Map.empty, v_mounts = []\<rparr>"

definition demo_order :: hash_order where
  "demo_order m = sorted_list_of_set (dom m)"

definition demo_full :: vfs where
  "demo_full = vfs_empty\<lparr>v_cache := map_of (map (\<lambda>n. (replicate n CHR ''a'', 0, n)) [0..<CACHE_SIZE]),
     v_dentries := (\<lambda>_. (v_dentries vfs_empty 0)\<lparr>d_name := ''/''\<rparr>)\<rparr>"

lemma demo_full_facts:
  "hash_doc demo_order" "finite (dom (v_cache demo_full))" "card (dom (v_cache demo_full)) \<le> CACHE_SIZE"
  "evictable demo_full []" "access_time demo_full [] = 0"
proof -
  let ?k = "\<lambda>n. replicate n CHR ''a''"
  show "hash_doc demo_order" by (simp add: hash_doc_def demo_order_def)
  have dom: "dom (v_cache demo_full) = ?k ` {0..<CACHE_SIZE}" by (simp add: demo_full_def dom_map_of_conv_image_fst image_image)
  then show "finite (dom (v_cache demo_full))" by simp
  show "card (dom (v_cache demo_full)) \<le> CACHE_SIZE" unfolding dom using card_image_le [of "{0..<CACHE_SIZE}" ?k] by simp
  have "0 < CACHE_SIZE" by (simp add: CACHE_SIZE_def)
  then have "[0..<CACHE_SIZE] = 0 # [Suc 0..<CACHE_SIZE]" by (rule upt_conv_Cons)
  then have "v_cache demo_full [] = Some (0, 0)" by (simp add: demo_full_def)
  then show "evictable demo_full []" "access_time demo_full [] = 0"
    by (simp_all add: evictable_def access_time_def is_mount_path_def demo_full_def vfs_empty_def)
qed

theorem cache_insert_lru_witness:
  "card (dom (v_cache (cache_insert demo_order 9 0 demo_full))) \<le> CACHE_SIZE \<and>
    v_cache (cache_insert demo_order 9 0 demo_full) ''/'' = Some (0, 9) \<and>
    {p. v_cache demo_full p \<noteq> None \<and> v_cache (cache_insert demo_order 9 0 demo_full) p = None} \<subseteq>
      {p. \<not> is_mount_path demo_full p \<and> access_time demo_full p = 0}"
proof -
  have "d_name (v_dentries demo_full 0) = ''/''" by (simp add: demo_full_def)
  with cache_insert_lru [OF demo_full_facts(1-4), of 9 0] demo_full_facts(4,5) show ?thesis by fastforce
qed

subsection \<open>A mounted tree with one directory and one file\<close>

definition demo_tree :: SuperBlock where
  "demo_tree = \<lparr>sb_root = 0, sb_count = 3,
     sb_inodes = [0 \<mapsto> fresh_inode 7 0 DIRECTORY, 1 \<mapsto> fresh_inode 7 1 DIRECTORY, 2 \<mapsto> fresh_inode 7 2 REGULAR_FILE]\<rparr>"

definition demo_blocks :: store where
  "demo_blocks = \<lparr>vecs = (\<lambda>_. [])(0 := append_dir_entry (new_entry 1 ''a'') [], 1 := append_dir_entry (new_entry 2 ''b'') []),
     next_vec = 3\<rparr>"

definition demo_vfs :: vfs where
  "demo_vfs = \<lparr>v_fss = (\<lambda>_. demo_tree), v_store = demo_blocks,
     v_dentries = (\<lambda>_. \<lparr>d_name = ''/'', d_inode = from_Inode demo_blocks (fresh_inode 7 0 DIRECTORY), d_fs = 0\<rparr>),
     v_next_dentry = 1, v_cache = [''/'' \<mapsto> (0, 7)], v_mounts = [\<lparr>m_fs = 0, m_dentry = 0, m_tp = NoDevice\<rparr>]\<rparr>"

lemma demo_entry:
  assumes "n = 1 \<or> n = 2" and "name = ''a'' \<or> name = ''b''"
  shows "entries_ok demo_tree (append_dir_entry (new_entry n name) [])" and "dir_map (append_dir_entry (new_entry n name) []) name = Some n"
proof -
  have n: "\<exists>v. sb_inodes demo_tree n = Some v" "n < u64_range" "n \<noteq> 0" using assms(1) by (auto simp: demo_tree_def)
  have "valid_utf8 ''a''" "valid_utf8 ''b''" by code_simp+
  then have name: "length name \<le> NAME_SIZE" "valid_utf8 name" "name \<noteq> []" using assms(2) by (auto simp: NAME_SIZE_def)
  obtain v where v: "sb_inodes demo_tree n = Some v" using n(1) by blast
  have nil: "name \<notin> fst ` set (dir_entries [])" by (simp add: dir_entries_def map_filter_def)
  note ok = entries_ok_Nil v n(2) name(1,2) nil
  show "entries_ok demo_tree (append_dir_entry (new_entry n name) [])" by (rule entries_ok_append(1) [OF ok])
  show "dir_map (append_dir_entry (new_entry n name) []) name = Some n" by (simp add: dir_map_append [OF ok n(3) name(3)])
qed

lemma demo_walk: "walk (v_fss demo_vfs 0) (v_store demo_vfs) 0 [Normal ''a'', Normal ''b''] = Ok 2"
  using demo_entry(2) [of 1 "''a''"] demo_entry(2) [of 2 "''b''"]
  by (simp add: demo_vfs_def demo_tree_def demo_blocks_def fresh_inode_def)

lemma demo_vfs_facts:
  "start_of Dev demo_vfs ''/a/b'' = Some ''/''" "v_cache demo_vfs ''/'' = Some (0, 7)" "dentry_fresh demo_vfs 0"
  "vfs_ok demo_vfs (d_fs (v_dentries demo_vfs 0))" "components ''/a/b'' = [RootDir, Normal ''a'', Normal ''b'']" "components ''/'' = [RootDir]"
  "d_fs (v_dentries demo_vfs 0) = 0" "i_num (d_inode (v_dentries demo_vfs 0)) = 0"
proof -
  have "ancestor_list Dev (Some ''/a/b'') = [''/a/b'', ''/a'', ''/'']" by code_simp
  then show "start_of Dev demo_vfs ''/a/b'' = Some ''/''" by (simp add: start_of_def demo_vfs_def)
  show "components ''/a/b'' = [RootDir, Normal ''a'', Normal ''b'']" "components ''/'' = [RootDir]" by code_simp+
  have ok: "dir_ok (vecs demo_blocks a)" for a
    using demo_entry(1) [of 1 "''a''"] demo_entry(1) [of 2 "''b''"] entries_ok_Nil [of demo_tree]
    by (simp add: demo_blocks_def entries_ok_def)
  then show "vfs_ok demo_vfs (d_fs (v_dentries demo_vfs 0))"
    by (simp add: vfs_ok_def demo_vfs_def demo_tree_def fresh_inode_def)
qed (simp_all add: demo_vfs_def demo_tree_def dentry_fresh_def from_Inode_def fresh_inode_def)


theorem lookup_caches_glued_name_witness:
  "\<exists>d' s' s''. DirectoryCache_get demo_order Dev 8 ''/a/b'' demo_vfs = Ret (Ok d', s') \<and>
     DirectoryCache_get demo_order Dev 9 (''//'' @ ''a'' @ ''b'') s' = Ret (Ok d', s'')"
  by (rule lookup_caches_glued_name [OF demo_vfs_facts(1-5)]) (simp_all del: walk.simps add: demo_vfs_facts(7,8) demo_walk is_sep_def SEPERATOR_def)

text \<open>
  C31: Mounting onto an existing entry changes no entry: the new file system's root is attached nowhere,
  and the path of the mount point still shows the directory of the file system below.
\<close>

theorem mount_at_entry_attaches_nothing:
  assumes "mount_fs order pr now fs (Some d) s = Ret (Ok (), s')"
  shows "v_dentries s' = v_dentries s \<and> v_cache s' (d_name (v_dentries s d)) = Some (d, now) \<and>
    DirectoryCache_get order pr now' (d_name (v_dentries s d)) s' = Ret (Ok d, snd (get_opt now' (d_name (v_dentries s d)) s'))"
proof -
  obtain t where t: "mount_nodev pr now fs s = Ret (Ok fs, t)" "v_dentries t = v_dentries s"
    "s' = cache_insert order now d (t\<lparr>v_mounts := v_mounts t @ [\<lparr>m_fs = fs, m_dentry = d, m_tp = NoDevice\<rparr>]\<rparr>)"
    using assms
    by (auto simp: mount_fs_def mount_nodev_def obind_eq_Ret case_result_Ret DirectoryCache_mount_def Let_def split: prod.splits result.splits)
  then have "v_cache s' (d_name (v_dentries s d)) = Some (d, now)"
    by (simp add: cache_insert_def evict_entry_def Let_def split: option.splits)
  with t(2,3) show ?thesis by (simp add: DirectoryCache_get_def get_opt_def)
qed

theorem mount_at_entry_attaches_nothing_witness:
  "\<exists>s'. mount_fs demo_order Dev 9 1 (Some 0) (demo_vfs\<lparr>v_fss := (v_fss demo_vfs)(1 := FileSystem_new)\<rparr>) = Ret (Ok (), s') \<and>
     v_dentries s' = v_dentries demo_vfs \<and> v_cache s' ''/'' = Some (0, 9) \<and>
     DirectoryCache_get demo_order Dev 10 ''/'' s' = Ret (Ok 0, snd (get_opt 10 ''/'' s'))"
proof -
  let ?s = "demo_vfs\<lparr>v_fss := (v_fss demo_vfs)(1 := FileSystem_new)\<rparr>"
  obtain sb w where "init_super Dev 9 FileSystem_new (v_store demo_vfs) = Ret (Ok (), sb, w)"
    by (simp add: init_super_def create_inode_def FileSystem_new_def RInode_default_def add64_def from_Inode_def Let_def)
  then obtain s' where "mount_fs demo_order Dev 9 1 (Some 0) ?s = Ret (Ok (), s')"
    by (simp add: mount_fs_def mount_nodev_def Let_def)
  with mount_at_entry_attaches_nothing [OF this, of 10] show ?thesis by (auto simp: demo_vfs_def)
qed

subsection \<open>From mounting to looking up a new file\<close>

lemma cache_insert_empty: "v_cache s = Map.empty \<Longrightarrow> v_cache (cache_insert order now d s) = [d_name (v_dentries s d) \<mapsto> (d, now)]"
  by (simp add: cache_insert_def evict_entry_def Let_def split: option.splits)

lemma parent_of_root_child:
  assumes "\<forall>x \<in> set name. \<not> is_sep x" and "parse_single_component name = Some (Normal name)"
  shows "components (''/'' @ name) = [RootDir, Normal name]" and "parent_of pr (''/'' @ name) = Some ''/''"
proof -
  have root: "components ''/'' = [RootDir]" by code_simp
  show c: "components (''/'' @ name) = [RootDir, Normal name]"
    using components_name [of 1 "''/''" name] assms root by (simp add: is_sep_def SEPERATOR_def)
  obtain q where q: "parent pr (''/'' @ name) = Ret (Some q)" "components q = [RootDir]"
    using parent_law [of pr "''/'' @ name"] c by auto
  obtain m where m: "m \<le> length (''/'' @ name)" "q = take m (''/'' @ name)"
    "m = 0 \<or> m = length (''/'' @ name) \<or> is_sep ((''/'' @ name) ! m) \<or> m = length (head_comps (Components_new (''/'' @ name)))"
    using parent_cut [OF q(1)] by blast
  have "components [] = []" by code_simp
  then have "m \<noteq> 0" using m(2) q(2) by (cases m) simp_all
  moreover have "m \<noteq> length (''/'' @ name)" using m(2) q(2) c by auto
  moreover have "\<not> is_sep ((''/'' @ name) ! m)" if "m \<noteq> 0" "m \<noteq> length (''/'' @ name)"
    using that m(1) assms(1) by (cases m) auto
  ultimately have "m = 1" using m(3) by (simp add: head_comps_def Components_new_def has_physical_root_def SEPERATOR_def)
  with m(2) q(1) show "parent_of pr (''/'' @ name) = Some ''/''" by (simp add: parent_of_def)
qed

lemma mount_root:
  "\<exists>s1. mount_fs order pr now 0 None vfs_empty = Ret (Ok (), s1) \<and> v_cache s1 = [''/'' \<mapsto> (0, now)] \<and>
    v_fss s1 0 = \<lparr>sb_root = 0, sb_count = 1, sb_inodes = [0 \<mapsto> fresh_inode now 0 DIRECTORY]\<rparr> \<and> v_store s1 = demo_store 1 \<and>
    v_dentries s1 0 = \<lparr>d_name = ''/'', d_inode = from_Inode (demo_store 1) (fresh_inode now 0 DIRECTORY), d_fs = 0\<rparr>"
  by (simp add: mount_fs_def mount_nodev_def vfs_empty_def init_super_new DEntry_new_def DirectoryCache_mount_def SuperBlock_root_def
      get_inode_def cache_insert_empty Let_def obind_eq_Ret)

text \<open>
  C27: A file created in the root of a freshly mounted RAM file system is found: looking up its path gives an
  entry with the inode number that was created.
\<close>

theorem mount_create_lookup:
  assumes "\<forall>x \<in> set name. \<not> is_sep x" and "parse_single_component name = Some (Normal name)"
    and "valid_utf8 name" and "length name \<le> NAME_SIZE" and "name \<noteq> []"
  shows "\<exists>s1 h sb w h' p w' d s2. mount_fs order pr t0 0 None vfs_empty = Ret (Ok (), s1) \<and>
    create_inode pr t1 (v_fss s1 0) (v_store s1) = Ret (Ok h, sb, w) \<and>
    Inode_create (ramfs_ops t2) h (d_inode (v_dentries s1 0)) (Normal name) w = Ret (Ok (), h', p, w') \<and>
    DirectoryCache_get order pr t3 (''/'' @ name)
      (s1\<lparr>v_fss := (v_fss s1)(0 := sb), v_store := w', v_dentries := (v_dentries s1)(0 := (v_dentries s1 0)\<lparr>d_inode := p\<rparr>)\<rparr>) =
        Ret (Ok d, s2) \<and>
    i_num (d_inode (v_dentries s2 d)) = i_num h \<and> i_num h \<noteq> i_num p"
proof -
  obtain s1 where s1: "mount_fs order pr t0 0 None vfs_empty = Ret (Ok (), s1)" "v_cache s1 = [''/'' \<mapsto> (0, t0)]"
    "v_fss s1 0 = \<lparr>sb_root = 0, sb_count = 1, sb_inodes = [0 \<mapsto> fresh_inode t0 0 DIRECTORY]\<rparr>" "v_store s1 = demo_store 1"
    "v_dentries s1 0 = \<lparr>d_name = ''/'', d_inode = from_Inode (demo_store 1) (fresh_inode t0 0 DIRECTORY), d_fs = 0\<rparr>"
    using mount_root by blast
  let ?h = "from_Inode (demo_store 2) (fresh_inode t1 1 0)"
  let ?sb = "\<lparr>sb_root = 0, sb_count = 2, sb_inodes = [0 \<mapsto> fresh_inode t0 0 DIRECTORY, 1 \<mapsto> fresh_inode t1 1 0]\<rparr>"
  have create: "create_inode pr t1 (v_fss s1 0) (v_store s1) = Ret (Ok ?h, ?sb, demo_store 2)"
    by (simp add: s1 create_inode_def RInode_default_def demo_store_def fresh_inode_def add64_def Let_def fun_upd_idem
        numeral_2_eq_2)
  let ?bs = "append_dir_entry (new_entry 1 name) []"
  let ?w = "\<lparr>vecs = (\<lambda>_. [])(0 := ?bs), next_vec = 2\<rparr>"
  let ?p = "from_Inode ?w ((fresh_inode t0 0 DIRECTORY)\<lparr>r_last_modification := t2, r_last_access := t2\<rparr>)"
  obtain h' where mk: "Inode_create (ramfs_ops t2) ?h (d_inode (v_dentries s1 0)) (Normal name) (demo_store 2) = Ret (Ok (), h', ?p, ?w)"
    using add_dir_entry_law [of "d_inode (v_dentries s1 0)" "fresh_inode t0 0 DIRECTORY" "demo_store 2" t2 ?h name True] assms(4)
    by (simp add: s1 Ramfs_create_def from_Inode_def demo_store_def fresh_inode_def dir_ok_def dir_entries_def map_filter_def)
  let ?s = "s1\<lparr>v_fss := (v_fss s1)(0 := ?sb), v_store := ?w, v_dentries := (v_dentries s1)(0 := (v_dentries s1 0)\<lparr>d_inode := ?p\<rparr>)\<rparr>"
  have bs: "entries_ok ?sb ?bs" "dir_map ?bs name = Some 1"
    using entries_ok_append(1) [of ?sb "[]" 1 _ name] dir_map_append [of ?sb "[]" 1 _ name] assms(3-5)
    by (simp_all add: entries_ok_Nil dir_entries_def map_filter_def)
  note rc = parent_of_root_child [OF assms(1,2)]
  have root: "components ''/'' = [RootDir]" by code_simp
  have start: "start_of pr ?s (''/'' @ name) = Some ''/''" using rc(2) assms(5) s1(2) by (simp add: start_of_def)
  have ok: "dentry_fresh ?s 0" "vfs_ok ?s (d_fs (v_dentries ?s 0))"
    using bs(1) by (simp_all add: dentry_fresh_def vfs_ok_def s1 from_Inode_def fresh_inode_def entries_ok_def dir_ok_def)
  have wk: "walk (v_fss ?s (d_fs (v_dentries ?s 0))) (v_store ?s) (i_num (d_inode (v_dentries ?s 0)))
      (drop (length (components ''/'')) (components (''/'' @ name))) = Ok 1"
    using bs(2) unfolding rc(1) root by (simp add: s1 from_Inode_def fresh_inode_def)
  have cache: "v_cache ?s ''/'' = Some (0, t0)" using s1(2) by simp
  obtain d s2 where get: "DirectoryCache_get order pr t3 (''/'' @ name) ?s = Ret (Ok d, s2)" "i_num (d_inode (v_dentries s2 d)) = 1"
    using get_walk_law [OF start cache ok, of order t3] unfolding wk result.case by blast
  have num: "i_num ?h = 1" "i_num ?p = 0" by (simp_all add: from_Inode_def fresh_inode_def)
  show ?thesis
    by (intro exI conjI) (rule s1(1) create mk get(1) | simp only: get(2) num)+
qed

theorem mount_create_lookup_witness:
  "\<exists>s1 h sb w h' p w' d s2. mount_fs demo_order Dev 1 0 None vfs_empty = Ret (Ok (), s1) \<and>
    create_inode Dev 2 (v_fss s1 0) (v_store s1) = Ret (Ok h, sb, w) \<and>
    Inode_create (ramfs_ops 3) h (d_inode (v_dentries s1 0)) (Normal ''init'') w = Ret (Ok (), h', p, w') \<and>
    DirectoryCache_get demo_order Dev 4 (''/'' @ ''init'')
      (s1\<lparr>v_fss := (v_fss s1)(0 := sb), v_store := w', v_dentries := (v_dentries s1)(0 := (v_dentries s1 0)\<lparr>d_inode := p\<rparr>)\<rparr>) =
        Ret (Ok d, s2) \<and>
    i_num (d_inode (v_dentries s2 d)) = i_num h \<and> i_num h \<noteq> i_num p"
  by (rule mount_create_lookup) (code_simp+)

end
