(* ===== verification/Ext2.thy ===== *)
theory Ext2
  imports Kernel_Prelude
begin

text \<open>
  \<open>fs/ext2\<close>: the on-disk structures of ext2.  The sources declare the structures, their sizes and their
  flags and nothing that works on them.  A structure is the list of its fields with the type of each,
  in the order of the declaration.
\<close>

subsection \<open>Field types and layouts\<close>

datatype field_type = U8 | U16 | U32 | U128 | Bytes nat | Words nat

text \<open>The size and the alignment of a field; \<open>u128\<close> is aligned as two \<open>u64\<close>.\<close>

fun field_size :: "field_type \<Rightarrow> nat" where
  "field_size U8 = 1"
| "field_size U16 = 2"
| "field_size U32 = 4"
| "field_size U128 = 16"
| "field_size (Bytes n) = n"
| "field_size (Words n) = 4 * n"

fun field_align :: "field_type \<Rightarrow> nat" where
  "field_align U8 = 1"
| "field_align U16 = 2"
| "field_align U32 = 4"
| "field_align U128 = 8"
| "field_align (Bytes n) = 1"
| "field_align (Words n) = 4"

type_synonym layout = "(string \<times> field_type) list"

definition layout_size :: "layout \<Rightarrow> nat" where
  "layout_size l = sum_list (map (field_size \<circ> snd) l)"

fun offsets :: "nat \<Rightarrow> layout \<Rightarrow> (string \<times> nat) list" where
  "offsets n [] = []"
| "offsets n ((f, t) # l) = (f, n) # offsets (n + field_size t) l"

fun no_padding :: "nat \<Rightarrow> layout \<Rightarrow> bool" where
  "no_padding n [] = True"
| "no_padding n ((f, t) # l) = (field_align t dvd n \<and> no_padding (n + field_size t) l)"

definition ext2_BlockGroup :: layout where
  "ext2_BlockGroup =
     [(''block_usage_bitmap_block'', U32), (''inode_usage_bitmap_block'', U32), (''inode_table_block'', U32),
      (''unallocated_blocks_count'', U16), (''unallocated_inodes_count'', U16), (''directories_count'', U16), (''_unused'', Bytes 14)]"

definition ext2_Inode :: layout where
  "ext2_Inode =
     [(''tp_and_perm'', U16), (''user_id'', U16), (''size_lo'', U32), (''last_access_time'', U32), (''creation_time'', U32),
      (''last_modification_time'', U32), (''deletion_time'', U32), (''group_id'', U16), (''hard_link_count'', U16),
      (''disk_sectors'', U32), (''flags'', U32), (''os_specific_value_1'', U32), (''direct_block_pointers'', Words 12),
      (''singly_indirect_block_pointer'', U32), (''doubly_indirect_block_pointer'', U32), (''triply_indirect_block_pointer'', U32),
      (''generation_number'', U32), (''extended_attribute_block'', U32), (''size_hi'', U32), (''fragment_block_address'', U32),
      (''os_specific_value_2'', Words 3)]"

definition ext2_SuperBlock :: layout where
  "ext2_SuperBlock =
     [(''inode_count'', U32), (''block_count'', U32), (''reserved_block_count'', U32), (''unallocated_block_count'', U32),
      (''unallocated_inode_count'', U32), (''superblock_block_number'', U32), (''block_size'', U32), (''fragment_size'', U32),
      (''blocks_per_group'', U32), (''fragments_per_group'', U32), (''inodes_per_group'', U32), (''last_mount_time'', U32),
      (''last_write_time'', U32), (''mount_count'', U16), (''max_mount_count'', U16), (''magic'', U16), (''state'', U16),
      (''errors'', U16), (''minor_version'', U16), (''last_check_time'', U32), (''check_interval'', U32), (''creator_os'', U32),
      (''major_version'', U32), (''reserved_blocks_uid'', U16), (''reserved_blocks_gid'', U16), (''first_non_reserved_inode'', U32),
      (''inode_size'', U16), (''block_group_number'', U16), (''optional_features'', U32), (''required_features'', U32),
      (''readonly_features'', U32), (''filesystem_id'', U128), (''volume_name'', Bytes 16), (''path_to_last_mounted'', Bytes 64),
      (''compression_algorithms'', U32), (''block_preallocations_for_files'', U8), (''block_preallocations_for_directories'', U8),
      (''_unused'', U16), (''journal_id'', U128), (''journal_inode'', U32), (''journal_device'', U32),
      (''orphan_inode_list_head'', U32), (''_unused2'', Bytes 788)]"

subsection \<open>Flags\<close>

definition ext2_Type :: "(string \<times> 16 word) list" where
  "ext2_Type =
     [(''FIFO'', 0x1000), (''CHARACTER_DEVICE'', 0x2000), (''DIRECTORY'', 0x4000), (''BLOCK_DEVICE'', 0x6000),
      (''REGULAR_FILE'', 0x8000), (''SYMBOLIC_LINK'', 0xA000), (''SOCKET'', 0xC000)]"

definition ext2_Permission :: "(string \<times> 16 word) list" where
  "ext2_Permission =
     [(''OTHER_EXECUTE'', 0x01), (''OTHER_WRITE'', 0x02), (''OTHER_READ'', 0x04), (''GROUP_EXECUTE'', 0x10), (''GROUP_WRITE'', 0x20),
      (''GROUP_READ'', 0x40), (''USER_EXECUTE'', 0x100), (''USER_WRITE'', 0x200), (''USER_READ'', 0x400), (''STICKY'', 0x1000),
      (''SET_GROUP_ID'', 0x2000), (''SET_USER_ID'', 0x4000)]"

definition ext2_InodeFlags :: "(string \<times> 32 word) list" where
  "ext2_InodeFlags =
     [(''SECURE_DELETION'', 0x00000001), (''KEEP_COPY_ON_DELETE'', 0x00000002), (''FILE_COMPRESSION'', 0x00000004),
      (''SYNC_CHANGES'', 0x00000008), (''IMMUTABLE_FILE'', 0x00000010), (''APPEND_ONLY'', 0x00000020), (''NO_DUMP'', 0x00000040),
      (''LAST_ACCESS_TIME'', 0x00000080), (''HASH_INDEXED_DIRECTORY'', 0x00010000), (''AFS_DIRECTORY'', 0x00020000),
      (''JOURNAL_FILE_DATA'', 0x00040000)]"

datatype FileSystemState = Clean | Error

fun state_u16 :: "FileSystemState \<Rightarrow> 16 word" where
  "state_u16 Clean = 1"
| "state_u16 Error = 2"

datatype ErrorHandlingMethod = Ignore | RemountAsReadOnly | KernelPanic

fun errors_u16 :: "ErrorHandlingMethod \<Rightarrow> 16 word" where
  "errors_u16 Ignore = 1"
| "errors_u16 RemountAsReadOnly = 2"
| "errors_u16 KernelPanic = 3"

definition OptFeatures :: "(string \<times> 32 word) list" where
  "OptFeatures =
     [(''PREALLOCATE_BLOCKS_FOR_DIRECTORIES'', 0x0001), (''AFS_SERVER_INODES_EXIST'', 0x0002), (''HAS_JOURNAL'', 0x0004),
      (''INODES_HAVE_EXTENDED_ATTRIBUTES'', 0x0008), (''CAN_RESIZE'', 0x0010), (''DIRECTORIES_USE_HASH_INDEX'', 0x0020)]"

definition RequiredFeatures :: "(string \<times> 32 word) list" where
  "RequiredFeatures =
     [(''COMPRESSION'', 0x0001), (''DIRECTORY_TYPE_FIELD'', 0x0002), (''NEEDS_JOURNAL_REPLAY'', 0x0004), (''USES_JOURNAL_DEVICE'', 0x0008)]"

definition ReadOnlyFeatures :: "(string \<times> 32 word) list" where
  "ReadOnlyFeatures =
     [(''SPARSE_SUPERBLOCKS_AND_GROUP_DESCRIPTORS'', 0x0001), (''USES_64_BIT_FILE_SIZE'', 0x0002), (''HAS_BINARY_TREES'', 0x0004)]"

subsection \<open>Sizes and overlaps\<close>

text \<open>
  The sizes the sources assert are those of the fields, and in the order of declaration no field needs
  padding; the magic number, the file system id and the journal id are where ext2 has them.
\<close>

lemma ext2_layouts:
  "layout_size ext2_BlockGroup = 32" "no_padding 0 ext2_BlockGroup"
  "layout_size ext2_Inode = 128" "no_padding 0 ext2_Inode"
  "layout_size ext2_SuperBlock = 1024" "no_padding 0 ext2_SuperBlock"
  "{(''magic'', 56), (''filesystem_id'', 104), (''journal_id'', 208)} \<subseteq> set (offsets 0 ext2_SuperBlock)"
  by code_simp+

text \<open>Flags of one set are pairwise disjoint.\<close>

fun disjoint_flags :: "('a::len) word list \<Rightarrow> bool" where
  "disjoint_flags [] = True"
| "disjoint_flags (f # fs) = (f \<noteq> 0 \<and> list_all (\<lambda>g. f AND g = 0) fs \<and> disjoint_flags fs)"

lemma ext2_flags_disjoint:
  "disjoint_flags (map snd ext2_Permission)" "disjoint_flags (map snd ext2_InodeFlags)" "disjoint_flags (map snd OptFeatures)"
  "disjoint_flags (map snd RequiredFeatures)" "disjoint_flags (map snd ReadOnlyFeatures)"
  by (simp_all add: ext2_Permission_def ext2_InodeFlags_def OptFeatures_def RequiredFeatures_def ReadOnlyFeatures_def)

text \<open>
  Type and permission share the one field \<open>tp_and_perm\<close>, but their flags overlap: a file with the
  sticky bit is taken for a FIFO, and each of the set-id bits is part of a file type too.
\<close>

lemma ext2_type_permission_overlap:
  "the (map_of ext2_Permission ''STICKY'') = the (map_of ext2_Type ''FIFO'')"
  "the (map_of ext2_Permission ''SET_GROUP_ID'') = the (map_of ext2_Type ''CHARACTER_DEVICE'')"
  "the (map_of ext2_Permission ''SET_USER_ID'') = the (map_of ext2_Type ''DIRECTORY'')"
  by (simp_all add: ext2_Permission_def ext2_Type_def)

end
