(* ===== verification/Devices.thy ===== *)
theory Devices
  imports Kernel_Prelude
begin

text \<open>
  What the drivers see of the machine.  The instructions \<open>in\<close> and \<open>out\<close>, the registers of the local
  APIC, the I/O APIC (found through the ACPI tables, if there are any) and the time stamp counter belong to the \<open>x86\<close> and \<open>x86_64\<close> crates and to the
  hardware: they are a record of functions on a hardware state of any type.  Also here: \<open>u16\<close> and
  \<open>u32\<close> arithmetic under the two profiles, and loops that poll a device.
\<close>

datatype ApicRegister =
    XAPIC_TIMER_DIV_CONF
  | XAPIC_TIMER_INIT_COUNT
  | XAPIC_TIMER_CURRENT_COUNT
  | XAPIC_LVT_TIMER

record 'h devices =
  in8 :: "16 word \<Rightarrow> 'h \<Rightarrow> 8 word \<times> 'h"
  out8 :: "16 word \<Rightarrow> 8 word \<Rightarrow> 'h \<Rightarrow> 'h"
  lapic_read :: "ApicRegister \<Rightarrow> 'h \<Rightarrow> 32 word \<times> 'h"
  lapic_write :: "ApicRegister \<Rightarrow> 32 word \<Rightarrow> 'h \<Rightarrow> 'h"
  lapic_eoi :: "'h \<Rightarrow> 'h"
  lapic_attach :: "'h \<Rightarrow> 'h"
  ioapic_open :: "'h \<Rightarrow> 'h option"
  ioapic_disable_all :: "'h \<Rightarrow> 'h"
  ioapic_enable :: "8 word \<Rightarrow> 8 word \<Rightarrow> 'h \<Rightarrow> 'h"
  rdtsc :: "'h \<Rightarrow> 64 word \<times> 'h"

subsection \<open>Checked arithmetic on words\<close>

definition checked :: "profile \<Rightarrow> bool \<Rightarrow> 'a \<Rightarrow> 'a outcome" where
  "checked pr fits x = (if fits \<or> pr = Release then Ret x else Panic)"

definition word_add :: "profile \<Rightarrow> 'a::len word \<Rightarrow> 'a word \<Rightarrow> 'a word outcome" where
  "word_add pr a b = checked pr (unat a + unat b < 2 ^ LENGTH('a)) (a + b)"

definition word_sub :: "profile \<Rightarrow> 'a::len word \<Rightarrow> 'a word \<Rightarrow> 'a word outcome" where
  "word_sub pr a b = checked pr (b \<le> a) (a - b)"

definition word_mul :: "profile \<Rightarrow> 'a::len word \<Rightarrow> 'a word \<Rightarrow> 'a word outcome" where
  "word_mul pr a b = checked pr (unat a * unat b < 2 ^ LENGTH('a)) (a * b)"

lemma checked_simps [simp]: "checked pr True x = Ret x" "checked Release b x = Ret x" "checked Dev False x = Panic"
  by (simp_all add: checked_def)

subsection \<open>Polling loops\<close>

text \<open>\<open>body\<close> returns whether the loop goes on.\<close>

partial_function (option) repeat_while :: "('h \<Rightarrow> (bool \<times> 'h) outcome) \<Rightarrow> 'h \<Rightarrow> 'h outcome option" where
  "repeat_while body h =
     (case body h of
        Panic \<Rightarrow> Some Panic
      | Spin \<Rightarrow> Some Spin
      | Ret (go, h) \<Rightarrow> if go then repeat_while body h else Some (Ret h))"

lemma repeat_while_stop: "body h = Ret (False, h') \<Longrightarrow> repeat_while body h = Some (Ret h')"
  by (subst repeat_while.simps) simp

lemma repeat_while_go: "body h = Ret (True, h') \<Longrightarrow> repeat_while body h = repeat_while body h'"
  by (subst repeat_while.simps) simp

text \<open>A loop whose body goes on \<open>n\<close> times and then stops, returns.\<close>

lemma repeat_while_steps:
  assumes "\<And>i. i < n \<Longrightarrow> body (hs i) = Ret (True, hs (Suc i))" and "body (hs n) = Ret (False, h')"
  shows "repeat_while body (hs 0) = Some (Ret h')"
proof -
  have "repeat_while body (hs (n - k)) = Some (Ret h')" if "k \<le> n" for k
    using that
  proof (induction k)
    case 0
    then show ?case using assms(2) by (simp add: repeat_while_stop)
  next
    case (Suc k)
    then have "n - Suc k < n" "Suc (n - Suc k) = n - k" by simp_all
    with assms(1) [of "n - Suc k"] Suc show ?case by (simp add: repeat_while_go)
  qed
  from this [of n] show ?thesis by simp
qed

end
