(* ===== verification/Serial.thy ===== *)
theory Serial
  imports Devices
begin

text \<open>
  \<open>serial.rs\<close>: the driver of the first serial port.  \<open>Serial\<close> is the port number it holds.
\<close>

type_synonym Serial = "16 word"

datatype SerialError = SerialError

definition SERIAL_COM1 :: Serial where
  "SERIAL_COM1 = 0x3F8"

definition IRQ_COM1 :: "8 word" where
  "IRQ_COM1 = 4"

definition write_to_port :: "profile \<Rightarrow> 'h devices \<Rightarrow> 16 word \<Rightarrow> 'h \<Rightarrow> 16 word \<times> 8 word \<Rightarrow> 'h outcome" where
  "write_to_port pr D port h = (\<lambda>(off, byte). obind (word_add pr port off) (\<lambda>p. Ret (out8 D p byte h)))"

definition init_serial :: "profile \<Rightarrow> 'h devices \<Rightarrow> 16 word \<Rightarrow> 'h \<Rightarrow> ((SerialError, unit) result \<times> 'h) outcome" where
  "init_serial pr D port h =
     obind (ofold (write_to_port pr D port) h
        [(1, 0x00), (3, 0x80), (0, 0x03), (1, 0x00), (3, 0x03), (2, 0xC7), (4, 0x0B), (4, 0x1E), (0, 0xAE)]) (\<lambda>h.
     (let (byte, h) = in8 D port h in
      if byte \<noteq> 0xAE then Ret (Err SerialError, h)
      else obind (write_to_port pr D port h (4, 0x0F)) (\<lambda>h. Ret (Ok (), h))))"

definition Serial_new :: "profile \<Rightarrow> 'h devices \<Rightarrow> 16 word \<Rightarrow> 'h \<Rightarrow> ((SerialError, Serial) result \<times> 'h) outcome" where
  "Serial_new pr D port h =
     obind (init_serial pr D port h) (\<lambda>(r, h).
     case r of Err e \<Rightarrow> Ret (Err e, h) | Ok _ \<Rightarrow> Ret (Ok port, h))"

definition Serial_com1 :: "profile \<Rightarrow> 'h devices \<Rightarrow> 'h \<Rightarrow> ((SerialError, Serial) result \<times> 'h) outcome" where
  "Serial_com1 pr D h = Serial_new pr D SERIAL_COM1 h"

text \<open>The initialiser of the static \<open>COM1\<close> halts the machine when the port is faulty.\<close>

definition halt_and_never_return :: "'a outcome" where
  "halt_and_never_return = Spin"

definition COM1_init :: "profile \<Rightarrow> 'h devices \<Rightarrow> 'h \<Rightarrow> (Serial \<times> 'h) outcome" where
  "COM1_init pr D h =
     obind (Serial_com1 pr D h) (\<lambda>(r, h). case r of Err _ \<Rightarrow> halt_and_never_return | Ok serial \<Rightarrow> Ret (serial, h))"

definition enable_interrupts :: "profile \<Rightarrow> 'h devices \<Rightarrow> Serial \<Rightarrow> 'h \<Rightarrow> 'h outcome" where
  "enable_interrupts pr D port h =
     obind (write_to_port pr D port h (1, 0x01)) (\<lambda>h.
     obind (word_add pr port 2) (\<lambda>p.
     (let h = snd (in8 D p h);
          h = snd (in8 D port h)
      in Ret (ioapic_enable D IRQ_COM1 0 h))))"

definition write_byte :: "'h devices \<Rightarrow> Serial \<Rightarrow> 8 word \<Rightarrow> 'h \<Rightarrow> 'h" where
  "write_byte D port byte h = out8 D port byte h"

definition data_available :: "profile \<Rightarrow> 'h devices \<Rightarrow> Serial \<Rightarrow> 'h \<Rightarrow> (bool \<times> 'h) outcome" where
  "data_available pr D port h =
     obind (word_add pr port 5) (\<lambda>p. (let (v, h) = in8 D p h in Ret (v AND 1 = 1, h)))"

definition read_byte :: "profile \<Rightarrow> 'h devices \<Rightarrow> Serial \<Rightarrow> 'h \<Rightarrow> (8 word option \<times> 'h) outcome" where
  "read_byte pr D port h =
     obind (data_available pr D port h) (\<lambda>(avail, h).
     if avail then (let (v, h) = in8 D port h in Ret (Some v, h)) else Ret (None, h))"

definition echo_byte :: "'h devices \<Rightarrow> Serial \<Rightarrow> 8 word \<Rightarrow> 'h \<Rightarrow> 'h" where
  "echo_byte D port byte h =
     (if byte = 0x7f
      then write_byte D port 0x08 (write_byte D port 0x20 (write_byte D port 0x08 h))
      else if byte = 0x0d \<or> byte = 0x0a
      then write_byte D port 0x0a (write_byte D port 0x0d h)
      else write_byte D port byte h)"

definition handle_interrupt :: "profile \<Rightarrow> 'h devices \<Rightarrow> Serial \<Rightarrow> 'h \<Rightarrow> 'h outcome" where
  "handle_interrupt pr D port h =
     loop_result (repeat_while (\<lambda>h.
       obind (read_byte pr D port h) (\<lambda>(r, h).
       case r of None \<Rightarrow> Ret (False, h) | Some byte \<Rightarrow> Ret (True, echo_byte D port byte h))) h)"

definition write_str :: "'h devices \<Rightarrow> Serial \<Rightarrow> string \<Rightarrow> 'h \<Rightarrow> 'h" where
  "write_str D port s h = foldl (\<lambda>h c. write_byte D port (of_char c) h) h s"

subsection \<open>The 16550 as the driver uses it\<close>

text \<open>
  The registers, the receive queue and the bytes sent, and what the data sheet says of an access at
  an offset from the base port.  Bit 7 of the line control register switches offsets 0 and 1 to the
  baud rate divisor; bit 4 of the modem control register loops the transmitter back; bit 1 of the
  FIFO control register empties the receive queue; bit 0 of the line status register tells whether
  the queue holds a byte.
\<close>

record uart =
  ier :: "8 word"
  lcr :: "8 word"
  mcr :: "8 word"
  dll :: "8 word"
  dlm :: "8 word"
  rx :: "8 word list"
  tx :: "8 word list"

definition uart_out :: "nat \<Rightarrow> 8 word \<Rightarrow> uart \<Rightarrow> uart" where
  "uart_out off b u =
     (if off = 0 then
        (if bit (lcr u) 7 then u\<lparr>dll := b\<rparr> else if bit (mcr u) 4 then u\<lparr>rx := rx u @ [b]\<rparr> else u\<lparr>tx := tx u @ [b]\<rparr>)
      else if off = 1 then (if bit (lcr u) 7 then u\<lparr>dlm := b\<rparr> else u\<lparr>ier := b\<rparr>)
      else if off = 2 then (if bit b 1 then u\<lparr>rx := []\<rparr> else u)
      else if off = 3 then u\<lparr>lcr := b\<rparr>
      else if off = 4 then u\<lparr>mcr := b\<rparr> else u)"

definition uart_doc :: "'h devices \<Rightarrow> 16 word \<Rightarrow> ('h \<Rightarrow> uart) \<Rightarrow> bool" where
  "uart_doc D port U \<longleftrightarrow>
     unat port + 7 < 2 ^ 16 \<and>
     (\<forall>off b h. off < 5 \<longrightarrow> U (out8 D (port + of_nat off) b h) = uart_out off b (U h)) \<and>
     (\<forall>h. \<not> bit (lcr (U h)) 7 \<and> rx (U h) \<noteq> [] \<longrightarrow>
        fst (in8 D port h) = hd (rx (U h)) \<and> U (snd (in8 D port h)) = U h\<lparr>rx := tl (rx (U h))\<rparr>) \<and>
     (\<forall>h. \<not> bit (lcr (U h)) 7 \<and> rx (U h) = [] \<longrightarrow> U (snd (in8 D port h)) = U h) \<and>
     (\<forall>h. U (snd (in8 D (port + 2) h)) = U h) \<and>
     (\<forall>h. (bit (fst (in8 D (port + 5) h)) 0 \<longleftrightarrow> rx (U h) \<noteq> []) \<and> U (snd (in8 D (port + 5) h)) = U h) \<and>
     (\<forall>irq cpu h. U (ioapic_enable D irq cpu h) = U h)"

lemma uart_docD:
  assumes "uart_doc D port U"
  shows "\<And>off. unat off < 8 \<Longrightarrow> word_add pr port off = Ret (port + off)"
    and "U (out8 D port b h) = uart_out 0 b (U h)" and "U (out8 D (port + 1) b h) = uart_out 1 b (U h)"
    and "U (out8 D (port + 2) b h) = uart_out 2 b (U h)" and "U (out8 D (port + 3) b h) = uart_out 3 b (U h)"
    and "U (out8 D (port + 4) b h) = uart_out 4 b (U h)"
    and "\<not> bit (lcr (U h)) 7 \<Longrightarrow> rx (U h) = [] \<Longrightarrow> U (snd (in8 D port h)) = U h"
    and "\<not> bit (lcr (U h)) 7 \<Longrightarrow> rx (U h) = c # cs \<Longrightarrow> fst (in8 D port h) = c \<and> U (snd (in8 D port h)) = U h\<lparr>rx := cs\<rparr>"
    and "U (snd (in8 D (port + 2) h)) = U h" and "U (snd (in8 D (port + 5) h)) = U h"
    and "fst (in8 D (port + 5) h) AND 1 = 1 \<longleftrightarrow> rx (U h) \<noteq> []"
    and "U (ioapic_enable D irq cpu h) = U h"
proof -
  have out: "U (out8 D (port + of_nat off) b h) = uart_out off b (U h)" if "off < 5" for off b h
    using assms that by (simp add: uart_doc_def)
  from out [of 0] out [of 1] out [of 2] out [of 3] out [of 4]
  show "U (out8 D port b h) = uart_out 0 b (U h)" "U (out8 D (port + 1) b h) = uart_out 1 b (U h)"
    "U (out8 D (port + 2) b h) = uart_out 2 b (U h)" "U (out8 D (port + 3) b h) = uart_out 3 b (U h)"
    "U (out8 D (port + 4) b h) = uart_out 4 b (U h)" by simp_all
  show "word_add pr port off = Ret (port + off)" if "unat off < 8" for off
    using assms that by (simp add: uart_doc_def word_add_def)
  have "fst (in8 D (port + 5) h) AND 1 = 1 \<longleftrightarrow> bit (fst (in8 D (port + 5) h)) 0"
    by (simp add: and_one_eq bit_0 odd_iff_mod_2_eq_one)
  then show "fst (in8 D (port + 5) h) AND 1 = 1 \<longleftrightarrow> rx (U h) \<noteq> []"
    using assms by (simp add: uart_doc_def)
qed (use assms in \<open>simp_all add: uart_doc_def\<close>)

lemma write_to_port_doc:
  "uart_doc D port U \<Longrightarrow> unat off < 8 \<Longrightarrow> write_to_port pr D port h (off, byte) = Ret (out8 D (port + off) byte h)"
  by (simp add: write_to_port_def uart_docD(1))

lemma COM1_law:
  assumes "uart_doc D SERIAL_COM1 U"
  shows "\<exists>h' h''. COM1_init pr D h = Ret (SERIAL_COM1, h') \<and>
    U h' = \<lparr>ier = (if bit (lcr (U h)) 7 then ier (U h) else 0), lcr = 0x03, mcr = 0x0F, dll = 3, dlm = 0, rx = [], tx = tx (U h)\<rparr> \<and>
    enable_interrupts pr D SERIAL_COM1 h' = Ret h'' \<and> U h'' = U h'\<lparr>ier := 1\<rparr>"
proof -
  note doc = uart_docD [OF assms]
  let ?o = "\<lambda>k b h. out8 D (SERIAL_COM1 + k) b h"
  let ?t = "?o 0 0xAE (?o 4 0x1E (?o 4 0x0B (?o 2 0xC7 (?o 3 0x03 (?o 1 0 (?o 0 3 (?o 3 0x80 (?o 1 0 h))))))))"
  have t: "U ?t = \<lparr>ier = (if bit (lcr (U h)) 7 then ier (U h) else 0), lcr = 0x03, mcr = 0x1E, dll = 3, dlm = 0, rx = [0xAE], tx = tx (U h)\<rparr>"
    by (simp add: doc(2-6) uart_out_def)
  have r: "fst (in8 D SERIAL_COM1 ?t) = 0xAE" "U (snd (in8 D SERIAL_COM1 ?t)) = U ?t\<lparr>rx := []\<rparr>"
    using doc(8) [of ?t "0xAE" "[]"] t by simp_all
  let ?h = "?o 4 0x0F (snd (in8 D SERIAL_COM1 ?t))"
  have init: "COM1_init pr D h = Ret (SERIAL_COM1, ?h)"
    using r(1) by (simp add: COM1_init_def Serial_com1_def Serial_new_def init_serial_def write_to_port_doc [OF assms] case_prod_beta Let_def)
  have h: "U ?h = \<lparr>ier = (if bit (lcr (U h)) 7 then ier (U h) else 0), lcr = 0x03, mcr = 0x0F, dll = 3, dlm = 0, rx = [], tx = tx (U h)\<rparr>"
    using r(2) t by (simp add: doc(6) uart_out_def)
  let ?e = "snd (in8 D (SERIAL_COM1 + 2) (?o 1 1 ?h))"
  have "U ?e = U ?h\<lparr>ier := 1\<rparr>" using h by (simp add: doc(3,9) uart_out_def)
  then have "U (snd (in8 D SERIAL_COM1 ?e)) = U ?h\<lparr>ier := 1\<rparr>" using doc(7) [of ?e] h by simp
  then have "\<exists>h''. enable_interrupts pr D SERIAL_COM1 ?h = Ret h'' \<and> U h'' = U ?h\<lparr>ier := 1\<rparr>"
    using doc(12) by (simp add: enable_interrupts_def write_to_port_doc [OF assms] doc(1) Let_def)
  with init h show ?thesis by blast
qed

text \<open>
  C35: On a working 16550 the initialiser of \<open>COM1\<close> returns: whatever state the chip was in, it is left out of
  loopback with 8 data bits, no parity and one stop bit, divisor 3 (38400 baud), an empty receive
  queue and nothing sent.  Enabling interrupts then sets just the receive interrupt.
\<close>

theorem COM1_ready:
  assumes "uart_doc D SERIAL_COM1 U"
  shows "\<exists>h' h''. COM1_init pr D h = Ret (SERIAL_COM1, h') \<and>
    U h' = \<lparr>ier = (if bit (lcr (U h)) 7 then ier (U h) else 0), lcr = 0x03, mcr = 0x0F, dll = 3, dlm = 0, rx = [], tx = tx (U h)\<rparr> \<and>
    enable_interrupts pr D SERIAL_COM1 h' = Ret h'' \<and> U h'' = U h'\<lparr>ier := 1\<rparr>"
  using assms by (rule COM1_law)

text \<open>A port that does not return the test byte stops the machine.\<close>

lemma COM1_faulty:
  assumes "\<And>h. fst (in8 D SERIAL_COM1 h) \<noteq> 0xAE"
  shows "COM1_init pr D h = Spin"
proof -
  have "word_add pr SERIAL_COM1 k = Ret (SERIAL_COM1 + k)" if "unat k < 8" for k
    using that by (simp add: word_add_def SERIAL_COM1_def)
  then show ?thesis
    using assms by (simp add: COM1_init_def halt_and_never_return_def Serial_com1_def Serial_new_def init_serial_def write_to_port_def case_prod_beta Let_def)
qed

subsection \<open>Echoing what is typed\<close>

definition echo :: "8 word \<Rightarrow> 8 word list" where
  "echo b = (if b = 0x7f then [0x08, 0x20, 0x08] else if b = 0x0d \<or> b = 0x0a then [0x0d, 0x0a] else [b])"

definition uart_open :: "uart \<Rightarrow> bool" where
  "uart_open u \<longleftrightarrow> \<not> bit (lcr u) 7 \<and> \<not> bit (mcr u) 4"

lemma write_byte_doc: "uart_doc D port U \<Longrightarrow> uart_open (U h) \<Longrightarrow> U (write_byte D port b h) = U h\<lparr>tx := tx (U h) @ [b]\<rparr>"
  by (simp add: write_byte_def uart_docD(2) uart_out_def uart_open_def)

lemma uart_open_tx [simp]: "uart_open (u\<lparr>tx := bs\<rparr>) = uart_open u" "uart_open (u\<lparr>rx := bs\<rparr>) = uart_open u"
  by (simp_all add: uart_open_def)

lemma echo_byte_doc: "uart_doc D port U \<Longrightarrow> uart_open (U h) \<Longrightarrow> U (echo_byte D port b h) = U h\<lparr>tx := tx (U h) @ echo b\<rparr>"
  by (simp add: echo_byte_def echo_def write_byte_doc)

text \<open>What the kernel relies on to print: a byte that is put is sent after those before it.\<close>

locale console =
  fixes put :: "'b \<Rightarrow> 'h \<Rightarrow> 'h" and ready :: "'h \<Rightarrow> bool" and sent :: "'h \<Rightarrow> 'b list"
  assumes put_ready: "ready h \<Longrightarrow> ready (put b h)"
    and put_sent: "ready h \<Longrightarrow> sent (put b h) = sent h @ [b]"
begin

lemma puts:
  assumes "ready h"
  shows "ready (foldl (\<lambda>h b. put b h) h bs)" and "sent (foldl (\<lambda>h b. put b h) h bs) = sent h @ bs"
  using assms by (induction bs arbitrary: h) (simp_all add: put_ready put_sent)

end

interpretation com1: console "write_byte D port" "\<lambda>h. uart_doc D port U \<and> uart_open (U h)" "\<lambda>h. tx (U h)" for D port U
  by unfold_locales (auto simp: write_byte_doc)

lemma write_str_puts: "write_str D port s h = foldl (\<lambda>h b. write_byte D port b h) h (map of_char s)"
  by (simp add: write_str_def foldl_map)

lemma read_byte_doc:
  assumes "uart_doc D port U" and "uart_open (U h)"
  shows "rx (U h) = [] \<Longrightarrow> \<exists>h'. read_byte pr D port h = Ret (None, h') \<and> U h' = U h"
    and "rx (U h) = c # cs \<Longrightarrow> \<exists>h'. read_byte pr D port h = Ret (Some c, h') \<and> U h' = U h\<lparr>rx := cs\<rparr>"
proof -
  note doc = uart_docD [OF assms(1)]
  let ?h = "snd (in8 D (port + 5) h)"
  have read: "read_byte pr D port h = (if rx (U h) \<noteq> [] then Ret (Some (fst (in8 D port ?h)), snd (in8 D port ?h)) else Ret (None, ?h))"
    by (simp add: read_byte_def data_available_def doc(1,11) case_prod_beta Let_def)
  show "rx (U h) = [] \<Longrightarrow> \<exists>h'. read_byte pr D port h = Ret (None, h') \<and> U h' = U h" by (simp add: read doc(10))
  show "rx (U h) = c # cs \<Longrightarrow> \<exists>h'. read_byte pr D port h = Ret (Some c, h') \<and> U h' = U h\<lparr>rx := cs\<rparr>"
    using doc(8) [of ?h c cs] doc(10) [of h] assms(2) by (simp add: read uart_open_def)
qed

lemma handle_interrupt_law:
  assumes "uart_doc D port U" and "uart_open (U h)"
  shows "\<exists>h'. handle_interrupt pr D port h = Ret h' \<and> U h' = U h\<lparr>rx := [], tx := tx (U h) @ concat (map echo (rx (U h)))\<rparr>"
  using assms(2)
proof (induction "rx (U h)" arbitrary: h)
  case Nil
  then obtain h' where "read_byte pr D port h = Ret (None, h')" "U h' = U h" using read_byte_doc(1) [OF assms(1)] by metis
  with Nil show ?case by (simp add: handle_interrupt_def repeat_while_stop)
next
  case (Cons c cs)
  then obtain h' where h': "read_byte pr D port h = Ret (Some c, h')" "U h' = U h\<lparr>rx := cs\<rparr>"
    using read_byte_doc(2) [OF assms(1)] by metis
  let ?h = "echo_byte D port c h'"
  have e: "U ?h = U h\<lparr>rx := cs, tx := tx (U h) @ echo c\<rparr>" using h'(2) Cons.prems by (simp add: echo_byte_doc [OF assms(1)])
  have "handle_interrupt pr D port h = handle_interrupt pr D port ?h"
    using h'(1) unfolding handle_interrupt_def by (subst repeat_while_go [where h' = ?h]) simp_all
  with Cons.hyps(1) [of ?h] Cons.hyps(2) [symmetric] Cons.prems e show ?case by simp
qed


subsection \<open>A machine with nothing but the port\<close>

definition demo_uart :: "uart devices" where
  "demo_uart = \<lparr>
     in8 = (\<lambda>p u. if p = SERIAL_COM1 + 5 then (if rx u = [] then 0 else 1, u)
                 else if p = SERIAL_COM1 \<and> \<not> bit (lcr u) 7 \<and> rx u \<noteq> [] then (hd (rx u), u\<lparr>rx := tl (rx u)\<rparr>) else (0, u)),
     out8 = (\<lambda>p b u. uart_out (unat (p - SERIAL_COM1)) b u),
     lapic_read = (\<lambda>r u. (0, u)), lapic_write = (\<lambda>r v u. u), lapic_eoi = (\<lambda>u. u), lapic_attach = (\<lambda>u. u),
     ioapic_open = Some, ioapic_disable_all = (\<lambda>u. u), ioapic_enable = (\<lambda>i c u. u), rdtsc = (\<lambda>u. (0, u))\<rparr>"

definition demo_chip :: uart where
  "demo_chip = \<lparr>ier = 1, lcr = 3, mcr = 0x0F, dll = 3, dlm = 0, rx = [0x68, 0x69, 0x7f, 0x0d], tx = []\<rparr>"

lemma demo_uart_doc: "uart_doc demo_uart SERIAL_COM1 (\<lambda>u. u)"
  by (auto simp: uart_doc_def demo_uart_def SERIAL_COM1_def unat_of_nat)

theorem COM1_ready_witness:
  "\<exists>h' h''. COM1_init Dev demo_uart demo_chip = Ret (SERIAL_COM1, h') \<and>
     h' = demo_chip\<lparr>ier := 0, rx := []\<rparr> \<and> enable_interrupts Dev demo_uart SERIAL_COM1 h' = Ret h'' \<and> h'' = h'\<lparr>ier := 1\<rparr>"
  using COM1_ready [OF demo_uart_doc, of Dev demo_chip] by (simp add: demo_chip_def)


end
