(* ===== verification/Timer.thy ===== *)
theory Timer
  imports Devices
begin

text \<open>
  \<open>pit.rs\<close>, \<open>time.rs\<close> and the clock calibration of \<open>apic.rs\<close>: the programmable interval timer, the
  tick counter and the periodic timer of the local APIC.  The locks of the timers are not held across
  calls and interrupts are off during a calibration, so they do not appear.
\<close>

subsection \<open>The interval timer\<close>

datatype Channel = Channel0 | Channel1 | Channel2

datatype AccessMode = LatchCountValue | LoByte | HiByte | LoHiByte

datatype OperatingMode =
    InterruptOnTerminalCount
  | HardwareRetriggerableOneShot
  | RateGenerator
  | SquareWaveGenerator
  | SoftwareTriggeredStrobe
  | HardwareTriggeredStrobe

datatype TryFromIntError = TryFromIntError

fun channel_u8 :: "Channel \<Rightarrow> 8 word" where
  "channel_u8 Channel0 = 0"
| "channel_u8 Channel1 = 1"
| "channel_u8 Channel2 = 2"

fun access_u8 :: "AccessMode \<Rightarrow> 8 word" where
  "access_u8 LatchCountValue = 0"
| "access_u8 LoByte = 1"
| "access_u8 HiByte = 2"
| "access_u8 LoHiByte = 3"

fun mode_u8 :: "OperatingMode \<Rightarrow> 8 word" where
  "mode_u8 InterruptOnTerminalCount = 0"
| "mode_u8 HardwareRetriggerableOneShot = 1"
| "mode_u8 RateGenerator = 2"
| "mode_u8 SquareWaveGenerator = 3"
| "mode_u8 SoftwareTriggeredStrobe = 4"
| "mode_u8 HardwareTriggeredStrobe = 5"

fun channel_port :: "Channel \<Rightarrow> 16 word" where
  "channel_port Channel0 = 0x40"
| "channel_port Channel1 = 0x41"
| "channel_port Channel2 = 0x42"

definition TIMER_FREQUENCY :: "32 word" where
  "TIMER_FREQUENCY = 1193182"

record Pit =
  pit_ch :: "16 word"
  pit_cmd :: "16 word"

definition Pit_new :: "Channel \<Rightarrow> Pit" where
  "Pit_new c = \<lparr>pit_ch = channel_port c, pit_cmd = 0x43\<rparr>"

definition PIT0 :: Pit where "PIT0 = Pit_new Channel0"
definition PIT1 :: Pit where "PIT1 = Pit_new Channel1"
definition PIT2 :: Pit where "PIT2 = Pit_new Channel2"

definition set_cmd :: "'h devices \<Rightarrow> 16 word \<Rightarrow> Channel \<Rightarrow> AccessMode \<Rightarrow> OperatingMode \<Rightarrow> 'h \<Rightarrow> 'h" where
  "set_cmd D cmd channel access_mode operating_mode h =
     (let val = channel_u8 channel;
          val = val OR push_bit 4 (access_u8 access_mode);
          val = val OR push_bit 1 (mode_u8 operating_mode)
      in out8 D cmd val h)"

definition PIT_start_timer ::
    "'h devices \<Rightarrow> Pit \<Rightarrow> OperatingMode \<Rightarrow> 32 word \<Rightarrow> 'h \<Rightarrow> ((TryFromIntError, unit) result \<times> 'h) outcome" where
  "PIT_start_timer D pit mode freq h =
     (if freq = 0 then Panic
      else if unat (TIMER_FREQUENCY div freq) > 0xFFFF then Ret (Err TryFromIntError, h)
      else
        (let divisor = ucast (TIMER_FREQUENCY div freq) :: 16 word;
             h = set_cmd D (pit_cmd pit) Channel0 LoHiByte mode h;
             h = out8 D (pit_ch pit) (ucast (divisor AND 0xff)) h;
             h = out8 D (pit_ch pit) (ucast (drop_bit 8 divisor)) h
         in Ret (Ok (), h)))"

definition get_count :: "'h devices \<Rightarrow> Pit \<Rightarrow> 'h \<Rightarrow> 16 word \<times> 'h" where
  "get_count D pit h =
     (let (lo, h) = in8 D (pit_ch pit) h;
          (hi, h) = in8 D (pit_ch pit) h
      in (push_bit 8 (ucast hi) OR ucast lo, h))"

definition wait_pit :: "'h devices \<Rightarrow> Pit \<Rightarrow> 'h \<Rightarrow> 'h outcome" where
  "wait_pit D pit h = loop_result (repeat_while (\<lambda>h. let (c, h) = get_count D pit h in Ret (c \<noteq> 0, h)) h)"

subsection \<open>Ticks and the timer of the local APIC\<close>

definition TICK_FREQ :: "32 word" where
  "TICK_FREQ = 1000"

definition ticks_inc :: "64 word \<Rightarrow> 64 word" where
  "ticks_inc t = t + 1"

definition start_timer :: "profile \<Rightarrow> 'h devices \<Rightarrow> 'h \<Rightarrow> 'h outcome" where
  "start_timer pr D h =
     (let h = lapic_write D XAPIC_TIMER_DIV_CONF 0x3 h in
      obind (PIT_start_timer D PIT0 InterruptOnTerminalCount 100 h) (\<lambda>(r, h).
      case r of
        Err _ \<Rightarrow> Panic
      | Ok _ \<Rightarrow>
          (let h = lapic_write D XAPIC_TIMER_INIT_COUNT 0xffffffff h in
           obind (wait_pit D PIT0 h) (\<lambda>h.
           (let h = lapic_write D XAPIC_LVT_TIMER 0x10000 h;
                (current, h) = lapic_read D XAPIC_TIMER_CURRENT_COUNT h
            in obind (word_sub pr 0xFFFFFFFF current) (\<lambda>ticks_per_10ms.
               obind (word_mul pr ticks_per_10ms 100) (\<lambda>ticks_per_s.
               (let h = lapic_write D XAPIC_LVT_TIMER (0x20 OR 0x20000) h;
                    h = lapic_write D XAPIC_TIMER_DIV_CONF 0x3 h
                in Ret (lapic_write D XAPIC_TIMER_INIT_COUNT (ticks_per_s div TICK_FREQ) h)))))))))"

definition calc_cpu_freq :: "profile \<Rightarrow> 'h devices \<Rightarrow> 'h \<Rightarrow> (64 word \<times> 'h) outcome" where
  "calc_cpu_freq pr D h =
     obind (PIT_start_timer D PIT0 InterruptOnTerminalCount 100 h) (\<lambda>(r, h).
     case r of
       Err _ \<Rightarrow> Panic
     | Ok _ \<Rightarrow>
         (let (start_tsc, h) = rdtsc D h in
          obind (wait_pit D PIT0 h) (\<lambda>h.
          (let (end_tsc, h) = rdtsc D h
           in obind (word_sub pr end_tsc start_tsc) (\<lambda>cycles_per_10ms.
              obind (word_mul pr cycles_per_10ms 100) (\<lambda>f. Ret (f, h)))))))"

subsection \<open>The 8254 as the driver uses it\<close>

text \<open>
  A control word selects the counter in bits 6 and 7, the access mode in bits 4 and 5 (0 latches
  instead of programming), the operating mode in bits 1 to 3 and BCD counting in bit 0.  A counter in
  access mode 3 takes the low byte of its count first and the high byte second.
\<close>

record counter =
  c_access :: "8 word"
  c_mode :: "8 word"
  c_bcd :: bool
  c_low :: "8 word option"
  c_reload :: "16 word"

definition counter_ctl :: "8 word \<Rightarrow> counter \<Rightarrow> counter" where
  "counter_ctl b c = c\<lparr>c_access := drop_bit 4 b AND 3, c_mode := drop_bit 1 b AND 7, c_bcd := bit b 0, c_low := None\<rparr>"

definition counter_data :: "8 word \<Rightarrow> counter \<Rightarrow> counter" where
  "counter_data b c = (case c_low c of None \<Rightarrow> c\<lparr>c_low := Some b\<rparr> | Some l \<Rightarrow> c\<lparr>c_low := None, c_reload := push_bit 8 (ucast b) OR ucast l\<rparr>)"

definition pit_doc :: "'h devices \<Rightarrow> ('h \<Rightarrow> 8 word \<Rightarrow> counter) \<Rightarrow> bool" where
  "pit_doc D C \<longleftrightarrow>
     (\<forall>b h. drop_bit 6 b < 3 \<and> drop_bit 4 b AND 3 \<noteq> 0 \<longrightarrow> C (out8 D 0x43 b h) = (C h)(drop_bit 6 b := counter_ctl b (C h (drop_bit 6 b)))) \<and>
     (\<forall>ch b h. c_access (C h (channel_u8 ch)) = 3 \<longrightarrow>
        C (out8 D (channel_port ch) b h) = (C h)(channel_u8 ch := counter_data b (C h (channel_u8 ch))))"

definition cmd_byte :: "OperatingMode \<Rightarrow> 8 word" where
  "cmd_byte m = channel_u8 Channel0 OR push_bit 4 (access_u8 LoHiByte) OR push_bit 1 (mode_u8 m)"

lemma cmd_byte_fields:
  "drop_bit 6 (cmd_byte m) = 0" "drop_bit 4 (cmd_byte m) AND 3 = 3" "drop_bit 1 (cmd_byte m) AND 7 = mode_u8 m" "\<not> bit (cmd_byte m) 0"
  by (cases m; simp add: cmd_byte_def)+

lemma counter_ctl_cmd:
  "counter_ctl (cmd_byte m) c = \<lparr>c_access = 3, c_mode = mode_u8 m, c_bcd = False, c_low = None, c_reload = c_reload c\<rparr>"
  unfolding counter_ctl_def cmd_byte_fields by (cases c) (simp add: cmd_byte_fields(4))

lemma join_bytes: "push_bit 8 (ucast (ucast (drop_bit 8 d) :: 8 word)) OR ucast (ucast (d AND 0xff) :: 8 word) = (d :: 16 word)"
proof (rule bit_word_eqI)
  fix n
  have ff: "(0xff :: 16 word) = mask 8" by (simp add: mask_eq_exp_minus_1)
  show "n < LENGTH(16) \<Longrightarrow>
      bit (push_bit 8 (ucast (ucast (drop_bit 8 d) :: 8 word)) OR ucast (ucast (d AND 0xff) :: 8 word) :: 16 word) n = bit d n"
    unfolding ff by (auto simp: bit_simps)
qed

definition divisor_of :: "32 word \<Rightarrow> 16 word" where
  "divisor_of freq = of_nat (1193182 div unat freq)"

lemma divisor_fits:
  assumes "freq \<noteq> 0"
  shows "unat (TIMER_FREQUENCY div freq) > 0xFFFF \<longleftrightarrow> freq < 19"
proof -
  have "0 < unat freq" using assms by (simp add: unat_gt_0)
  then have "65536 \<le> 1193182 div unat freq \<longleftrightarrow> 65536 * unat freq \<le> 1193182" by (rule less_eq_div_iff_mult_less_eq)
  then show ?thesis by (simp add: TIMER_FREQUENCY_def unat_div_distrib word_less_nat_alt) linarith
qed

lemma divisor_of_law: "ucast (TIMER_FREQUENCY div freq) = divisor_of freq"
proof -
  have "1193182 div unat freq = unat (TIMER_FREQUENCY div freq)" by (simp add: TIMER_FREQUENCY_def unat_div_distrib)
  then show ?thesis by (simp only: divisor_of_def of_nat_unat)
qed

lemma counter_two_bytes:
  "c_low c = None \<Longrightarrow> counter_data hi (counter_data lo c) = c\<lparr>c_reload := push_bit 8 (ucast hi) OR ucast lo\<rparr>"
  by (cases c) (simp add: counter_data_def)

lemma PIT_start_timer_law:
  assumes "pit_doc D C" and "19 \<le> freq"
    and "ch = Channel0 \<or> c_access (C h (channel_u8 ch)) = 3 \<and> c_low (C h (channel_u8 ch)) = None"
  shows "\<exists>h'. PIT_start_timer D (Pit_new ch) mode freq h = Ret (Ok (), h') \<and>
    C h' = (let C0 = (C h)(0 := counter_ctl (cmd_byte mode) (C h 0))
      in C0(channel_u8 ch := C0 (channel_u8 ch)\<lparr>c_reload := divisor_of freq\<rparr>))"
proof -
  let ?d = "divisor_of freq" and ?n = "channel_u8 ch"
  let ?lo = "ucast (?d AND 0xff)" and ?hi = "ucast (drop_bit 8 ?d)"
  let ?h1 = "out8 D 0x43 (cmd_byte mode) h"
  let ?h2 = "out8 D (channel_port ch) ?lo ?h1"
  let ?h3 = "out8 D (channel_port ch) ?hi ?h2"
  have f: "freq \<noteq> 0" "\<not> freq < 19" using assms(2) by auto
  then have start: "PIT_start_timer D (Pit_new ch) mode freq h = Ret (Ok (), ?h3)"
    using divisor_fits [OF f(1)] by (simp add: PIT_start_timer_def set_cmd_def Pit_new_def cmd_byte_def Let_def divisor_of_law)
  have h1: "C ?h1 = (C h)(0 := counter_ctl (cmd_byte mode) (C h 0))"
    using assms(1) cmd_byte_fields by (simp add: pit_doc_def)
  have n: "c_access (C ?h1 ?n) = 3" "c_low (C ?h1 ?n) = None"
    using assms(3) cmd_byte_fields by (auto simp: h1 counter_ctl_def)
  have data: "C (out8 D (channel_port ch) b g) = (C g)(?n := counter_data b (C g ?n))" if "c_access (C g ?n) = 3" for b g
    using assms(1) that by (simp add: pit_doc_def)
  have h2: "C ?h2 = (C ?h1)(?n := counter_data ?lo (C ?h1 ?n))" by (rule data [OF n(1)])
  have "c_access (C ?h2 ?n) = 3" using n by (simp add: h2 counter_data_def)
  from data [OF this] have "C ?h3 = (C ?h1)(?n := C ?h1 ?n\<lparr>c_reload := ?d\<rparr>)"
    by (simp add: h2 counter_two_bytes [OF n(2)] join_bytes)
  then show ?thesis using start h1 by (auto simp: Let_def)
qed

text \<open>
  C37: The first timer: a frequency of 0 panics, one below 19 Hz is refused without touching the hardware,
  and every other programs counter 0 for binary counting in the mode asked for, with the number of
  clock cycles per period as its count.
\<close>

theorem PIT0_start_timer:
  assumes "pit_doc D C"
  shows "if freq = 0 then PIT_start_timer D PIT0 mode freq h = Panic
    else if freq < 19 then PIT_start_timer D PIT0 mode freq h = Ret (Err TryFromIntError, h)
    else \<exists>h'. PIT_start_timer D PIT0 mode freq h = Ret (Ok (), h') \<and>
      C h' = (C h)(0 := \<lparr>c_access = 3, c_mode = mode_u8 mode, c_bcd = False, c_low = None, c_reload = of_nat (1193182 div unat freq)\<rparr>)"
proof -
  consider "freq = 0" | "freq \<noteq> 0" "freq < 19" | "freq \<noteq> 0" "19 \<le> freq" using not_less by blast
  then show ?thesis
  proof cases
    case 3
    then have "\<not> freq < 19" by (simp add: not_less)
    with PIT_start_timer_law [OF assms 3(2), of Channel0 h mode] 3(1) show ?thesis
      by (simp add: PIT0_def counter_ctl_cmd divisor_of_def Let_def)
  qed (simp_all add: PIT_start_timer_def divisor_fits)
qed

text \<open>
  C38: The other two timers program the wrong counter: their control word goes to counter 0, which loses
  its mode and waits for a count, while their own counter keeps its mode.
\<close>

theorem PIT12_reprogram_counter_0:
  assumes "pit_doc D C" and "19 \<le> freq" and "pit = PIT1 \<and> n = 1 \<or> pit = PIT2 \<and> n = 2"
    and "c_access (C h n) = 3" and "c_low (C h n) = None"
  shows "\<exists>h'. PIT_start_timer D pit mode freq h = Ret (Ok (), h') \<and>
    C h' 0 = \<lparr>c_access = 3, c_mode = mode_u8 mode, c_bcd = False, c_low = None, c_reload = c_reload (C h 0)\<rparr> \<and>
    C h' n = C h n\<lparr>c_reload := of_nat (1193182 div unat freq)\<rparr>"
proof -
  obtain ch where ch: "pit = Pit_new ch" "n = channel_u8 ch" "n \<noteq> 0"
    using assms(3) by (auto simp: PIT1_def PIT2_def intro: that [of Channel1] that [of Channel2])
  with PIT_start_timer_law [OF assms(1,2), of ch h mode] assms(4,5) show ?thesis
    by (auto simp: counter_ctl_cmd divisor_of_def Let_def)
qed

subsection \<open>Calibration\<close>

text \<open>The count of the first timer reaches 0 however often it is read.\<close>

definition pit_expires :: "'h devices \<Rightarrow> bool" where
  "pit_expires D \<longleftrightarrow> (\<forall>h. \<exists>n. fst (get_count D PIT0 (((\<lambda>h. snd (get_count D PIT0 h)) ^^ n) h)) = 0)"

definition lapic_doc :: "'h devices \<Rightarrow> ('h \<Rightarrow> ApicRegister \<Rightarrow> 32 word) \<Rightarrow> bool" where
  "lapic_doc D L \<longleftrightarrow>
     (\<forall>r v h r'. r' \<noteq> XAPIC_TIMER_CURRENT_COUNT \<longrightarrow> L (lapic_write D r v h) r' = (if r' = r then v else L h r'))"

text \<open>A part \<open>U\<close> of the machine that accesses to the two timers leave alone.\<close>

definition apart_from_timers :: "'h devices \<Rightarrow> ('h \<Rightarrow> 'u) \<Rightarrow> bool" where
  "apart_from_timers D U \<longleftrightarrow>
     (\<forall>r v h. U (lapic_write D r v h) = U h) \<and> (\<forall>r h. U (snd (lapic_read D r h)) = U h) \<and>
     (\<forall>b h. U (out8 D 0x40 b h) = U h \<and> U (out8 D 0x43 b h) = U h) \<and> (\<forall>h. U (snd (in8 D 0x40 h)) = U h)"

lemma get_count_apart: "apart_from_timers D U \<Longrightarrow> U (snd (get_count D PIT0 h)) = U h"
  by (simp add: get_count_def apart_from_timers_def PIT0_def Pit_new_def case_prod_beta Let_def)

lemma wait_pit_returns:
  assumes "pit_expires D" and "apart_from_timers D U"
  shows "\<exists>h'. wait_pit D PIT0 h = Ret h' \<and> U h' = U h"
proof -
  let ?poll = "\<lambda>h. snd (get_count D PIT0 h)" and ?zero = "\<lambda>h. fst (get_count D PIT0 h) = 0"
  let ?n = "LEAST n. ?zero ((?poll ^^ n) h)"
  have stop: "?zero ((?poll ^^ ?n) h)" using assms(1) unfolding pit_expires_def by (metis (mono_tags, lifting) LeastI)
  have go: "\<not> ?zero ((?poll ^^ i) h)" if "i < ?n" for i by (rule not_less_Least [OF that])
  have "repeat_while (\<lambda>h. let (c, h) = get_count D PIT0 h in Ret (c \<noteq> 0, h)) ((?poll ^^ 0) h) = Some (Ret (?poll ((?poll ^^ ?n) h)))"
    by (rule repeat_while_steps [where n = ?n and hs = "\<lambda>i. (?poll ^^ i) h"]) (use stop go in \<open>simp_all add: case_prod_beta\<close>)
  moreover have "U ((?poll ^^ i) h) = U h" for i by (induction i) (simp_all add: get_count_apart [OF assms(2)])
  ultimately show ?thesis by (simp add: wait_pit_def get_count_apart [OF assms(2)])
qed

lemma PIT0_100Hz: "apart_from_timers D U \<Longrightarrow> \<exists>h'. PIT_start_timer D PIT0 mode 100 h = Ret (Ok (), h') \<and> U h' = U h"
  by (simp add: PIT_start_timer_def TIMER_FREQUENCY_def apart_from_timers_def set_cmd_def PIT0_def Pit_new_def Let_def)

lemma apart_unit: "apart_from_timers D (\<lambda>_. ())"
  by (simp add: apart_from_timers_def)

text \<open>Without overflow checks the measurement of the processor clock returns.\<close>

lemma calc_cpu_freq_returns:
  assumes "pit_expires D"
  shows "\<exists>f h'. calc_cpu_freq Release D h = Ret (f, h')"
proof -
  obtain h1 where h1: "PIT_start_timer D PIT0 InterruptOnTerminalCount 100 h = Ret (Ok (), h1)" by (metis PIT0_100Hz apart_unit)
  obtain h2 where "wait_pit D PIT0 (snd (rdtsc D h1)) = Ret h2" by (metis wait_pit_returns [OF assms apart_unit])
  then show ?thesis by (simp add: calc_cpu_freq_def h1 word_sub_def word_mul_def case_prod_beta)
qed

lemma start_timer_law:
  assumes "pit_expires D" and "apart_from_timers D U" and "\<forall>h. fst (lapic_read D XAPIC_TIMER_CURRENT_COUNT h) = c"
  obtains h' where "\<And>pr. start_timer pr D h = obind (word_mul pr (0xffffffff - c) 100) (\<lambda>s. Ret (lapic_write D XAPIC_TIMER_INIT_COUNT (s div 1000)
      (lapic_write D XAPIC_TIMER_DIV_CONF 3 (lapic_write D XAPIC_LVT_TIMER 0x20020 h'))))" "U h' = U h"
proof -
  note U = assms(2) [unfolded apart_from_timers_def]
  obtain h1 where h1: "PIT_start_timer D PIT0 InterruptOnTerminalCount 100 (lapic_write D XAPIC_TIMER_DIV_CONF 3 h) = Ret (Ok (), h1)"
    "U h1 = U h"
    using PIT0_100Hz [OF assms(2)] U by metis
  obtain h2 where h2: "wait_pit D PIT0 (lapic_write D XAPIC_TIMER_INIT_COUNT 0xffffffff h1) = Ret h2" "U h2 = U h"
    using wait_pit_returns [OF assms(1,2)] U h1(2) by metis
  have "unat c < 2 ^ LENGTH(32)" by (rule unsigned_less)
  then have le: "c \<le> 0xffffffff" by (simp add: word_le_nat_alt)
  show thesis
  proof (rule that [of "snd (lapic_read D XAPIC_TIMER_CURRENT_COUNT (lapic_write D XAPIC_LVT_TIMER 0x10000 h2))"])
    show "U (snd (lapic_read D XAPIC_TIMER_CURRENT_COUNT (lapic_write D XAPIC_LVT_TIMER 0x10000 h2))) = U h" using U h2(2) by simp
  qed (use assms(3) le in \<open>simp add: start_timer_def h1 h2 word_sub_def TICK_FREQ_def case_prod_beta Let_def\<close>)
qed

lemma start_timer_programs:
  assumes "pit_expires D" and "lapic_doc D L" and "apart_from_timers D U"
    and "\<forall>h. fst (lapic_read D XAPIC_TIMER_CURRENT_COUNT h) = c" and "t = 2 ^ 32 - 1 - unat c"
  shows "t \<le> 42949672 \<Longrightarrow> \<exists>h'. start_timer pr D h = Ret h' \<and> U h' = U h \<and> L h' XAPIC_LVT_TIMER = 0x20020 \<and>
      L h' XAPIC_TIMER_DIV_CONF = 3 \<and> unat (L h' XAPIC_TIMER_INIT_COUNT) = t div 10"
    and "42949672 < t \<Longrightarrow> start_timer Dev D h = Panic"
proof -
  define x where "x = 0xffffffff - c"
  obtain h' where start: "\<And>pr. start_timer pr D h = obind (word_mul pr x 100) (\<lambda>s. Ret (lapic_write D XAPIC_TIMER_INIT_COUNT (s div 1000)
      (lapic_write D XAPIC_TIMER_DIV_CONF 3 (lapic_write D XAPIC_LVT_TIMER 0x20020 h'))))" and U: "U h' = U h"
    using start_timer_law [OF assms(1,3,4), of h] unfolding x_def by metis
  have "unat c < 2 ^ LENGTH(32)" by (rule unsigned_less)
  then have t: "unat x = t" using assms(5) by (simp add: x_def unat_sub word_le_nat_alt)
  show "42949672 < t \<Longrightarrow> start_timer Dev D h = Panic" using t by (simp add: start word_mul_def)
  assume "t \<le> 42949672"
  then have fits: "t * 100 < 2 ^ 32" by simp
  then have "unat (x * 100) = t * 100" using t by (simp add: unat_mult_lem [THEN iffD1])
  then have "unat (x * 100 div 1000) = t div 10" by (simp add: unat_div_distrib)
  with fits t assms(2,3) U show "\<exists>h'. start_timer pr D h = Ret h' \<and> U h' = U h \<and> L h' XAPIC_LVT_TIMER = 0x20020 \<and>
      L h' XAPIC_TIMER_DIV_CONF = 3 \<and> unat (L h' XAPIC_TIMER_INIT_COUNT) = t div 10"
    by (simp add: start word_mul_def lapic_doc_def apart_from_timers_def)
qed


subsection \<open>A machine with an interval timer and an APIC\<close>

text \<open>The state: the counters, the count that is left, whether its low byte was read, and the registers.\<close>

type_synonym demo_timer = "(8 word \<Rightarrow> counter) \<times> nat \<times> bool \<times> (ApicRegister \<Rightarrow> 32 word)"

definition demo_timers :: "32 word \<Rightarrow> demo_timer devices" where
  "demo_timers c = \<lparr>
     in8 = (\<lambda>p (cs, n, low, regs). if low then (0, cs, n, False, regs) else (if n = 0 then 0 else 1, cs, n - 1, True, regs)),
     out8 = (\<lambda>p b (cs, rest).
        if p = 0x43 then (cs(drop_bit 6 b := counter_ctl b (cs (drop_bit 6 b))), rest)
        else if p = 0x40 then (cs(0 := counter_data b (cs 0)), rest)
        else if p = 0x41 then (cs(1 := counter_data b (cs 1)), rest)
        else if p = 0x42 then (cs(2 := counter_data b (cs 2)), rest) else (cs, rest)),
     lapic_read = (\<lambda>r s. (c, s)),
     lapic_write = (\<lambda>r v (cs, n, low, regs). (cs, n, low, regs(r := v))),
     lapic_eoi = (\<lambda>s. s), lapic_attach = (\<lambda>s. s),
     ioapic_open = Some, ioapic_disable_all = (\<lambda>s. s), ioapic_enable = (\<lambda>i c s. s), rdtsc = (\<lambda>s. (0, s))\<rparr>"

definition demo_counters :: "8 word \<Rightarrow> counter" where
  "demo_counters n = \<lparr>c_access = 3, c_mode = 2, c_bcd = False, c_low = None, c_reload = 7\<rparr>"

lemma demo_pit_doc: "pit_doc (demo_timers c) fst"
  unfolding pit_doc_def
proof (intro conjI allI impI)
  fix ch b h
  show "fst (out8 (demo_timers c) (channel_port ch) b h) = (fst h)(channel_u8 ch := counter_data b (fst h (channel_u8 ch)))"
    by (cases ch) (auto simp: demo_timers_def split: prod.splits)
qed (auto simp: demo_timers_def split: prod.splits)

lemma demo_count:
  "get_count (demo_timers c) PIT0 (cs, n, False, regs) = (if n = 0 then 0 else 1, cs, n - 1, False, regs)"
  "get_count (demo_timers c) PIT0 (cs, n, True, regs) = (if n = 0 then 0 else 0x100, cs, n - 1, True, regs)"
  by (simp_all add: get_count_def demo_timers_def)

lemma demo_expires: "pit_expires (demo_timers c)"
proof -
  have "((\<lambda>h. snd (get_count (demo_timers c) PIT0 h)) ^^ k) (cs, n, low, regs) = (cs, n - k, low, regs)" for k cs n low regs
    by (induction k; cases low) (simp_all add: demo_count)
  then have "fst (get_count (demo_timers c) PIT0 (((\<lambda>h. snd (get_count (demo_timers c) PIT0 h)) ^^ n) (cs, n, low, regs))) = 0"
    for cs n low regs by (cases low) (simp_all add: demo_count)
  then show ?thesis unfolding pit_expires_def by (metis prod_cases4)
qed

lemma demo_lapic_doc: "lapic_doc (demo_timers c) (\<lambda>(cs, n, low, regs). regs)"
  by (auto simp: lapic_doc_def demo_timers_def)

theorem PIT0_start_timer_witness:
  "\<exists>h'. PIT_start_timer (demo_timers 0) PIT0 RateGenerator 100 (demo_counters, 5, False, \<lambda>_. 0) = Ret (Ok (), h') \<and>
     fst h' = demo_counters(0 := \<lparr>c_access = 3, c_mode = 2, c_bcd = False, c_low = None, c_reload = 11931\<rparr>)"
  using PIT0_start_timer [OF demo_pit_doc, of 100 0 RateGenerator "(demo_counters, 5, False, \<lambda>_. 0)"] by simp

theorem PIT12_reprogram_counter_0_witness:
  "\<exists>h'. PIT_start_timer (demo_timers 0) PIT2 SquareWaveGenerator 1000 (demo_counters, 5, False, \<lambda>_. 0) = Ret (Ok (), h') \<and>
     c_mode (fst h' 0) = 3 \<and> c_mode (fst h' 2) = 2 \<and> c_reload (fst h' 2) = 1193"
  using PIT12_reprogram_counter_0 [OF demo_pit_doc, of 1000 PIT2 2 "(demo_counters, 5, False, \<lambda>_. 0)" 0 SquareWaveGenerator]
  by (auto simp: demo_counters_def)


end
