(* ===== verification/Interrupts.thy ===== *)
theory Interrupts
  imports Serial Timer
begin

text \<open>
  \<open>trap.rs\<close>, the printing macro of \<open>serial.rs\<close> and the set-up of \<open>apic.rs\<close>: the interrupt handlers, and how they interleave with
  a thread that prints.  Handlers run with interrupts off, so each is one step; the thread runs with
  interrupts on, so an interrupt can come between any two of its steps.
\<close>

subsection \<open>State and handlers\<close>

text \<open>The hardware, the tick counter, and whether the locks of \<open>COM1\<close> and \<open>LAPIC\<close> are held.\<close>

record 'h kernel =
  k_hw :: 'h
  k_ticks :: "64 word"
  k_com1 :: bool
  k_lapic :: bool

definition IRQ0 :: "8 word" where
  "IRQ0 = 0x20"

datatype Handler = General_handler | Timer_handler | Com1_handler | Page_fault_handler

definition disable_8259 :: "'h devices \<Rightarrow> 'h \<Rightarrow> 'h" where
  "disable_8259 D h = out8 D 0x21 0xff (out8 D 0xa1 0xff h)"

text \<open>The initialiser of the static \<open>IOAPIC\<close> panics when the ACPI tables do not describe one.\<close>

definition IOAPIC_init :: "'h devices \<Rightarrow> 'h \<Rightarrow> 'h outcome" where
  "IOAPIC_init D h = unwrap (ioapic_open D h)"

definition IDT :: "8 word \<Rightarrow> Handler" where
  "IDT = (\<lambda>_. General_handler)(IRQ0 := Timer_handler, IRQ0 + IRQ_COM1 := Com1_handler, 14 := Page_fault_handler)"

definition kprintln :: "'h devices \<Rightarrow> string \<Rightarrow> 'h kernel \<Rightarrow> 'h kernel outcome" where
  "kprintln D s k =
     (if k_com1 k then Spin
      else (let h = write_str D SERIAL_COM1 s (k_hw k);
                h = write_byte D SERIAL_COM1 0x0d h;
                h = write_byte D SERIAL_COM1 0x0a h
            in Ret (k\<lparr>k_hw := h\<rparr>)))"

text \<open>The panic handler; the result is the state in which it halts the machine.\<close>

definition panic :: "'h devices \<Rightarrow> string \<Rightarrow> 'h kernel \<Rightarrow> 'h kernel outcome" where
  "panic D info k =
     obind (kprintln D ''KERNEL PANIC:'' k) (\<lambda>k.
     kprintln D info k)"

definition ack_lapic :: "'h devices \<Rightarrow> 'h kernel \<Rightarrow> 'h kernel outcome" where
  "ack_lapic D k = (if k_lapic k then Spin else Ret (k\<lparr>k_hw := lapic_eoi D (k_hw k)\<rparr>))"

definition general_handler :: "'h devices \<Rightarrow> string \<Rightarrow> string \<Rightarrow> 'h kernel \<Rightarrow> 'h kernel outcome" where
  "general_handler D idx errcode k =
     obind (kprintln D ''Interrupt!:'' k) (\<lambda>k.
     obind (kprintln D (CHR 0x09 # ''idx: '' @ idx) k) (\<lambda>k.
     obind (kprintln D (CHR 0x09 # ''errcode: '' @ errcode) k) (\<lambda>k. Panic)))"

definition timer_handler :: "'h devices \<Rightarrow> 'h kernel \<Rightarrow> 'h kernel outcome" where
  "timer_handler D k = ack_lapic D (k\<lparr>k_ticks := ticks_inc (k_ticks k)\<rparr>)"

definition com1_handler :: "profile \<Rightarrow> 'h devices \<Rightarrow> 'h kernel \<Rightarrow> 'h kernel outcome" where
  "com1_handler pr D k =
     (if k_com1 k then Spin
      else obind (handle_interrupt pr D SERIAL_COM1 (k_hw k)) (\<lambda>h. ack_lapic D (k\<lparr>k_hw := h\<rparr>)))"

definition page_fault_handler :: "'h devices \<Rightarrow> string \<Rightarrow> string \<Rightarrow> 'h kernel \<Rightarrow> 'h kernel outcome" where
  "page_fault_handler D errcode address k =
     obind (kprintln D ''Page fault!'' k) (\<lambda>k.
     obind (kprintln D (CHR 0x09 # ''err code: '' @ errcode) k) (\<lambda>k.
     obind (kprintln D (CHR 0x09 # ''address accessed: '' @ address) k) (\<lambda>k. Panic)))"

text \<open>The processor delivers a vector; the texts are what the formatter makes of the arguments.\<close>

definition deliver :: "profile \<Rightarrow> 'h devices \<Rightarrow> (8 word \<Rightarrow> string \<times> string) \<Rightarrow> 8 word \<Rightarrow> 'h kernel \<Rightarrow> 'h kernel outcome" where
  "deliver pr D fmt v k =
     (case IDT v of
        General_handler \<Rightarrow> general_handler D (fst (fmt v)) (snd (fmt v)) k
      | Timer_handler \<Rightarrow> timer_handler D k
      | Com1_handler \<Rightarrow> com1_handler pr D k
      | Page_fault_handler \<Rightarrow> page_fault_handler D (fst (fmt v)) (snd (fmt v)) k)"

subsection \<open>Printing, step by step\<close>

datatype event = Acquire | Put "8 word" | Unlock | Interrupt "8 word"

definition kprintln_events :: "string \<Rightarrow> event list" where
  "kprintln_events s = Acquire # map (\<lambda>c. Put (of_char c)) s @ [Put 0x0d, Put 0x0a, Unlock]"

fun exec :: "profile \<Rightarrow> 'h devices \<Rightarrow> (8 word \<Rightarrow> string \<times> string) \<Rightarrow> 'h kernel \<Rightarrow> event \<Rightarrow> 'h kernel outcome" where
  "exec pr D fmt k Acquire = (if k_com1 k then Spin else Ret (k\<lparr>k_com1 := True\<rparr>))"
| "exec pr D fmt k (Put b) = Ret (k\<lparr>k_hw := write_byte D SERIAL_COM1 b (k_hw k)\<rparr>)"
| "exec pr D fmt k Unlock = Ret (k\<lparr>k_com1 := False\<rparr>)"
| "exec pr D fmt k (Interrupt v) = deliver pr D fmt v k"

fun is_interrupt :: "event \<Rightarrow> bool" where
  "is_interrupt (Interrupt v) = True"
| "is_interrupt _ = False"

lemma exec_puts:
  "ofold (exec pr D fmt) k (map (\<lambda>c. Put (of_char c)) s) = Ret (k\<lparr>k_hw := write_str D SERIAL_COM1 s (k_hw k)\<rparr>)"
  by (induction s arbitrary: k) (simp_all add: write_str_def)

text \<open>Without interrupts the steps make up the macro.\<close>

lemma kprintln_events_law: "ofold (exec pr D fmt) k (kprintln_events s) = kprintln D s k"
  by (cases k) (simp add: kprintln_events_def kprintln_def exec_puts Let_def)

subsection \<open>Timer interrupts are transparent\<close>

definition same_output :: "('h \<Rightarrow> uart) \<Rightarrow> 'h kernel \<Rightarrow> 'h kernel \<Rightarrow> bool" where
  "same_output U k k' \<longleftrightarrow> U (k_hw k) = U (k_hw k') \<and> k_com1 k = k_com1 k' \<and> \<not> k_lapic k \<and> \<not> k_lapic k'"

lemma exec_same_output:
  assumes "uart_doc D SERIAL_COM1 U" and "same_output U k k'" and "\<not> is_interrupt e" and "exec pr D fmt k' e = Ret l'"
  shows "\<exists>l. exec pr D fmt k e = Ret l \<and> same_output U l l' \<and> k_ticks l = k_ticks k"
  using assms(2-4) by (cases e) (auto simp: same_output_def write_byte_def uart_docD(2) [OF assms(1)] split: if_splits)

lemma timer_same_output:
  assumes "\<And>h. U (lapic_eoi D h) = U h" and "same_output U k k'"
  shows "\<exists>l. exec pr D fmt k (Interrupt IRQ0) = Ret l \<and> same_output U l k' \<and> k_ticks l = k_ticks k + 1"
  using assms by (simp add: same_output_def deliver_def IDT_def IRQ0_def IRQ_COM1_def timer_handler_def ticks_inc_def ack_lapic_def)

lemma timer_transparent:
  assumes "uart_doc D SERIAL_COM1 U" and "\<And>h. U (lapic_eoi D h) = U h" and "same_output U k k'"
    and "\<forall>e \<in> set es. is_interrupt e \<longrightarrow> e = Interrupt IRQ0"
    and "ofold (exec pr D fmt) k' (filter (\<lambda>e. \<not> is_interrupt e) es) = Ret l'"
  shows "\<exists>l. ofold (exec pr D fmt) k es = Ret l \<and> same_output U l l' \<and>
    k_ticks l = k_ticks k + of_nat (length (filter is_interrupt es))"
  using assms(3-5)
proof (induction es arbitrary: k k')
  case (Cons e es)
  show ?case
  proof (cases "is_interrupt e")
    case True
    with Cons.prems(2) have e: "e = Interrupt IRQ0" by simp
    obtain l where l: "exec pr D fmt k e = Ret l" "same_output U l k'" "k_ticks l = k_ticks k + 1"
      using timer_same_output [OF assms(2) Cons.prems(1)] e by metis
    with Cons.IH [OF l(2)] Cons.prems True show ?thesis by (auto simp: algebra_simps)
  next
    case False
    with Cons.prems(3) obtain m' where m': "exec pr D fmt k' e = Ret m'"
      "ofold (exec pr D fmt) m' (filter (\<lambda>e. \<not> is_interrupt e) es) = Ret l'" by (auto simp: obind_eq_Ret)
    obtain l where l: "exec pr D fmt k e = Ret l" "same_output U l m'" "k_ticks l = k_ticks k"
      using exec_same_output [OF assms(1) Cons.prems(1) False m'(1)] by blast
    with Cons.IH [OF l(2) _ m'(2)] Cons.prems(2) False show ?thesis by auto
  qed
qed simp

definition lines_events :: "string list \<Rightarrow> event list" where
  "lines_events ls = concat (map kprintln_events ls)"

definition line_bytes :: "string \<Rightarrow> 8 word list" where
  "line_bytes s = map of_char s @ [0x0d, 0x0a]"

lemma lines_events_law: "ofold (exec pr D fmt) k (lines_events ls) = ofold (\<lambda>k s. kprintln D s k) k ls"
  by (induction ls arbitrary: k) (simp_all add: lines_events_def kprintln_events_law)

lemma kprintln_puts:
  "kprintln D s k = (if k_com1 k then Spin else Ret (k\<lparr>k_hw := foldl (\<lambda>h b. write_byte D SERIAL_COM1 b h) (k_hw k) (line_bytes s)\<rparr>))"
  by (simp add: kprintln_def line_bytes_def write_str_puts)

lemma print_lines_doc:
  assumes "uart_doc D SERIAL_COM1 U" and "uart_open (U (k_hw k))" and "\<not> k_com1 k"
  shows "\<exists>l. ofold (\<lambda>k s. kprintln D s k) k ls = Ret l \<and> tx (U (k_hw l)) = tx (U (k_hw k)) @ concat (map line_bytes ls) \<and>
    \<not> k_com1 l \<and> k_lapic l = k_lapic k"
  using assms(2,3)
proof (induction ls arbitrary: k)
  case (Cons s ls)
  let ?l = "k\<lparr>k_hw := foldl (\<lambda>h b. write_byte D SERIAL_COM1 b h) (k_hw k) (line_bytes s)\<rparr>"
  have "uart_open (U (k_hw ?l))" "tx (U (k_hw ?l)) = tx (U (k_hw k)) @ line_bytes s"
    using com1.puts [of D SERIAL_COM1 U "k_hw k" "line_bytes s"] assms(1) Cons.prems(1) by simp_all
  with Cons.IH [of ?l] Cons.prems(2) show ?case by (simp add: kprintln_puts)
qed simp

text \<open>A panic is reported when the console is free; one inside a print is not.\<close>

lemma panic_reports:
  assumes "uart_doc D SERIAL_COM1 U" and "uart_open (U (k_hw k))"
  shows "if k_com1 k then panic D info k = Spin
    else \<exists>l. panic D info k = Ret l \<and> tx (U (k_hw l)) = tx (U (k_hw k)) @ line_bytes ''KERNEL PANIC:'' @ line_bytes info"
  using print_lines_doc [OF assms, of "[''KERNEL PANIC:'', info]"] by (auto simp: panic_def kprintln_def)

lemma split_interrupts:
  assumes "es \<in> shuffles ps (replicate n (Interrupt v))" and "\<forall>e \<in> set ps. \<not> is_interrupt e"
  shows "filter (\<lambda>e. \<not> is_interrupt e) es = ps" and "filter is_interrupt es = replicate n (Interrupt v)"
proof -
  have f: "filter (\<lambda>e. \<not> is_interrupt e) ps = ps" "filter is_interrupt ps = []" using assms(2) by (simp_all add: filter_empty_conv)
  have "filter P es \<in> shuffles (filter P ps) (filter P (replicate n (Interrupt v)))" for P
    using assms(1) filter_shuffles [of P ps "replicate n (Interrupt v)"] by auto
  from this [of "\<lambda>e. \<not> is_interrupt e"] this [of is_interrupt]
  show "filter (\<lambda>e. \<not> is_interrupt e) es = ps" "filter is_interrupt es = replicate n (Interrupt v)" by (simp_all add: f)
qed

lemma lines_interleaved:
  assumes "uart_doc D SERIAL_COM1 U" and "\<forall>h. U (lapic_eoi D h) = U h" and "uart_open (U (k_hw k))"
    and "\<not> k_com1 k" and "\<not> k_lapic k" and "es \<in> shuffles (lines_events ls) (replicate n (Interrupt IRQ0))"
  shows "\<exists>l. ofold (exec pr D fmt) k es = Ret l \<and> tx (U (k_hw l)) = tx (U (k_hw k)) @ concat (map line_bytes ls) \<and>
    \<not> k_com1 l \<and> k_ticks l = k_ticks k + of_nat n"
proof -
  have "\<forall>e \<in> set (lines_events ls). \<not> is_interrupt e" by (auto simp: lines_events_def kprintln_events_def)
  note split = split_interrupts [OF assms(6) this]
  have irq: "\<forall>e \<in> set es. is_interrupt e \<longrightarrow> e = Interrupt IRQ0"
    using split(2) by (metis (mono_tags, lifting) in_set_replicate mem_Collect_eq set_filter)
  obtain l' where l': "ofold (\<lambda>k s. kprintln D s k) k ls = Ret l'" "tx (U (k_hw l')) = tx (U (k_hw k)) @ concat (map line_bytes ls)"
    "\<not> k_com1 l'" using print_lines_doc [OF assms(1,3,4)] by blast
  have same: "same_output U k k" using assms(5) by (simp add: same_output_def)
  have run: "ofold (exec pr D fmt) k (filter (\<lambda>e. \<not> is_interrupt e) es) = Ret l'" by (simp add: split(1) lines_events_law l'(1))
  from timer_transparent [OF assms(1) _ same irq run] assms(2) split(2)
  obtain l where "ofold (exec pr D fmt) k es = Ret l" "same_output U l l'" "k_ticks l = k_ticks k + of_nat n" by auto
  with l'(2,3) show ?thesis by (auto simp: same_output_def)
qed


subsection \<open>Serial interrupts are not\<close>

text \<open>
  C33: A serial interrupt that comes while a line is being printed never returns: its handler waits for
  the lock of the thread it has interrupted.
\<close>

theorem serial_interrupt_deadlocks:
  assumes "\<not> k_com1 k" and "i \<le> length s + 2"
  shows "ofold (exec pr D fmt) k (take (Suc i) (kprintln_events s) @ Interrupt (IRQ0 + IRQ_COM1) # drop (Suc i) (kprintln_events s)) = Spin"
proof -
  define ps where "ps = map (\<lambda>c. Put (of_char c)) s @ [Put 0x0d, Put 0x0a]"
  have ev: "kprintln_events s = Acquire # ps @ [Unlock]" "i \<le> length ps" "\<forall>e \<in> set (take i ps). \<exists>b. e = Put b"
    using assms(2) by (auto simp: kprintln_events_def ps_def dest!: in_set_takeD)
  have "\<exists>l. ofold (exec pr D fmt) m es = Ret l \<and> k_com1 l = k_com1 m" if "\<forall>e \<in> set es. \<exists>b. e = Put b" for m es
    using that by (induction es arbitrary: m) fastforce+
  from this [OF ev(3), of "k\<lparr>k_com1 := True\<rparr>"]
  obtain l where "ofold (exec pr D fmt) (k\<lparr>k_com1 := True\<rparr>) (take i ps) = Ret l" "k_com1 l" by auto
  then show ?thesis using assms(1) ev(2) by (simp add: ev(1) deliver_def IDT_def IRQ0_def IRQ_COM1_def com1_handler_def)
qed

text \<open>
  C34: With both locks free, the two device interrupts are served (a tick is counted; what was typed is
  echoed) and any other vector panics.
\<close>

theorem interrupt_outcome:
  assumes "uart_doc D SERIAL_COM1 U" and "\<forall>h. U (lapic_eoi D h) = U h" and "uart_open (U (k_hw k))"
    and "\<not> k_com1 k" and "\<not> k_lapic k"
  shows "if v = 0x20 then \<exists>l. deliver pr D fmt v k = Ret l \<and> k_ticks l = k_ticks k + 1 \<and> U (k_hw l) = U (k_hw k)
    else if v = 0x24 then \<exists>l. deliver pr D fmt v k = Ret l \<and> k_ticks l = k_ticks k \<and>
      U (k_hw l) = U (k_hw k)\<lparr>rx := [], tx := tx (U (k_hw k)) @ concat (map echo (rx (U (k_hw k))))\<rparr>
    else deliver pr D fmt v k = Panic"
proof -
  consider "v = 0x20" | "v = 0x24" | "v \<noteq> 0x20" "v \<noteq> 0x24" by blast
  then show ?thesis
  proof cases
    case 1
    with assms(2,5) show ?thesis
      by (simp add: deliver_def IDT_def IRQ0_def IRQ_COM1_def timer_handler_def ticks_inc_def ack_lapic_def)
  next
    case 2
    obtain h where "handle_interrupt pr D SERIAL_COM1 (k_hw k) = Ret h"
      "U h = U (k_hw k)\<lparr>rx := [], tx := tx (U (k_hw k)) @ concat (map echo (rx (U (k_hw k))))\<rparr>"
      using handle_interrupt_law [OF assms(1,3)] by blast
    with 2 assms(2,4,5) show ?thesis
      by (simp add: deliver_def IDT_def IRQ0_def IRQ_COM1_def com1_handler_def ack_lapic_def)
  next
    case 3
    with assms(4) show ?thesis
      by (simp add: deliver_def IDT_def IRQ0_def IRQ_COM1_def general_handler_def page_fault_handler_def kprintln_def Let_def)
  qed
qed

text \<open>A part of the machine that the set-up and the acknowledgement of interrupts leave alone.\<close>

definition apart_from_apic :: "'h devices \<Rightarrow> ('h \<Rightarrow> 'u) \<Rightarrow> bool" where
  "apart_from_apic D U \<longleftrightarrow>
     (\<forall>b h. U (out8 D 0x21 b h) = U h \<and> U (out8 D 0xa1 b h) = U h) \<and> (\<forall>h. U (lapic_attach D h) = U h \<and> U (lapic_eoi D h) = U h) \<and>
     (\<forall>h h'. ioapic_open D h = Some h' \<longrightarrow> U h' = U h) \<and> (\<forall>h. U (ioapic_disable_all D h) = U h)"

subsection \<open>Witnesses\<close>

definition demo_kernel :: "uart kernel" where
  "demo_kernel = \<lparr>k_hw = demo_chip, k_ticks = 41, k_com1 = False, k_lapic = False\<rparr>"

lemma demo_eoi: "lapic_eoi demo_uart u = u" and demo_open: "uart_open demo_chip"
  by (simp_all add: demo_uart_def demo_chip_def uart_open_def)


theorem serial_interrupt_deadlocks_witness:
  "ofold (exec Dev demo_uart (\<lambda>v. ([], []))) demo_kernel [Acquire, Put 0x4f, Interrupt 0x24, Put 0x6b, Put 0x0d, Put 0x0a, Unlock] = Spin"
  using serial_interrupt_deadlocks [of demo_kernel 1 "''Ok''" Dev demo_uart "\<lambda>v. ([], [])"]
  by (simp add: demo_kernel_def kprintln_events_def IRQ0_def IRQ_COM1_def)

theorem interrupt_outcome_witness:
  "\<exists>l. deliver Dev demo_uart (\<lambda>v. ([], [])) 0x24 demo_kernel = Ret l \<and> rx (k_hw l) = [] \<and>
     tx (k_hw l) = [0x68, 0x69, 0x08, 0x20, 0x08, 0x0d, 0x0a]"
  using interrupt_outcome [OF demo_uart_doc, where k = demo_kernel and v = "0x24" and pr = Dev and fmt = "\<lambda>v. ([], [])"]
  by (simp add: demo_kernel_def demo_eoi demo_open) (auto simp: demo_chip_def echo_def)

text \<open>A machine with the serial port, the interval timer and the APIC.\<close>

definition demo_machine :: "32 word \<Rightarrow> (uart \<times> demo_timer) devices" where
  "demo_machine c = \<lparr>
     in8 = (\<lambda>p (u, t). if p - SERIAL_COM1 < 8 then map_prod id (\<lambda>u. (u, t)) (in8 demo_uart p u)
                      else map_prod id (Pair u) (in8 (demo_timers c) p t)),
     out8 = (\<lambda>p b (u, t). if p - SERIAL_COM1 < 8 then (out8 demo_uart p b u, t) else (u, out8 (demo_timers c) p b t)),
     lapic_read = (\<lambda>r (u, t). map_prod id (Pair u) (lapic_read (demo_timers c) r t)),
     lapic_write = (\<lambda>r v (u, t). (u, lapic_write (demo_timers c) r v t)),
     lapic_eoi = (\<lambda>h. h), lapic_attach = (\<lambda>h. h), ioapic_open = Some, ioapic_disable_all = (\<lambda>h. h),
     ioapic_enable = (\<lambda>i c h. h), rdtsc = (\<lambda>h. (0, h))\<rparr>"

lemma demo_machine_uart: "uart_doc (demo_machine c) SERIAL_COM1 fst"
proof -
  have off: "of_nat n < (8 :: 16 word)" if "n < 5" for n using that by (simp add: word_less_nat_alt unat_of_nat)
  show ?thesis
    using demo_uart_doc by (simp add: uart_doc_def demo_machine_def case_prod_beta off)
qed

lemma demo_machine_count: "get_count (demo_machine c) PIT0 (u, t) = map_prod id (Pair u) (get_count (demo_timers c) PIT0 t)"
  by (simp add: get_count_def demo_machine_def PIT0_def Pit_new_def SERIAL_COM1_def case_prod_beta Let_def)

lemma demo_machine_expires: "pit_expires (demo_machine c)"
proof -
  have "((\<lambda>h. snd (get_count (demo_machine c) PIT0 h)) ^^ n) (u, t) = (u, ((\<lambda>h. snd (get_count (demo_timers c) PIT0 h)) ^^ n) t)" for n u t
    by (induction n) (simp_all add: demo_machine_count)
  then have "fst (get_count (demo_machine c) PIT0 (((\<lambda>h. snd (get_count (demo_machine c) PIT0 h)) ^^ n) (u, t))) =
      fst (get_count (demo_timers c) PIT0 (((\<lambda>h. snd (get_count (demo_timers c) PIT0 h)) ^^ n) t))" for n u t
    by (simp add: demo_machine_count)
  with demo_expires [of c] show ?thesis unfolding pit_expires_def by (metis surj_pair)
qed

lemma demo_machine_apart:
  "lapic_doc (demo_machine c) (\<lambda>(u, cs, n, low, regs). regs)" "apart_from_timers (demo_machine c) fst" "apart_from_apic (demo_machine c) fst"
  "\<forall>h. ioapic_open (demo_machine c) h \<noteq> None" "\<forall>h. fst (lapic_read (demo_machine c) XAPIC_TIMER_CURRENT_COUNT h) = c"
  by (auto simp: lapic_doc_def apart_from_timers_def apart_from_apic_def demo_machine_def demo_timers_def SERIAL_COM1_def case_prod_beta)

end
